(* ===== verification/Prelude.thy ===== *)
theory Prelude
  imports Main "HOL-Library.Char_ord" "HOL-Library.List_Lexorder"
begin

text \<open>
  The shared ground of the development. Go's \<open>string\<close> and \<open>[]byte\<close> are both lists of 8-bit
  characters here, so \<open>len\<close>, slicing and comparison count and compare bytes as Go does (the order
  on lists of \<open>HOL-Library.List_Lexorder\<close> over \<open>HOL-Library.Char_ord\<close> is Go's string order). A
  fallible Go function returns \<open>'e + 'a\<close>, with \<open>Inl\<close> for the error. The theory holds the functions
  of Go's \<open>strings\<close> and \<open>path\<close> packages that the repository calls, the generic facts about them,
  and the collections of rules that the component theories extend.
\<close>

named_theorems go_defs \<open>unfolding rules for the models of Go's standard library\<close>
named_theorems eval_defs \<open>definitions that a concrete run unfolds\<close>

type_synonym bytes = string

abbreviation (input) slash :: char where
  "slash \<equiv> CHR ''/''"

section \<open>Results\<close>

definition is_ok :: "'e + 'a \<Rightarrow> bool" where
  "is_ok r = (case r of Inl _ \<Rightarrow> False | Inr _ \<Rightarrow> True)"

lemma is_ok_simps [simp]: "is_ok (Inr x)" "\<not> is_ok (Inl e)"
  by (simp_all add: is_ok_def)

lemma is_ok_iff: "is_ok r \<longleftrightarrow> (\<exists>x. r = Inr x)"
  by (cases r) simp_all

section \<open>Signed 64-bit integers\<close>

text \<open>A value of type \<open>int64\<close> is an integer of that range; a sum that leaves the range wraps around.\<close>

definition wrap64 :: "int \<Rightarrow> int" where
  "wrap64 x = (x + 2 ^ 63) mod 2 ^ 64 - 2 ^ 63"

definition is_int64 :: "int \<Rightarrow> bool" where
  "is_int64 x \<longleftrightarrow> - (2 ^ 63) \<le> x \<and> x < 2 ^ 63"

lemma wrap64_id: "is_int64 x \<Longrightarrow> wrap64 x = x"
  by (simp add: wrap64_def is_int64_def)

lemma wrap64_int64: "is_int64 (wrap64 x)"
  using pos_mod_sign [of "2 ^ 64" "x + 2 ^ 63"] pos_mod_bound [of "2 ^ 64" "x + 2 ^ 63"]
  by (simp add: wrap64_def is_int64_def)

lemma wrap64_over: "2 ^ 63 \<le> x \<Longrightarrow> x < 2 ^ 64 \<Longrightarrow> wrap64 x = x - 2 ^ 64"
  using mod_pos_pos_trivial [of "x - 2 ^ 63" "2 ^ 64"] mod_add_self2 [of "x - 2 ^ 63" "2 ^ 64"]
  by (simp add: wrap64_def add.commute)

section \<open>The \<open>strings\<close> package\<close>

definition has_prefix :: "string \<Rightarrow> string \<Rightarrow> bool" where
  "has_prefix s p \<longleftrightarrow> take (length p) s = p"

definition trim_prefix :: "string \<Rightarrow> string \<Rightarrow> string" where
  "trim_prefix s p = (if has_prefix s p then drop (length p) s else s)"

definition has_suffix :: "string \<Rightarrow> string \<Rightarrow> bool" where
  "has_suffix s p \<longleftrightarrow> length p \<le> length s \<and> drop (length s - length p) s = p"

definition trim_suffix :: "string \<Rightarrow> string \<Rightarrow> string" where
  "trim_suffix s p = (if has_suffix s p then take (length s - length p) s else s)"

text \<open>\<open>strings.Trim(s, "/")\<close> and its one-sided variants, for a one-character cut set.\<close>

definition trim_left :: "char \<Rightarrow> string \<Rightarrow> string" where
  "trim_left c s = dropWhile (\<lambda>x. x = c) s"

definition trim_right :: "char \<Rightarrow> string \<Rightarrow> string" where
  "trim_right c s = rev (dropWhile (\<lambda>x. x = c) (rev s))"

definition trim :: "char \<Rightarrow> string \<Rightarrow> string" where
  "trim c s = trim_right c (trim_left c s)"

text \<open>\<open>strings.Index\<close> of a one-character string: \<open>None\<close> is Go's \<open>-1\<close>.\<close>

fun index_of :: "char \<Rightarrow> string \<Rightarrow> nat option" where
  "index_of c [] = None"
| "index_of c (x # xs) = (if x = c then Some 0 else map_option Suc (index_of c xs))"

text \<open>\<open>strings.Split\<close> by a one-character separator, and \<open>strings.Join\<close>.\<close>

fun split_on :: "char \<Rightarrow> string \<Rightarrow> string list" where
  "split_on c [] = [[]]"
| "split_on c (x # xs) =
     (if x = c then [] # split_on c xs
      else (case split_on c xs of [] \<Rightarrow> [[x]] | y # ys \<Rightarrow> (x # y) # ys))"

fun join_with :: "char \<Rightarrow> string list \<Rightarrow> string" where
  "join_with c [] = []"
| "join_with c [x] = x"
| "join_with c (x # y # ys) = x @ c # join_with c (y # ys)"

text \<open>
  \<open>strings.ToLower\<close>. Go lower-cases an all-ASCII string byte by byte; any other string goes
  through the Unicode tables, which are the parameter \<open>uni\<close>.
\<close>

definition byte_of :: "char \<Rightarrow> nat" where
  "byte_of c = of_char c"

definition is_ascii :: "char \<Rightarrow> bool" where
  "is_ascii c \<longleftrightarrow> byte_of c < 128"

definition in_range :: "char \<Rightarrow> char \<Rightarrow> char \<Rightarrow> bool" where
  "in_range lo hi c \<longleftrightarrow> byte_of lo \<le> byte_of c \<and> byte_of c \<le> byte_of hi"

definition lower_char :: "char \<Rightarrow> char" where
  "lower_char c = (if in_range (CHR ''A'') (CHR ''Z'') c then char_of (byte_of c + 32) else c)"

definition to_lower :: "(string \<Rightarrow> string) \<Rightarrow> string \<Rightarrow> string" where
  "to_lower uni s = (if list_all is_ascii s then map lower_char s else uni s)"

section \<open>The \<open>path\<close> package\<close>

text \<open>\<open>path.Split\<close>: the directory part keeps its final slash.\<close>

definition path_split :: "string \<Rightarrow> string \<times> string" where
  "path_split p = (rev (dropWhile (\<lambda>x. x \<noteq> slash) (rev p)), rev (takeWhile (\<lambda>x. x \<noteq> slash) (rev p)))"

text \<open>
  \<open>path.Clean\<close> works through the slash-separated elements with a stack (kept in reverse): empty
  elements and \<open>.\<close> vanish, \<open>..\<close> removes the element before it, is dropped at the root of a rooted
  path, and stays at the front of a relative one.
\<close>

definition clean_step :: "bool \<Rightarrow> string list \<Rightarrow> string \<Rightarrow> string list" where
  "clean_step rooted stack e =
     (if e = [] \<or> e = ''.'' then stack
      else if e = ''..'' then
        (case stack of
           [] \<Rightarrow> (if rooted then [] else [''..''])
         | x # xs \<Rightarrow> (if x = ''..'' then ''..'' # stack else xs))
      else e # stack)"

definition path_clean :: "string \<Rightarrow> string" where
  "path_clean p =
     (if p = [] then ''.''
      else
        let rooted = (hd p = slash);
            body = join_with slash (rev (foldl (clean_step rooted) [] (split_on slash p)))
        in if rooted then slash # body else if body = [] then ''.'' else body)"

text \<open>\<open>path.Join\<close>: the non-empty elements, joined by slashes and cleaned.\<close>

definition path_join :: "string list \<Rightarrow> string" where
  "path_join es =
     (let nes = filter (\<lambda>e. e \<noteq> []) es
      in if nes = [] then [] else path_clean (join_with slash nes))"

definition path_dir :: "string \<Rightarrow> string" where
  "path_dir p = path_clean (fst (path_split p))"

definition path_base :: "string \<Rightarrow> string" where
  "path_base p =
     (if p = [] then ''.''
      else let q = trim_right slash p in if q = [] then ''/'' else snd (path_split q))"

section \<open>Decimal numbers\<close>

text \<open>\<open>fmt.Sprintf("%d", i)\<close>.\<close>

definition digit_char :: "nat \<Rightarrow> char" where
  "digit_char d = char_of (48 + d)"

fun show_nat :: "nat \<Rightarrow> string" where
  "show_nat n = (if n < 10 then [digit_char n] else show_nat (n div 10) @ [digit_char (n mod 10)])"

declare show_nat.simps [simp del]

definition show_int :: "int \<Rightarrow> string" where
  "show_int i = (if i < 0 then CHR ''-'' # show_nat (nat (- i)) else show_nat (nat i))"

lemmas [go_defs] = has_prefix_def trim_prefix_def has_suffix_def trim_suffix_def trim_left_def
  trim_right_def trim_def path_split_def path_dir_def path_base_def

section \<open>Splitting and joining\<close>

lemma split_on_nonempty [simp]: "split_on c s \<noteq> []"
  by (induction s) (auto split: list.splits)

lemma split_on_none [simp]: "c \<notin> set s \<Longrightarrow> split_on c s = [s]"
  by (induction s) auto

lemma split_on_append: "c \<notin> set a \<Longrightarrow> split_on c (a @ c # b) = a # split_on c b"
  by (induction a) auto

lemma split_on_elems: "e \<in> set (split_on c s) \<Longrightarrow> c \<notin> set e"
  by (induction s arbitrary: e) (auto split: if_splits list.splits)

lemma join_split [simp]: "join_with c (split_on c s) = s"
proof (induction s)
  case (Cons x s)
  then show ?case by (cases "split_on c s"; cases "tl (split_on c s)") auto
qed simp

lemma split_join: "xs \<noteq> [] \<Longrightarrow> \<forall>x \<in> set xs. c \<notin> set x \<Longrightarrow> split_on c (join_with c xs) = xs"
  by (induction c xs rule: join_with.induct) (auto simp: split_on_append)

lemma join_with_append:
  "xs \<noteq> [] \<Longrightarrow> ys \<noteq> [] \<Longrightarrow> join_with c (xs @ ys) = join_with c xs @ c # join_with c ys"
  by (induction c xs rule: join_with.induct) (auto simp: neq_Nil_conv)

lemma index_of_None: "index_of c s = None \<longleftrightarrow> c \<notin> set s"
  by (induction s) auto

lemma index_of_append: "c \<notin> set a \<Longrightarrow> index_of c (a @ c # b) = Some (length a)"
  by (induction a) auto

lemma index_of_Some:
  "index_of c s = Some i \<Longrightarrow> s = take i s @ c # drop (Suc i) s \<and> c \<notin> set (take i s)"
  by (induction s arbitrary: i) (auto split: if_splits)

text \<open>
  A path element that \<open>path.Clean\<close> leaves alone; a path of such elements is its own clean form.
\<close>

definition plain :: "string \<Rightarrow> bool" where
  "plain e \<longleftrightarrow> e \<noteq> [] \<and> e \<noteq> ''.'' \<and> e \<noteq> ''..'' \<and> slash \<notin> set e"

lemma clean_plain: "\<forall>e \<in> set es. plain e \<Longrightarrow> foldl (clean_step r) st es = rev es @ st"
  by (induction es arbitrary: st) (auto simp: clean_step_def plain_def)

lemma path_clean_rooted:
  assumes "\<forall>e \<in> set es. plain e"
  shows "path_clean (slash # join_with slash es) = slash # join_with slash es"
proof (cases "es = []")
  case True
  then show ?thesis by (simp add: path_clean_def clean_step_def)
next
  case False
  then have "split_on slash (slash # join_with slash es) = [] # es"
    using assms by (simp add: split_join plain_def)
  then show ?thesis
    using clean_plain [OF assms] by (simp add: path_clean_def clean_step_def)
qed

lemma path_clean_relative:
  assumes "\<forall>e \<in> set es. plain e" "es \<noteq> []"
  shows "path_clean (join_with slash es) = join_with slash es"
proof -
  from assms obtain x xs rest where es: "es = (x # xs) # rest" "x \<noteq> slash"
    by (cases es; cases "hd es") (auto simp: plain_def)
  then have "join_with slash es \<noteq> []" "hd (join_with slash es) \<noteq> slash"
    by (cases rest; simp)+
  then show ?thesis
    using assms clean_plain [OF assms(1)] by (simp add: path_clean_def split_join plain_def)
qed

lemma takeWhile_sep: "c \<notin> set xs \<Longrightarrow> takeWhile (\<lambda>x. x \<noteq> c) (xs @ c # ys) = xs"
  by (induction xs) auto

lemma dropWhile_sep: "c \<notin> set xs \<Longrightarrow> dropWhile (\<lambda>x. x \<noteq> c) (xs @ c # ys) = c # ys"
  by (induction xs) auto

lemma path_split_snoc: "slash \<notin> set c \<Longrightarrow> path_split (a @ slash # c) = (a @ [slash], c)"
  using takeWhile_sep [of slash "rev c"] dropWhile_sep [of slash "rev c"] by (simp add: path_split_def)

text \<open>Cleaning a rooted path drops its empty elements.\<close>

lemma clean_plain_or_empty:
  "\<forall>e \<in> set es. e \<noteq> [] \<longrightarrow> plain e \<Longrightarrow>
     foldl (clean_step r) st es = rev (filter (\<lambda>e. e \<noteq> []) es) @ st"
  by (induction es arbitrary: st) (auto simp: clean_step_def plain_def)

lemma split_on_glue: "split_on c (a @ c # b) = split_on c a @ split_on c b"
proof (induction a)
  case (Cons x a)
  then show ?case by (cases "split_on c a") auto
qed simp

lemma split_on_joined: "es \<noteq> [] \<Longrightarrow> split_on c (join_with c es) = concat (map (split_on c) es)"
  by (induction c es rule: join_with.induct) (simp_all add: split_on_glue)

section \<open>Decimal numbers are read back\<close>

definition read_nat :: "string \<Rightarrow> nat" where
  "read_nat s = foldl (\<lambda>n c. n * 10 + (of_char c - 48)) 0 s"

lemma read_show_nat: "read_nat (show_nat n) = n"
proof (induction n rule: show_nat.induct)
  case (1 n)
  have d: "of_char (digit_char k) = 48 + k" if "k < 10" for k
    using that by (simp add: digit_char_def)
  show ?case
  proof (cases "n < 10")
    case True
    then show ?thesis by (simp add: show_nat.simps read_nat_def d)
  next
    case False
    with 1 have "read_nat (show_nat (n div 10)) = n div 10" by simp
    with False show ?thesis
      by (subst show_nat.simps) (simp add: read_nat_def d)
  qed
qed

lemma show_nat_digits: "c \<in> set (show_nat n) \<Longrightarrow> in_range (CHR ''0'') (CHR ''9'') c"
proof (induction n rule: show_nat.induct)
  case (1 n)
  have d: "in_range (CHR ''0'') (CHR ''9'') (digit_char k)" if "k < 10" for k
    using that by (simp add: digit_char_def in_range_def byte_of_def)
  show ?case
  proof (cases "n < 10")
    case True
    then have "show_nat n = [digit_char n]" by (simp add: show_nat.simps)
    then show ?thesis using 1(2) d [OF True] by simp
  next
    case False
    then have "show_nat n = show_nat (n div 10) @ [digit_char (n mod 10)]"
      by (subst show_nat.simps) simp
    then show ?thesis using 1(1) [OF False] 1(2) d [of "n mod 10"] by auto
  qed
qed

lemma show_nat_nonempty [simp]: "show_nat n \<noteq> []"
  by (subst show_nat.simps) simp

definition read_int :: "string \<Rightarrow> int" where
  "read_int s = (if hd s = CHR ''-'' then - int (read_nat (tl s)) else int (read_nat s))"

lemma read_show_int [simp]: "read_int (show_int i) = i"
proof -
  have "hd (show_nat n) \<noteq> CHR ''-''" for n
    using show_nat_digits [of "hd (show_nat n)" n] by (auto simp: in_range_def byte_of_def)
  then show ?thesis by (simp add: read_int_def show_int_def read_show_nat)
qed

lemma show_int_chars:
  "c \<in> set (show_int i) \<Longrightarrow> c = CHR ''-'' \<or> in_range (CHR ''0'') (CHR ''9'') c"
  by (auto simp: show_int_def show_nat_digits split: if_splits)

lemma show_int_plain: "plain (show_int i)"
proof -
  have c: "c \<notin> set (show_int i)" if "c = slash \<or> c = CHR ''.''" for c
    using that show_int_chars [of c i] by (auto simp: in_range_def byte_of_def)
  have "show_int i \<noteq> []" by (simp add: show_int_def)
  with c [of slash] c [of "CHR ''.''"] show ?thesis by (auto simp: plain_def)
qed

end
