(* ===== verification/Digest_Pkg.thy ===== *)
theory Digest_Pkg
  imports Prelude
begin

text \<open>
  The package \<open>github.com/opencontainers/go-digest\<close> is not part of the repository. Its functions are
  the fields of a record that every definition using them takes as an argument. What the repository
  relies on are the predicates below; a theorem names the ones it needs as hypotheses, and
  \<open>sample_pkg\<close> (which keeps the documented syntax \<open>algorithm:hex\<close> with the three registered
  algorithms and their lengths) shows that they can hold together.
\<close>

type_synonym digest = string

datatype digest_error = ErrDigestInvalidFormat | ErrDigestInvalidLength | ErrDigestUnsupported

record digest_pkg =
  dg_parse :: "string \<Rightarrow> digest \<times> digest_error option"
  dg_validate :: "digest \<Rightarrow> digest_error option"
  dg_algorithm :: "digest \<Rightarrow> string"
  dg_hex :: "digest \<Rightarrow> string"
  dg_new_from_hex :: "string \<Rightarrow> string \<Rightarrow> digest"
  dg_from_bytes :: "bytes \<Rightarrow> digest"

text \<open>\<open>Parse\<close> returns the string itself as a digest, together with the error of \<open>Validate\<close>.\<close>

definition parse_validates :: "digest_pkg \<Rightarrow> bool" where
  "parse_validates P \<longleftrightarrow> (\<forall>s. dg_parse P s = (s, dg_validate P s))"

text \<open>A valid digest is its algorithm, a colon and its encoded part.\<close>

definition valid_splits :: "digest_pkg \<Rightarrow> bool" where
  "valid_splits P \<longleftrightarrow>
     (\<forall>d. dg_validate P d = None \<longrightarrow> d = dg_algorithm P d @ '':'' @ dg_hex P d)"

text \<open>
  A valid digest names a registered algorithm, and its encoded part is lower-case hexadecimal of the
  algorithm's length.
\<close>

definition is_lower_hex :: "char \<Rightarrow> bool" where
  "is_lower_hex c \<longleftrightarrow> in_range (CHR ''0'') (CHR ''9'') c \<or> in_range (CHR ''a'') (CHR ''f'') c"

lemma not_hex_colon [simp]: "\<not> is_lower_hex (CHR '':'')"
  by (simp add: is_lower_hex_def in_range_def byte_of_def)

definition registered :: "(string \<times> nat) list" where
  "registered = [(''sha256'', 64), (''sha384'', 96), (''sha512'', 128)]"

definition valid_registered :: "digest_pkg \<Rightarrow> bool" where
  "valid_registered P \<longleftrightarrow>
     (\<forall>d. dg_validate P d = None \<longrightarrow>
        (dg_algorithm P d, length (dg_hex P d)) \<in> set registered \<and> list_all is_lower_hex (dg_hex P d))"

text \<open>A string without a colon has no algorithm and is rejected as badly formed.\<close>

definition colon_required :: "digest_pkg \<Rightarrow> bool" where
  "colon_required P \<longleftrightarrow> (\<forall>s. CHR '':'' \<notin> set s \<longrightarrow> dg_validate P s = Some ErrDigestInvalidFormat)"

text \<open>\<open>NewDigestFromHex\<close> is the inverse of splitting, and \<open>FromBytes\<close> returns valid digests.\<close>

definition from_hex_joins :: "digest_pkg \<Rightarrow> bool" where
  "from_hex_joins P \<longleftrightarrow> (\<forall>a h. dg_new_from_hex P a h = a @ '':'' @ h)"

definition from_bytes_valid :: "digest_pkg \<Rightarrow> bool" where
  "from_bytes_valid P \<longleftrightarrow> (\<forall>b. dg_validate P (dg_from_bytes P b) = None)"

text \<open>The laws the storage package relies on, together.\<close>

definition digest_laws :: "digest_pkg \<Rightarrow> bool" where
  "digest_laws P \<longleftrightarrow> parse_validates P \<and> valid_splits P \<and> valid_registered P \<and> from_hex_joins P \<and>
     from_bytes_valid P"

lemma digest_lawsD:
  assumes "digest_laws P"
  shows "parse_validates P" "valid_splits P" "valid_registered P" "from_hex_joins P" "from_bytes_valid P"
    "dg_validate P (dg_from_bytes P b) = None"
  using assms by (simp_all add: digest_laws_def from_bytes_valid_def)

lemmas digest_pkg_defs = parse_validates_def valid_splits_def valid_registered_def
  from_hex_joins_def from_bytes_valid_def

lemma dg_parse_eq: "parse_validates P \<Longrightarrow> dg_parse P s = (s, dg_validate P s)"
  by (simp add: parse_validates_def)

lemma valid_split_eq:
  "valid_splits P \<Longrightarrow> dg_validate P d = None \<Longrightarrow> dg_algorithm P d @ '':'' @ dg_hex P d = d"
  by (simp add: valid_splits_def)

lemma valid_eqI:
  assumes "valid_splits P" "dg_validate P d = None" "dg_validate P e = None"
    and "dg_algorithm P d = dg_algorithm P e" "dg_hex P d = dg_hex P e"
  shows "d = e"
proof -
  have "d = dg_algorithm P d @ '':'' @ dg_hex P d"
    using valid_split_eq [OF assms(1,2)] by (rule sym)
  also have "\<dots> = dg_algorithm P e @ '':'' @ dg_hex P e"
    using assms(4,5) by simp
  also have "\<dots> = e"
    using valid_split_eq [OF assms(1,3)] .
  finally show ?thesis .
qed

section \<open>A concrete package\<close>

definition sample_algorithm :: "digest \<Rightarrow> string" where
  "sample_algorithm d = takeWhile (\<lambda>c. c \<noteq> CHR '':'') d"

definition sample_hex :: "digest \<Rightarrow> string" where
  "sample_hex d = drop 1 (dropWhile (\<lambda>c. c \<noteq> CHR '':'') d)"

definition sample_validate :: "digest \<Rightarrow> digest_error option" where
  "sample_validate d =
     (if CHR '':'' \<notin> set d then Some ErrDigestInvalidFormat
      else case map_of registered (sample_algorithm d) of
        None \<Rightarrow> Some ErrDigestUnsupported
      | Some n \<Rightarrow>
          (if length (sample_hex d) \<noteq> n then Some ErrDigestInvalidLength
           else if list_all is_lower_hex (sample_hex d) then None
           else Some ErrDigestInvalidFormat))"

text \<open>The \<open>FromBytes\<close> of the sample is the content's length in unary, padded to 64 digits.\<close>

definition sample_from_bytes :: "bytes \<Rightarrow> digest" where
  "sample_from_bytes b =
     ''sha256:'' @ replicate (length b mod 65) (CHR ''1'') @ replicate (64 - length b mod 65) (CHR ''0'')"

definition sample_pkg :: digest_pkg where
  "sample_pkg = \<lparr>dg_parse = (\<lambda>s. (s, sample_validate s)), dg_validate = sample_validate,
     dg_algorithm = sample_algorithm, dg_hex = sample_hex,
     dg_new_from_hex = (\<lambda>a h. a @ '':'' @ h), dg_from_bytes = sample_from_bytes\<rparr>"

lemma sample_split: "CHR '':'' \<in> set d \<Longrightarrow> sample_algorithm d @ '':'' @ sample_hex d = d"
  by (induction d) (auto simp: sample_algorithm_def sample_hex_def)

lemma sample_parse_validates [simp]: "parse_validates sample_pkg"
  by (simp add: parse_validates_def sample_pkg_def)

lemma sample_valid_splits [simp]: "valid_splits sample_pkg"
  unfolding valid_splits_def
proof (intro allI impI)
  fix d assume "dg_validate sample_pkg d = None"
  then have "CHR '':'' \<in> set d"
    by (auto simp: sample_pkg_def sample_validate_def split: if_splits)
  then show "d = dg_algorithm sample_pkg d @ '':'' @ dg_hex sample_pkg d"
    using sample_split [of d] by (simp add: sample_pkg_def)
qed

lemma sample_valid_registered [simp]: "valid_registered sample_pkg"
  by (auto simp: valid_registered_def sample_pkg_def sample_validate_def dest!: map_of_SomeD
      split: if_splits option.splits)

lemma sample_colon_required [simp]: "colon_required sample_pkg"
  by (simp add: colon_required_def sample_pkg_def sample_validate_def)

lemma sample_from_hex_joins [simp]: "from_hex_joins sample_pkg"
  by (simp add: from_hex_joins_def sample_pkg_def)

lemma sample_from_bytes_valid [simp]: "from_bytes_valid sample_pkg"
proof -
  have "length b mod 65 \<le> 64" for b :: bytes
    using mod_less_divisor [of 65 "length b"] by simp
  then show ?thesis
    by (auto simp: from_bytes_valid_def sample_pkg_def sample_validate_def sample_from_bytes_def
        sample_algorithm_def sample_hex_def registered_def is_lower_hex_def in_range_def byte_of_def
        list_all_iff)
qed

lemma sample_digest_laws [simp]: "digest_laws sample_pkg"
  by (simp add: digest_laws_def)

end
