(* ===== verification/Digestset.thy ===== *)
theory Digestset
  imports Digest_Pkg
begin

text \<open>
  Package \<open>digestset\<close> (\<open>src/digestset/set.go\<close>): a set of digests kept as a slice sorted by
  encoded value and algorithm, searched by binary search, with lookup by abbreviation. The state of a
  \<open>Set\<close> is its slice of entries; the mutex only serialises the operations and is not part of it.
\<close>

section \<open>Definitions\<close>

record digestEntry =
  ent_alg :: string
  ent_val :: string
  ent_digest :: digest

type_synonym digestEntries = "digestEntry list"

datatype lookup_error = ErrDigestNotFound | ErrDigestAmbiguous

definition NewSet :: digestEntries where
  "NewSet = []"

definition Less :: "digestEntry \<Rightarrow> digestEntry \<Rightarrow> bool" where
  "Less a b = (if ent_val a \<noteq> ent_val b then ent_val a < ent_val b else ent_alg a < ent_alg b)"

definition checkShortMatch :: "string \<Rightarrow> string \<Rightarrow> string \<Rightarrow> string \<Rightarrow> bool" where
  "checkShortMatch al hex shortAlg shortHex =
     (if length hex = length shortHex then
        (if hex \<noteq> shortHex then False
         else if length shortAlg > 0 \<and> al \<noteq> shortAlg then False
         else True)
      else if \<not> has_prefix hex shortHex then False
      else if length shortAlg > 0 \<and> al \<noteq> shortAlg then False
      else True)"

text \<open>\<open>sort.Search\<close> of Go's library: the binary search over \<open>[i, j)\<close>.\<close>

function sort_search :: "(nat \<Rightarrow> bool) \<Rightarrow> nat \<Rightarrow> nat \<Rightarrow> nat" where
  "sort_search f i j =
     (if i < j then
        (let h = (i + j) div 2 in if \<not> f h then sort_search f (h + 1) j else sort_search f i h)
      else i)"
  by pat_completeness auto
termination
  by (relation "measure (\<lambda>(f, i, j). j - i)") auto

declare sort_search.simps [simp del]

text \<open>The predicates \<open>searchFunc\<close> that \<open>Lookup\<close>, \<open>Add\<close> and \<open>Remove\<close> pass to the search.\<close>

definition val_from :: "string \<Rightarrow> digestEntry \<Rightarrow> bool" where
  "val_from d e \<longleftrightarrow> ent_val e \<ge> d"

definition entry_from :: "string \<Rightarrow> string \<Rightarrow> digestEntry \<Rightarrow> bool" where
  "entry_from al hex e = (if ent_val e = hex then ent_alg e \<ge> al else ent_val e \<ge> hex)"

definition search_entries :: "(digestEntry \<Rightarrow> bool) \<Rightarrow> digestEntries \<Rightarrow> nat" where
  "search_entries q es = sort_search (\<lambda>i. q (es ! i)) 0 (length es)"

definition Set_Lookup :: "digest_pkg \<Rightarrow> digestEntries \<Rightarrow> string \<Rightarrow> lookup_error + digest" where
  "Set_Lookup P es d =
     (if length es = 0 then Inl ErrDigestNotFound
      else
        let (dg, err) = dg_parse P d;
            (al, hex, searchFunc) =
              (if err = Some ErrDigestInvalidFormat then ([], d, val_from d)
               else (dg_algorithm P dg, dg_hex P dg, entry_from (dg_algorithm P dg) (dg_hex P dg)));
            idx = search_entries searchFunc es
        in if idx = length es \<or> \<not> checkShortMatch (ent_alg (es ! idx)) (ent_val (es ! idx)) al hex
           then Inl ErrDigestNotFound
           else if ent_alg (es ! idx) = al \<and> ent_val (es ! idx) = hex then Inr (ent_digest (es ! idx))
           else if idx + 1 < length es
             \<and> checkShortMatch (ent_alg (es ! (idx + 1))) (ent_val (es ! (idx + 1))) al hex
           then Inl ErrDigestAmbiguous
           else Inr (ent_digest (es ! idx)))"

definition mk_entry :: "digest_pkg \<Rightarrow> digest \<Rightarrow> digestEntry" where
  "mk_entry P d = \<lparr>ent_alg = dg_algorithm P d, ent_val = dg_hex P d, ent_digest = d\<rparr>"

definition Set_Add :: "digest_pkg \<Rightarrow> digest \<Rightarrow> digestEntries \<Rightarrow> digest_error option \<times> digestEntries" where
  "Set_Add P d es =
     (case dg_validate P d of
        Some err \<Rightarrow> (Some err, es)
      | None \<Rightarrow>
          let entry = mk_entry P d;
              idx = search_entries (entry_from (ent_alg entry) (ent_val entry)) es
          in if idx = length es then (None, es @ [entry])
             else if ent_digest (es ! idx) = d then (None, es)
             else (None, take idx es @ [entry] @ drop idx es))"

definition Set_Remove :: "digest_pkg \<Rightarrow> digest \<Rightarrow> digestEntries \<Rightarrow> digest_error option \<times> digestEntries" where
  "Set_Remove P d es =
     (case dg_validate P d of
        Some err \<Rightarrow> (Some err, es)
      | None \<Rightarrow>
          let entry = mk_entry P d;
              idx = search_entries (entry_from (ent_alg entry) (ent_val entry)) es
          in if idx = length es \<or> ent_digest (es ! idx) \<noteq> d then (None, es)
             else (None, take idx es @ drop (idx + 1) es))"

definition Set_All :: "digestEntries \<Rightarrow> digest list" where
  "Set_All es = map ent_digest es"

text \<open>
  \<open>ShortCodeTable\<close>. \<open>scan_matches\<close> is the loop over \<open>j\<close> (it returns the new \<open>resetIdx\<close> and whether the
  code was found on a later entry), \<open>extend_code\<close> the loop on \<open>extended\<close>, \<open>short_codes\<close> the loop over
  \<open>i\<close>. Go slices \<open>val[:l]\<close>, so a negative minimum length panics as soon as there is an entry.
\<close>

fun scan_matches :: "digestEntries \<Rightarrow> nat \<Rightarrow> string \<Rightarrow> nat \<Rightarrow> bool \<Rightarrow> nat \<times> bool" where
  "scan_matches [] j short resetIdx extended = (resetIdx, extended)"
| "scan_matches (e # es) j short resetIdx extended =
     (if checkShortMatch (ent_alg e) (ent_val e) [] short
      then scan_matches es (j + 1) short (if j > resetIdx then j else resetIdx) True
      else (resetIdx, extended))"

function extend_code ::
    "digestEntry \<Rightarrow> digestEntries \<Rightarrow> nat \<Rightarrow> nat \<Rightarrow> nat \<Rightarrow> string \<times> nat \<times> nat" where
  "extend_code e later i l resetIdx =
     (if length (ent_val e) \<le> l then (ent_digest e, l, resetIdx)
      else
        let short = take l (ent_val e);
            (resetIdx', extended) = scan_matches later (i + 1) short resetIdx False
        in if extended then extend_code e later i (l + 1) resetIdx' else (short, l, resetIdx'))"
  by pat_completeness auto
termination
  by (relation "measure (\<lambda>(e, later, i, l, r). length (ent_val e) - l)") auto

declare extend_code.simps [simp del]

fun short_codes ::
    "digestEntries \<Rightarrow> nat \<Rightarrow> nat \<Rightarrow> nat \<Rightarrow> nat \<Rightarrow> (digest \<rightharpoonup> string) \<Rightarrow> (digest \<rightharpoonup> string)" where
  "short_codes [] i len l resetIdx m = m"
| "short_codes (e # later) i len l resetIdx m =
     (let (short, l', resetIdx') = extend_code e later i l resetIdx
      in short_codes later (i + 1) len (if i \<ge> resetIdx' then len else l') resetIdx'
           (m(ent_digest e \<mapsto> short)))"

definition ShortCodeTable :: "digestEntries \<Rightarrow> int \<Rightarrow> (digest \<rightharpoonup> string) option" where
  "ShortCodeTable es len =
     (if len < 0 \<and> es \<noteq> [] then None
      else Some (short_codes es 0 (nat len) (nat len) 0 Map.empty))"

section \<open>Binary search\<close>

lemma sort_search_spec:
  assumes "i \<le> n" "\<forall>k l. k \<le> l \<longrightarrow> l < n \<longrightarrow> f k \<longrightarrow> f l"
  shows "sort_search f i n \<le> n \<and> i \<le> sort_search f i n
    \<and> (\<forall>k. i \<le> k \<longrightarrow> k < sort_search f i n \<longrightarrow> \<not> f k)
    \<and> (\<forall>k. sort_search f i n \<le> k \<longrightarrow> k < n \<longrightarrow> f k)"
  using assms
proof (induction f i n rule: sort_search.induct)
  case (1 f i j)
  show ?case
  proof (cases "i < j")
    case False
    with "1.prems" show ?thesis by (subst (1 2 3 4) sort_search.simps) auto
  next
    case True
    define h where "h = (i + j) div 2"
    have h: "i \<le> h" "h < j" using True by (auto simp: h_def)
    show ?thesis
    proof (cases "f h")
      case False
      have eq: "sort_search f i j = sort_search f (h + 1) j"
        using True False by (subst sort_search.simps) (simp add: h_def)
      have below: "\<not> f k" if "k \<le> h" for k
        using that False h "1.prems"(2) by blast
      note IH = "1.IH"(1) [OF True h_def, OF False]
      have "sort_search f (h + 1) j \<le> j \<and> h + 1 \<le> sort_search f (h + 1) j
        \<and> (\<forall>k. h + 1 \<le> k \<longrightarrow> k < sort_search f (h + 1) j \<longrightarrow> \<not> f k)
        \<and> (\<forall>k. sort_search f (h + 1) j \<le> k \<longrightarrow> k < j \<longrightarrow> f k)"
        using IH "1.prems"(2) h by auto
      then show ?thesis
        using eq below h by (metis (no_types, lifting) Suc_eq_plus1 le_trans not_less_eq_eq Suc_leD)
    next
      case fh: True
      have eq: "sort_search f i j = sort_search f i h"
        using True fh by (subst sort_search.simps) (simp add: h_def)
      have above: "f k" if "h \<le> k" "k < j" for k
        using that fh "1.prems"(2) by blast
      note IH = "1.IH"(2) [OF True h_def]
      have "sort_search f i h \<le> h \<and> i \<le> sort_search f i h
        \<and> (\<forall>k. i \<le> k \<longrightarrow> k < sort_search f i h \<longrightarrow> \<not> f k)
        \<and> (\<forall>k. sort_search f i h \<le> k \<longrightarrow> k < h \<longrightarrow> f k)"
        using IH "1.prems"(2) fh h by auto
      then show ?thesis
        using eq above h by (metis le_trans less_imp_le_nat not_le_imp_less)
    qed
  qed
qed

lemmas sort_search_le = sort_search_spec [THEN conjunct1]

lemma sort_search_parts:
  assumes "i \<le> n" "\<forall>k l. k \<le> l \<longrightarrow> l < n \<longrightarrow> f k \<longrightarrow> f l"
  shows sort_search_below: "i \<le> k \<Longrightarrow> k < sort_search f i n \<Longrightarrow> \<not> f k"
    and sort_search_above: "sort_search f i n \<le> k \<Longrightarrow> k < n \<Longrightarrow> f k"
  using sort_search_spec [OF assms] by blast+

text \<open>On a list along which the predicate is monotone, the search splits the list at its first hit.\<close>

lemma search_entries_takeWhile:
  assumes "sorted_wrt (\<lambda>a b. q a \<longrightarrow> q b) es"
  shows "search_entries q es = length (takeWhile (\<lambda>e. \<not> q e) es)"
proof -
  let ?f = "\<lambda>i. q (es ! i)" and ?t = "takeWhile (\<lambda>e. \<not> q e) es"
  let ?k = "sort_search ?f 0 (length es)"
  have mono: "\<forall>a b. a \<le> b \<longrightarrow> b < length es \<longrightarrow> ?f a \<longrightarrow> ?f b"
    using assms by (metis le_neq_implies_less sorted_wrt_iff_nth_less)
  have k: "?k \<le> length es"
    by (rule sort_search_le [OF le0 mono])
  have below: "\<not> ?f i" if "i < ?k" for i
    by (rule sort_search_below [OF le0 mono le0 that])
  have above: "?f i" if "?k \<le> i" "i < length es" for i
    by (rule sort_search_above [OF le0 mono that])
  have t: "length ?t \<le> length es" by (rule length_takeWhile_le)
  have first: "\<not> ?f i" if "i < length ?t" for i
    using that nth_mem [of i ?t] by (auto simp: takeWhile_nth dest: set_takeWhileD)
  have hit: "?f (length ?t)" if "length ?t < length es"
    using nth_length_takeWhile [OF that] by simp
  have "\<not> ?k < length ?t" using above first t by (meson dual_order.strict_trans1 le_refl)
  moreover have "\<not> length ?t < ?k" using below hit k by (meson less_le_trans)
  ultimately have "?k = length ?t" by simp
  then show ?thesis by (simp add: search_entries_def)
qed

section \<open>The invariant and the abstract set\<close>

definition entry_ok :: "digest_pkg \<Rightarrow> digestEntry \<Rightarrow> bool" where
  "entry_ok P e \<longleftrightarrow> dg_validate P (ent_digest e) = None \<and> e = mk_entry P (ent_digest e)"

definition set_inv :: "digest_pkg \<Rightarrow> digestEntries \<Rightarrow> bool" where
  "set_inv P es \<longleftrightarrow> sorted_wrt Less es \<and> list_all (entry_ok P) es"

lemma mk_entry_sel [simp]:
  "ent_alg (mk_entry P d) = dg_algorithm P d" "ent_val (mk_entry P d) = dg_hex P d"
  "ent_digest (mk_entry P d) = d"
  by (simp_all add: mk_entry_def)

lemma entry_okD:
  assumes "entry_ok P e"
  shows "ent_alg e = dg_algorithm P (ent_digest e)" "ent_val e = dg_hex P (ent_digest e)"
    "dg_validate P (ent_digest e) = None"
  using assms by (metis entry_ok_def mk_entry_sel)+

lemma entry_ok_mk: "dg_validate P d = None \<Longrightarrow> entry_ok P (mk_entry P d)"
  by (simp add: entry_ok_def)

lemma set_invD:
  assumes "set_inv P es"
  shows "sorted_wrt Less es" "\<And>e. e \<in> set es \<Longrightarrow> entry_ok P e"
  using assms by (auto simp: set_inv_def list_all_iff)

lemma set_inv_append:
  "set_inv P (xs @ ys) \<longleftrightarrow> set_inv P xs \<and> set_inv P ys \<and> (\<forall>x\<in>set xs. \<forall>y\<in>set ys. Less x y)"
  by (auto simp: set_inv_def sorted_wrt_append)

lemma set_inv_Cons:
  "set_inv P (x # ys) \<longleftrightarrow> entry_ok P x \<and> set_inv P ys \<and> (\<forall>y\<in>set ys. Less x y)"
  by (auto simp: set_inv_def)

lemma set_inv_Nil [simp]: "set_inv P []"
  by (simp add: set_inv_def)

lemma Less_irrefl [simp]: "\<not> Less a a"
  by (simp add: Less_def)

lemma Less_trans: "Less a b \<Longrightarrow> Less b c \<Longrightarrow> Less a c"
  by (auto simp: Less_def split: if_splits)

text \<open>The search predicates are the complement of \<open>Less\<close>, so they are monotone along the slice.\<close>

lemma entry_from_Less: "entry_from (ent_alg k) (ent_val k) e \<longleftrightarrow> \<not> Less e k"
  by (auto simp: entry_from_def Less_def)

lemma entry_from_mono: "Less a b \<Longrightarrow> entry_from al hex a \<Longrightarrow> entry_from al hex b"
  by (auto simp: entry_from_def Less_def split: if_splits)

lemma val_from_mono: "Less a b \<Longrightarrow> val_from d a \<Longrightarrow> val_from d b"
  by (auto simp: val_from_def Less_def split: if_splits)

lemma sorted_wrt_hd_all: "sorted_wrt (\<lambda>a b. q a \<longrightarrow> q b) ys \<Longrightarrow> (ys \<noteq> [] \<Longrightarrow> q (hd ys)) \<Longrightarrow> \<forall>y\<in>set ys. q y"
  by (cases ys) auto

lemma search_split:
  assumes "set_inv P es" and "\<And>a b. Less a b \<Longrightarrow> q a \<Longrightarrow> q b"
  obtains xs ys where "es = xs @ ys" "search_entries q es = length xs"
    "\<forall>x\<in>set xs. \<not> q x" "\<forall>y\<in>set ys. q y"
proof
  let ?xs = "takeWhile (\<lambda>e. \<not> q e) es" and ?ys = "dropWhile (\<lambda>e. \<not> q e) es"
  have mono: "sorted_wrt (\<lambda>a b. q a \<longrightarrow> q b) es"
    using set_invD(1) [OF assms(1)] assms(2) by (auto elim: sorted_wrt_mono_rel [rotated])
  show "es = ?xs @ ?ys" by simp
  show "search_entries q es = length ?xs"
    using mono by (rule search_entries_takeWhile)
  show "\<forall>x\<in>set ?xs. \<not> q x" by (auto dest: set_takeWhileD)
  have "sorted_wrt (\<lambda>a b. q a \<longrightarrow> q b) ?ys"
    using mono by (metis sorted_wrt_append takeWhile_dropWhile_id)
  moreover have "?ys \<noteq> [] \<Longrightarrow> q (hd ?ys)"
    using hd_dropWhile [of "\<lambda>e. \<not> q e" es] by auto
  ultimately show "\<forall>y\<in>set ?ys. q y"
    by (rule sorted_wrt_hd_all)
qed

lemmas entry_search = search_split [where q = "entry_from (ent_alg k) (ent_val k)" for k,
    OF _ entry_from_mono]

text \<open>Two entries of one digest package that are incomparable under \<open>Less\<close> are the same digest.\<close>

lemma not_Less_eq:
  assumes "valid_splits P" "entry_ok P a" "entry_ok P b" "\<not> Less a b" "\<not> Less b a"
  shows "a = b"
proof -
  have "ent_val a = ent_val b" "ent_alg a = ent_alg b"
    using assms(4,5) by (auto simp: Less_def split: if_splits)
  then have "ent_digest a = ent_digest b"
    using assms(1-3) by (metis entry_okD valid_eqI)
  then show ?thesis
    using assms(2,3) by (metis entry_ok_def)
qed

lemma Add_valid:
  assumes "valid_splits P" "set_inv P es" "dg_validate P d = None"
  shows "fst (Set_Add P d es) = None \<and> set_inv P (snd (Set_Add P d es))
    \<and> set (snd (Set_Add P d es)) = insert (mk_entry P d) (set es)"
proof -
  let ?e = "mk_entry P d"
  obtain xs ys where es: "es = xs @ ys" and
    idx: "search_entries (entry_from (ent_alg ?e) (ent_val ?e)) es = length xs" and
    xs: "\<forall>x\<in>set xs. \<not> entry_from (ent_alg ?e) (ent_val ?e) x" and
    ys: "\<forall>y\<in>set ys. entry_from (ent_alg ?e) (ent_val ?e) y"
    by (rule entry_search [OF assms(2), where k = ?e])
  have xs': "\<forall>x\<in>set xs. Less x ?e" and ys': "\<forall>y\<in>set ys. \<not> Less y ?e"
    using xs ys unfolding entry_from_Less by simp_all
  have ok: "entry_ok P ?e"
    using assms(3) by (rule entry_ok_mk)
  show ?thesis
  proof (cases ys)
    case Nil
    then show ?thesis
      using assms(2,3) es idx xs' ok
      by (auto simp: Set_Add_def Let_def set_inv_append set_inv_Cons)
  next
    case (Cons y ys2)
    have y_ok: "entry_ok P y" using assms(2) es Cons by (simp add: set_inv_append set_inv_Cons)
    show ?thesis
    proof (cases "ent_digest y = d")
      case True
      then have "y = ?e" using y_ok by (simp add: entry_ok_def)
      then show ?thesis
        using assms es idx Cons True by (auto simp: Set_Add_def Let_def nth_append)
    next
      case False
      then have "y \<noteq> ?e" by auto
      then have "Less ?e y"
        using not_Less_eq [OF assms(1) y_ok ok] ys' Cons by auto
      moreover have "\<forall>z\<in>set ys2. Less y z"
        using assms(2) es Cons by (simp add: set_inv_append set_inv_Cons)
      ultimately have "\<forall>z\<in>set ys. Less ?e z"
        using Cons by (metis Less_trans set_ConsD)
      then show ?thesis
        using assms es idx Cons False xs' ok
        by (auto simp: Set_Add_def Let_def nth_append set_inv_append set_inv_Cons)
    qed
  qed
qed

lemma Remove_valid:
  assumes "valid_splits P" "set_inv P es" "dg_validate P d = None"
  shows "fst (Set_Remove P d es) = None \<and> set_inv P (snd (Set_Remove P d es))
    \<and> set (snd (Set_Remove P d es)) = set es - {mk_entry P d}"
proof -
  let ?e = "mk_entry P d"
  obtain xs ys where es: "es = xs @ ys" and
    idx: "search_entries (entry_from (ent_alg ?e) (ent_val ?e)) es = length xs" and
    xs: "\<forall>x\<in>set xs. \<not> entry_from (ent_alg ?e) (ent_val ?e) x" and
    ys: "\<forall>y\<in>set ys. entry_from (ent_alg ?e) (ent_val ?e) y"
    by (rule entry_search [OF assms(2), where k = ?e])
  have xs': "\<forall>x\<in>set xs. Less x ?e" and ys': "\<forall>y\<in>set ys. \<not> Less y ?e"
    using xs ys unfolding entry_from_Less by simp_all
  have ok: "entry_ok P ?e"
    using assms(3) by (rule entry_ok_mk)
  have notin: "?e \<notin> set xs" using xs' by auto
  show ?thesis
  proof (cases ys)
    case Nil
    then show ?thesis
      using assms(2,3) es idx notin by (auto simp: Set_Remove_def Let_def)
  next
    case (Cons y ys2)
    have y_ok: "entry_ok P y" and rest: "\<forall>z\<in>set ys2. Less y z" and inv2: "set_inv P (xs @ ys2)"
      using assms(2) es Cons by (auto simp: set_inv_append set_inv_Cons)
    show ?thesis
    proof (cases "ent_digest y = d")
      case True
      then have "y = ?e" using y_ok by (simp add: entry_ok_def)
      then show ?thesis
        using assms es idx Cons True inv2 notin rest
        by (auto simp: Set_Remove_def Let_def nth_append)
    next
      case False
      then have "y \<noteq> ?e" by auto
      then have "Less ?e y"
        using not_Less_eq [OF assms(1) y_ok ok] ys' Cons by auto
      then have "?e \<notin> set ys"
        using Cons rest Less_trans Less_irrefl by (metis set_ConsD)
      then show ?thesis
        using assms es idx Cons False notin
        by (auto simp: Set_Remove_def Let_def nth_append)
    qed
  qed
qed

section \<open>Lookup\<close>

lemma has_prefix_iff: "has_prefix s p \<longleftrightarrow> (\<exists>r. s = p @ r)"
  by (metis append_eq_conv_conj append_take_drop_id has_prefix_def)

lemma le_append: "(p :: string) \<le> p @ r"
  by (induction p) auto

text \<open>In byte order, the strings with a given prefix form an interval that starts at the prefix.\<close>

lemma prefix_interval: "p \<le> x \<Longrightarrow> x \<le> y \<Longrightarrow> has_prefix y p \<Longrightarrow> has_prefix x (p :: string)"
proof (induction p arbitrary: x y)
  case Nil
  then show ?case by (simp add: has_prefix_def)
next
  case (Cons c p)
  obtain y' where y: "y = c # y'" "has_prefix y' p"
    using Cons.prems(3) by (cases y) (auto simp: has_prefix_def)
  obtain d x' where x: "x = d # x'"
    using Cons.prems(1) by (cases x) auto
  have "d = c" "p \<le> x'" "x' \<le> y'"
    using Cons.prems(1,2) x y by (auto simp: less_le)
  then show ?case
    using Cons.IH [of x' y'] x y by (simp add: has_prefix_def)
qed

text \<open>
  Under equal lengths a prefix is the whole value, so \<open>checkShortMatch\<close> is the prefix test together with
  the algorithm test.
\<close>

lemma checkShortMatch_iff:
  "checkShortMatch al hex shortAlg shortHex \<longleftrightarrow> has_prefix hex shortHex \<and> (shortAlg = [] \<or> al = shortAlg)"
  by (auto simp: checkShortMatch_def has_prefix_def)

lemma checkShortMatch_prefix [simp]: "checkShortMatch al hex [] shortHex = has_prefix hex shortHex"
  by (simp add: checkShortMatch_iff)

definition matching :: "digestEntries \<Rightarrow> string \<Rightarrow> digestEntries" where
  "matching es h = filter (\<lambda>e. has_prefix (ent_val e) h) es"

lemma matching_none:
  "\<forall>x\<in>set xs. \<not> h \<le> ent_val x \<Longrightarrow> matching xs h = []"
  by (auto simp: matching_def filter_empty_conv has_prefix_iff le_append)

lemma matching_from:
  assumes "set_inv P ys" "\<forall>y\<in>set ys. h \<le> ent_val y"
  shows "matching ys h = takeWhile (\<lambda>e. has_prefix (ent_val e) h) ys"
  using assms
proof (induction ys)
  case Nil
  then show ?case by (simp add: matching_def)
next
  case (Cons y ys)
  have IH: "matching ys h = takeWhile (\<lambda>e. has_prefix (ent_val e) h) ys"
    using Cons by (simp add: set_inv_Cons)
  show ?case
  proof (cases "has_prefix (ent_val y) h")
    case True
    then show ?thesis using IH by (simp add: matching_def)
  next
    case False
    have "\<not> has_prefix (ent_val z) h" if "z \<in> set ys" for z
    proof
      assume pz: "has_prefix (ent_val z) h"
      have "ent_val y \<le> ent_val z"
        using Cons.prems(1) that by (auto simp: set_inv_Cons Less_def split: if_splits)
      then have "has_prefix (ent_val y) h"
        using prefix_interval [OF _ _ pz] Cons.prems(2) by simp
      with False show False by contradiction
    qed
    then show ?thesis using False by (simp add: matching_def filter_empty_conv)
  qed
qed

lemma registered_nonempty:
  assumes "valid_registered P" "dg_validate P d = None"
  shows "dg_algorithm P d \<noteq> []"
proof -
  have "(dg_algorithm P d, length (dg_hex P d)) \<in> set registered"
    using assms by (simp add: valid_registered_def)
  then show ?thesis by (auto simp: registered_def)
qed

lemma registered_length:
  assumes "valid_registered P" "dg_validate P d = None" "dg_validate P e = None"
    and "dg_algorithm P d = dg_algorithm P e"
  shows "length (dg_hex P d) = length (dg_hex P e)"
proof -
  have "(dg_algorithm P x, length (dg_hex P x)) \<in> set registered" if "dg_validate P x = None" for x
    using assms(1) that by (simp add: valid_registered_def)
  from this [OF assms(2)] this [OF assms(3)] show ?thesis
    using assms(4) by (auto simp: registered_def)
qed

lemma matching_append: "matching (xs @ ys) h = matching xs h @ matching ys h"
  by (simp add: matching_def)

lemma Lookup_short:
  assumes "valid_registered P" "set_inv P es" "snd (dg_parse P h) = Some ErrDigestInvalidFormat"
  shows "Set_Lookup P es h =
    (case matching es h of [] \<Rightarrow> Inl ErrDigestNotFound | [e] \<Rightarrow> Inr (ent_digest e)
     | _ # _ # _ \<Rightarrow> Inl ErrDigestAmbiguous)"
proof -
  obtain dg where parse: "dg_parse P h = (dg, Some ErrDigestInvalidFormat)"
    using assms(3) by (metis prod.collapse)
  obtain xs ys where es: "es = xs @ ys" and idx: "search_entries (val_from h) es = length xs"
    and xs: "\<forall>x\<in>set xs. \<not> val_from h x" and ys: "\<forall>y\<in>set ys. val_from h y"
    by (rule search_split [OF assms(2), of "val_from h", OF val_from_mono])
  have inv: "set_inv P ys" using assms(2) es by (simp add: set_inv_append)
  have m: "matching es h = takeWhile (\<lambda>e. has_prefix (ent_val e) h) ys"
    using matching_none [of xs h] matching_from [OF inv, of h] xs ys es
    by (simp add: val_from_def matching_append)
  show ?thesis
  proof (cases ys)
    case Nil
    then show ?thesis using es idx m parse by (simp add: Set_Lookup_def)
  next
    case (Cons y zs)
    have "ent_alg y \<noteq> []"
      using inv Cons assms(1) registered_nonempty by (simp add: set_inv_Cons) (metis entry_okD(1,3))
    then show ?thesis
      using es idx m parse Cons
      by (cases zs) (auto simp: Set_Lookup_def nth_append)
  qed
qed

lemma Lookup_full:
  assumes "parse_validates P" "valid_splits P" "valid_registered P" "set_inv P es"
    and "dg_validate P d = None"
  shows "Set_Lookup P es d = (if mk_entry P d \<in> set es then Inr d else Inl ErrDigestNotFound)"
proof -
  let ?e = "mk_entry P d"
  have parse: "dg_parse P d = (d, None)"
    using assms(1,5) by (simp add: dg_parse_eq)
  have ok: "entry_ok P ?e" using assms(5) by (rule entry_ok_mk)
  obtain xs ys where es: "es = xs @ ys" and
    idx: "search_entries (entry_from (ent_alg ?e) (ent_val ?e)) es = length xs" and
    xs: "\<forall>x\<in>set xs. \<not> entry_from (ent_alg ?e) (ent_val ?e) x" and
    ys: "\<forall>y\<in>set ys. entry_from (ent_alg ?e) (ent_val ?e) y"
    by (rule entry_search [OF assms(4), where k = ?e])
  have xs': "\<forall>x\<in>set xs. Less x ?e" and ys': "\<forall>y\<in>set ys. \<not> Less y ?e"
    using xs ys unfolding entry_from_Less by simp_all
  then have notin: "?e \<notin> set xs" by auto
  show ?thesis
  proof (cases ys)
    case Nil
    then show ?thesis using es idx notin parse by (auto simp: Set_Lookup_def)
  next
    case (Cons y zs)
    have y_ok: "entry_ok P y" and rest: "\<forall>z\<in>set zs. Less y z"
      using assms(4) es Cons by (auto simp: set_inv_append set_inv_Cons)
    show ?thesis
    proof (cases "y = ?e")
      case True
      then show ?thesis
        using es idx Cons parse by (simp add: Set_Lookup_def checkShortMatch_iff has_prefix_def nth_append)
    next
      case False
      have "?e \<notin> set zs" using rest ys' Cons by auto
      moreover have "\<not> checkShortMatch (ent_alg y) (ent_val y) (dg_algorithm P d) (dg_hex P d)"
      proof
        assume match: "checkShortMatch (ent_alg y) (ent_val y) (dg_algorithm P d) (dg_hex P d)"
        then have al: "ent_alg y = dg_algorithm P d" and pre: "has_prefix (ent_val y) (dg_hex P d)"
          using registered_nonempty [OF assms(3,5)] by (simp_all add: checkShortMatch_iff)
        have "length (ent_val y) = length (dg_hex P d)"
          using registered_length [OF assms(3) entry_okD(3) [OF y_ok] assms(5)] al entry_okD [OF y_ok] by simp
        then have "ent_val y = dg_hex P d" using pre by (simp add: has_prefix_def)
        then have "y = ?e"
          using not_Less_eq [OF assms(2) y_ok ok] al by (simp add: Less_def)
        with False show False by contradiction
      qed
      ultimately show ?thesis
        using es idx Cons parse notin False by (simp add: Set_Lookup_def nth_append)
    qed
  qed
qed

section \<open>Short codes\<close>

text \<open>
  The loops of \<open>ShortCodeTable\<close> on a slice \<open>es\<close> whose values have one length \<open>N\<close> and are distinct, which
  is the case for digests of one registered algorithm.
\<close>

definition uniform :: "nat \<Rightarrow> digestEntries \<Rightarrow> bool" where
  "uniform N es \<longleftrightarrow> list_all (\<lambda>e. length (ent_val e) = N) es \<and> distinct (map ent_val es)"

abbreviation (input) nval :: "digestEntries \<Rightarrow> nat \<Rightarrow> string" where
  "nval es j \<equiv> ent_val (es ! j)"

lemma scan_matches_eq:
  "scan_matches es j short r ext =
     (let k = length (takeWhile (\<lambda>e. has_prefix (ent_val e) short) es)
      in (if k = 0 then r else max r (j + k - 1), ext \<or> 0 < k))"
  by (induction es arbitrary: j r ext) (auto simp: Let_def max_def)

lemma nval_distinct:
  "uniform N es \<Longrightarrow> i < length es \<Longrightarrow> j < length es \<Longrightarrow> i \<noteq> j \<Longrightarrow> nval es i \<noteq> nval es j"
  by (simp add: uniform_def distinct_conv_nth)

lemma nval_length: "uniform N es \<Longrightarrow> i < length es \<Longrightarrow> length (nval es i) = N"
  by (simp add: uniform_def list_all_length)

lemma takeWhile_index:
  assumes "takeWhile q xs = filter q xs" "j < length xs"
  shows "q (xs ! j) \<longleftrightarrow> j < length (takeWhile q xs)"
proof
  assume "q (xs ! j)"
  show "j < length (takeWhile q xs)"
  proof (rule ccontr)
    assume nj: "\<not> j < length (takeWhile q xs)"
    have "xs ! j = dropWhile q xs ! (j - length (takeWhile q xs))"
      using nj by (metis nth_append takeWhile_dropWhile_id)
    moreover have "j - length (takeWhile q xs) < length (dropWhile q xs)"
      using nj assms(2) by (metis diff_less_mono dropWhile_eq_drop length_drop linorder_not_less)
    ultimately have "xs ! j \<in> set (dropWhile q xs)" by simp
    then have "filter q (dropWhile q xs) \<noteq> []"
      using \<open>q (xs ! j)\<close> by (auto simp: filter_empty_conv)
    moreover have "filter q xs = takeWhile q xs @ filter q (dropWhile q xs)"
      by (metis filter_append filter_True set_takeWhileD takeWhile_dropWhile_id)
    ultimately show False using assms(1) by simp
  qed
next
  assume "j < length (takeWhile q xs)"
  then show "q (xs ! j)" by (metis nth_mem set_takeWhileD takeWhile_nth)
qed

text \<open>One scan: the entries after \<open>i\<close> that share its first \<open>l\<close> bytes are exactly the next ones.\<close>

lemma scan_after:
  assumes inv: "set_inv P es" and un: "uniform N es" and i: "i < length es" and l: "l < N"
  obtains k where
    "\<And>r. scan_matches (drop (Suc i) es) (i + 1) (take l (nval es i)) r False
       = (if k = 0 then r else max r (i + k), 0 < k)"
    "\<And>j. i < j \<Longrightarrow> j < length es \<Longrightarrow> take l (nval es j) = take l (nval es i) \<longleftrightarrow> j \<le> i + k"
    "i + k < length es"
proof
  let ?later = "drop (Suc i) es" and ?h = "take l (nval es i)"
  let ?q = "\<lambda>e. has_prefix (ent_val e) ?h"
  let ?k = "length (takeWhile ?q ?later)"
  have split: "es = take i es @ es ! i # ?later"
    using i by (rule id_take_nth_drop)
  then have inv2: "set_inv P ?later" and less: "\<forall>y\<in>set ?later. Less (es ! i) y"
    using inv by (metis set_inv_append set_inv_Cons)+
  have "?h \<le> nval es i" by (metis append_take_drop_id le_append)
  then have "\<forall>y\<in>set ?later. ?h \<le> ent_val y"
    using less by (fastforce simp: Less_def split: if_splits)
  then have tw: "takeWhile ?q ?later = filter ?q ?later"
    using matching_from [OF inv2] by (simp add: matching_def)
  show "scan_matches ?later (i + 1) ?h r False = (if ?k = 0 then r else max r (i + ?k), 0 < ?k)" for r
    by (simp add: scan_matches_eq)
  show "take l (nval es j) = ?h \<longleftrightarrow> j \<le> i + ?k" if "i < j" "j < length es" for j
  proof -
    have "?later ! (j - Suc i) = es ! j" using that by simp
    then have "?q (es ! j) \<longleftrightarrow> j - Suc i < ?k"
      using takeWhile_index [OF tw, of "j - Suc i"] that by (simp add: less_diff_conv)
    moreover have "?q (es ! j) \<longleftrightarrow> take l (nval es j) = ?h"
      using l nval_length [OF un i] by (simp add: has_prefix_def)
    ultimately show ?thesis using that(1) by linarith
  qed
  have "?k \<le> length ?later" by (rule length_takeWhile_le)
  then show "i + ?k < length es" using i by simp
qed

lemma take_eq_le: "take m xs = take m ys \<Longrightarrow> n \<le> m \<Longrightarrow> take n xs = take n ys"
  by (metis min_def take_take)

lemma extend_code_spec:
  assumes "set_inv P es" "uniform N es" "i < length es"
    and "extend_code (es ! i) (drop (Suc i) es) i l r = (short, l', r')"
  shows "l \<le> l' \<and> r \<le> r'
    \<and> (\<forall>j. i < j \<and> j < length es \<longrightarrow> take l' (nval es j) \<noteq> take l' (nval es i))
    \<and> (\<forall>j. i < j \<and> j < length es \<and> take l (nval es j) = take l (nval es i) \<longrightarrow> j \<le> r')
    \<and> (\<forall>j. r < j \<and> i < j \<and> j \<le> r' \<longrightarrow> j < length es \<and> take l (nval es j) = take l (nval es i))
    \<and> short = (if N \<le> l' then ent_digest (es ! i) else take l' (nval es i))"
  using assms(4)
proof (induction "N - l" arbitrary: l r)
  case 0
  then have "N \<le> l" by simp
  then have res: "short = ent_digest (es ! i)" "l' = l" "r' = r"
    using "0.prems" nval_length [OF assms(2,3)] by (simp_all add: extend_code.simps)
  have "take l (nval es j) \<noteq> take l (nval es i)" if "i < j" "j < length es" for j
    using that \<open>N \<le> l\<close> nval_distinct [OF assms(2) that(2) assms(3)]
      nval_length [OF assms(2) that(2)] nval_length [OF assms(2,3)] by simp
  then show ?case using res \<open>N \<le> l\<close> by auto
next
  case (Suc n)
  then have l: "l < N" by simp
  obtain k where scan: "\<And>r. scan_matches (drop (Suc i) es) (i + 1) (take l (nval es i)) r False
       = (if k = 0 then r else max r (i + k), 0 < k)"
    and mem: "\<And>j. i < j \<Longrightarrow> j < length es \<Longrightarrow> take l (nval es j) = take l (nval es i) \<longleftrightarrow> j \<le> i + k"
    and k: "i + k < length es"
    using scan_after [OF assms(1-3) l] by blast
  show ?case
  proof (cases "k = 0")
    case True
    then have res: "short = take l (nval es i)" "l' = l" "r' = r"
      using Suc.prems scan l nval_length [OF assms(2,3)] by (auto simp: extend_code.simps)
    then show ?thesis using mem True l by auto
  next
    case False
    define r1 where "r1 = max r (i + k)"
    have rec: "extend_code (es ! i) (drop (Suc i) es) i (l + 1) r1 = (short, l', r')"
      using Suc.prems scan l False nval_length [OF assms(2,3)]
      by (subst (asm) extend_code.simps) (simp add: r1_def)
    have IH: "l + 1 \<le> l' \<and> r1 \<le> r'
      \<and> (\<forall>j. i < j \<and> j < length es \<longrightarrow> take l' (nval es j) \<noteq> take l' (nval es i))
      \<and> (\<forall>j. i < j \<and> j < length es \<and> take (l + 1) (nval es j) = take (l + 1) (nval es i) \<longrightarrow> j \<le> r')
      \<and> (\<forall>j. r1 < j \<and> i < j \<and> j \<le> r' \<longrightarrow> j < length es
          \<and> take (l + 1) (nval es j) = take (l + 1) (nval es i))
      \<and> short = (if N \<le> l' then ent_digest (es ! i) else take l' (nval es i))"
      using Suc.hyps(2) by (intro Suc.hyps(1) [OF _ rec]) simp
    then have ll: "l + 1 \<le> l'" and rr: "r1 \<le> r'"
      and apart: "\<forall>j. i < j \<and> j < length es \<longrightarrow> take l' (nval es j) \<noteq> take l' (nval es i)"
      and sh: "short = (if N \<le> l' then ent_digest (es ! i) else take l' (nval es i))"
      by blast+
    have new: "j < length es \<and> take l (nval es j) = take l (nval es i)"
      if "r < j" "i < j" "j \<le> r'" for j
    proof (cases "r1 < j")
      case True
      then have "j < length es" "take (l + 1) (nval es j) = take (l + 1) (nval es i)"
        using IH that by blast+
      then show ?thesis using take_eq_le [OF _ le_add1] by blast
    next
      case False
      then have "j \<le> i + k" using that(1) by (simp add: r1_def)
      then show ?thesis using mem k that(2) by auto
    qed
    have share: "j \<le> r'" if "i < j" "j < length es" "take l (nval es j) = take l (nval es i)" for j
      using mem [OF that(1,2)] that(3) rr by (simp add: r1_def)
    show ?thesis
    proof (intro conjI)
      show "l \<le> l'" "r \<le> r'" using ll rr by (simp_all add: r1_def)
    qed (use apart sh new share in blast)+
  qed
qed

text \<open>
  The invariant of the loop over \<open>i\<close>: codes of length at least \<open>l\<close> tell the entries from \<open>i\<close> on apart
  from all earlier ones; entries past \<open>resetIdx\<close> differ from all earlier ones within the minimum
  length; and those up to \<open>resetIdx\<close> share the minimum length with an earlier one.
\<close>

definition codes_inv :: "digestEntries \<Rightarrow> nat \<Rightarrow> nat \<Rightarrow> nat \<Rightarrow> nat \<Rightarrow> bool" where
  "codes_inv es len i l r \<longleftrightarrow> len \<le> l
     \<and> (\<forall>b j. b < i \<and> i \<le> j \<and> j < length es \<longrightarrow> take l (nval es b) \<noteq> take l (nval es j))
     \<and> (\<forall>b j. b < i \<and> i \<le> j \<and> r < j \<and> j < length es \<longrightarrow> take len (nval es b) \<noteq> take len (nval es j))
     \<and> (\<forall>j. i \<le> j \<and> 0 < j \<and> j \<le> r \<longrightarrow> (\<exists>b<i. take len (nval es b) = take len (nval es j)))
     \<and> (len < l \<longrightarrow> i \<le> r \<and> 0 < i)"

lemma codes_inv_step:
  assumes inv: "set_inv P es" and un: "uniform N es" and i: "i < length es"
    and ci: "codes_inv es len i l r"
    and ec: "extend_code (es ! i) (drop (Suc i) es) i l r = (short, l', r')"
  shows "codes_inv es len (Suc i) (if i \<ge> r' then len else l') r'"
proof -
  have ll: "l \<le> l'" and rr: "r \<le> r'"
    and apart: "\<And>j. i < j \<Longrightarrow> j < length es \<Longrightarrow> take l' (nval es j) \<noteq> take l' (nval es i)"
    and share: "\<And>j. i < j \<Longrightarrow> j < length es \<Longrightarrow> take l (nval es j) = take l (nval es i) \<Longrightarrow> j \<le> r'"
    and new: "\<And>j. r < j \<Longrightarrow> i < j \<Longrightarrow> j \<le> r' \<Longrightarrow> take l (nval es j) = take l (nval es i)"
    using extend_code_spec [OF inv un i ec] by blast+
  have len: "len \<le> l" and old: "\<And>b j. b < i \<Longrightarrow> i \<le> j \<Longrightarrow> j < length es \<Longrightarrow> take l (nval es b) \<noteq> take l (nval es j)"
    and past: "\<And>b j. b < i \<Longrightarrow> i \<le> j \<Longrightarrow> r < j \<Longrightarrow> j < length es \<Longrightarrow> take len (nval es b) \<noteq> take len (nval es j)"
    and upto: "\<And>j. i \<le> j \<Longrightarrow> 0 < j \<Longrightarrow> j \<le> r \<Longrightarrow> \<exists>b<i. take len (nval es b) = take len (nval es j)"
    and ext: "len < l \<Longrightarrow> i \<le> r \<and> 0 < i"
    using ci unfolding codes_inv_def by blast+
  have past': "take len (nval es b) \<noteq> take len (nval es j)"
    if b: "b < Suc i" and j: "Suc i \<le> j" "r' < j" "j < length es" for b j
  proof (cases "b = i")
    case False
    then show ?thesis using past [of b j] b j rr by simp
  next
    case True
    show ?thesis
    proof (cases "l = len")
      case True
      then show ?thesis using share [of j] j \<open>b = i\<close> by force
    next
      case False
      then have "i \<le> r" "0 < i" using ext len by auto
      then obtain c where "c < i" "take len (nval es c) = take len (nval es i)"
        using upto [of i] by auto
      then show ?thesis using past [of c j] rr j \<open>b = i\<close> by simp
    qed
  qed
  have old': "take l' (nval es b) \<noteq> take l' (nval es j)"
    if b: "b < Suc i" and j: "Suc i \<le> j" "j < length es" for b j
  proof (cases "b = i")
    case False
    then have "take l (nval es b) \<noteq> take l (nval es j)" using old [of b j] b j by auto
    then show ?thesis using ll take_eq_le by blast
  next
    case True
    then show ?thesis using apart [of j] j by force
  qed
  have upto': "\<exists>b<Suc i. take len (nval es b) = take len (nval es j)"
    if j: "Suc i \<le> j" "j \<le> r'" for j
  proof (cases "j \<le> r")
    case True
    then show ?thesis using upto [of j] j by (meson Suc_leD less_SucI less_le_trans zero_less_Suc)
  next
    case False
    then have "take l (nval es j) = take l (nval es i)" using new [of j] j by simp
    then have "take len (nval es j) = take len (nval es i)" using len by (rule take_eq_le)
    then show ?thesis by (metis lessI)
  qed
  show ?thesis
    unfolding codes_inv_def using past' old' upto' le_trans [OF len ll] by (auto simp: not_le)
qed

definition good_code :: "digestEntries \<Rightarrow> nat \<Rightarrow> digestEntry \<Rightarrow> string \<Rightarrow> bool" where
  "good_code es len e code \<longleftrightarrow> code = ent_digest e
     \<or> (\<exists>l\<ge>len. l < length (ent_val e) \<and> code = take l (ent_val e) \<and> matching es code = [e])"

lemma matching_unique:
  assumes un: "uniform N es" and i: "i < length es" and l: "l < N"
    and other: "\<And>j. j < length es \<Longrightarrow> j \<noteq> i \<Longrightarrow> take l (nval es j) \<noteq> take l (nval es i)"
  shows "matching es (take l (nval es i)) = [es ! i]"
proof -
  have split: "es = take i es @ es ! i # drop (Suc i) es" using i by (rule id_take_nth_drop)
  have len: "length (take l (nval es i)) = l" using l nval_length [OF un i] by simp
  have "\<forall>e\<in>set (take i es). \<not> has_prefix (ent_val e) (take l (nval es i))"
    using i other len by (fastforce simp: has_prefix_def in_set_conv_nth)
  moreover have "\<forall>e\<in>set (drop (Suc i) es). \<not> has_prefix (ent_val e) (take l (nval es i))"
    using i other len by (fastforce simp: has_prefix_def in_set_conv_nth)
  moreover have "has_prefix (nval es i) (take l (nval es i))"
    using len by (simp add: has_prefix_def)
  ultimately show ?thesis
    by (subst split) (simp add: matching_def filter_empty_conv)
qed

lemma short_codes_good:
  assumes inv: "set_inv P es" and un: "uniform N es"
  shows "i \<le> length es \<Longrightarrow> codes_inv es len i l r \<Longrightarrow>
    (\<forall>j. i \<le> j \<and> j < length es \<longrightarrow> (\<exists>code. short_codes (drop i es) i len l r m (ent_digest (es ! j)) = Some code
        \<and> good_code es len (es ! j) code))
    \<and> (\<forall>d. d \<notin> ent_digest ` set (drop i es) \<longrightarrow> short_codes (drop i es) i len l r m d = m d)"
proof (induction "length es - i" arbitrary: i l r m)
  case 0
  then show ?case by auto
next
  case (Suc n)
  then have i: "i < length es" by simp
  have dr: "drop i es = es ! i # drop (Suc i) es" using i by (rule Cons_nth_drop_Suc [symmetric])
  obtain short l' r' where ec: "extend_code (es ! i) (drop (Suc i) es) i l r = (short, l', r')"
    by (metis prod.collapse)
  have ll: "l \<le> l'"
    and apart: "\<And>j. i < j \<Longrightarrow> j < length es \<Longrightarrow> take l' (nval es j) \<noteq> take l' (nval es i)"
    and short: "short = (if N \<le> l' then ent_digest (es ! i) else take l' (nval es i))"
    using extend_code_spec [OF inv un i ec] by blast+
  define l2 where "l2 = (if i \<ge> r' then len else l')"
  have ci: "codes_inv es len (Suc i) l2 r'"
    unfolding l2_def using inv un i Suc.prems(2) ec by (rule codes_inv_step)
  let ?m = "m(ent_digest (es ! i) \<mapsto> short)"
  have step: "short_codes (drop i es) i len l r m = short_codes (drop (Suc i) es) (Suc i) len l2 r' ?m"
    using ec by (simp add: dr l2_def)
  have IH: "(\<forall>j. Suc i \<le> j \<and> j < length es \<longrightarrow> (\<exists>code. short_codes (drop (Suc i) es) (Suc i) len l2 r' ?m (ent_digest (es ! j)) = Some code
        \<and> good_code es len (es ! j) code))
    \<and> (\<forall>d. d \<notin> ent_digest ` set (drop (Suc i) es) \<longrightarrow> short_codes (drop (Suc i) es) (Suc i) len l2 r' ?m d = ?m d)"
    using Suc.hyps(1) [of "Suc i"] Suc.hyps(2) i ci by simp
  have old: "take l (nval es b) \<noteq> take l (nval es i)" if "b < i" for b
    using that Suc.prems(2) i unfolding codes_inv_def by blast
  have len: "len \<le> l" using Suc.prems(2) unfolding codes_inv_def by blast
  have fresh: "ent_digest (es ! i) \<notin> ent_digest ` set (drop (Suc i) es)"
    using inv dr
    by (metis (no_types, lifting) Less_irrefl append_take_drop_id entry_ok_def image_iff set_inv_Cons
        set_inv_append set_invD(2))
  have "good_code es len (es ! i) short"
  proof (cases "N \<le> l'")
    case True
    then show ?thesis using short by (simp add: good_code_def)
  next
    case False
    have "take l' (nval es j) \<noteq> take l' (nval es i)" if "j < length es" "j \<noteq> i" for j
    proof (cases "j < i")
      case True
      then show ?thesis using old [of j] ll take_eq_le by blast
    next
      case False
      then show ?thesis using apart [of j] that by simp
    qed
    then have "matching es (take l' (nval es i)) = [es ! i]"
      using matching_unique [OF un i, of l'] False by simp
    then show ?thesis
      using short False le_trans [OF len ll] nval_length [OF un i] unfolding good_code_def by (metis not_le)
  qed
  then have "\<exists>code. short_codes (drop i es) i len l r m (ent_digest (es ! j)) = Some code
      \<and> good_code es len (es ! j) code" if "i \<le> j" "j < length es" for j
    using that IH fresh step by (cases "j = i") auto
  then show ?case using IH step dr by auto
qed

section \<open>Runs of operations\<close>

datatype set_op = OpAdd digest | OpRemove digest

fun apply_op :: "digest_pkg \<Rightarrow> set_op \<Rightarrow> digestEntries \<Rightarrow> digestEntries" where
  "apply_op P (OpAdd d) es = snd (Set_Add P d es)"
| "apply_op P (OpRemove d) es = snd (Set_Remove P d es)"

text \<open>The abstract set of valid digests that the operations stand for.\<close>

fun abstract_op :: "digest_pkg \<Rightarrow> set_op \<Rightarrow> digest set \<Rightarrow> digest set" where
  "abstract_op P (OpAdd d) S = (if dg_validate P d = None then insert d S else S)"
| "abstract_op P (OpRemove d) S = S - {d}"

definition run_ops :: "digest_pkg \<Rightarrow> set_op list \<Rightarrow> digestEntries" where
  "run_ops P ops = fold (apply_op P) ops NewSet"

definition abstract_run :: "digest_pkg \<Rightarrow> set_op list \<Rightarrow> digest set" where
  "abstract_run P ops = fold (abstract_op P) ops {}"

lemma set_All: "set (Set_All es) = ent_digest ` set es"
  by (simp add: Set_All_def)

lemma digests_valid: "set_inv P es \<Longrightarrow> d \<in> ent_digest ` set es \<Longrightarrow> dg_validate P d = None"
  using set_invD(2) entry_okD(3) by fastforce

lemma mk_entry_mem: "set_inv P es \<Longrightarrow> mk_entry P d \<in> set es \<longleftrightarrow> d \<in> ent_digest ` set es"
  using set_invD(2) by (metis (no_types, lifting) entry_ok_def imageE imageI mk_entry_sel(3))

lemma apply_op_refines:
  assumes "valid_splits P" "set_inv P es"
  shows "set_inv P (apply_op P oper es)
    \<and> ent_digest ` set (apply_op P oper es) = abstract_op P oper (ent_digest ` set es)"
proof (cases oper)
  case (OpAdd d)
  then show ?thesis
    using assms Add_valid [OF assms, of d] by (cases "dg_validate P d") (simp_all add: Set_Add_def)
next
  case (OpRemove d)
  show ?thesis
  proof (cases "dg_validate P d")
    case None
    have "ent_digest ` (set es - {mk_entry P d}) = ent_digest ` set es - {d}"
      using set_invD(2) [OF assms(2)] by (auto simp: entry_ok_def)
    then show ?thesis
      using Remove_valid [OF assms None] OpRemove by simp
  next
    case (Some err)
    then have "d \<notin> ent_digest ` set es"
      using digests_valid [OF assms(2)] by fastforce
    then show ?thesis
      using assms Some OpRemove by (simp add: Set_Remove_def)
  qed
qed

lemma All_distinct:
  assumes "set_inv P es"
  shows "distinct (Set_All es)"
  using assms
proof (induction es)
  case Nil
  then show ?case by (simp add: Set_All_def)
next
  case (Cons e es)
  then have "ent_digest e \<notin> ent_digest ` set es"
    by (metis Less_irrefl entry_ok_def mk_entry_mem set_inv_Cons)
  then show ?case using Cons by (simp add: Set_All_def set_inv_Cons)
qed

text \<open>
  C15. A digest set refines the set of the valid digests added and not removed since: after any sequence
  of \<open>Add\<close> and \<open>Remove\<close> calls on a new set the slice is strictly sorted by value and algorithm with
  consistent entries, \<open>All\<close> lists every digest of the abstract set exactly once, and looking up any
  valid digest returns it when it is in the set and \<open>ErrDigestNotFound\<close> otherwise.
\<close>

theorem digestset_refines_set:
  assumes "parse_validates P" "valid_splits P" "valid_registered P"
  shows "set_inv P (run_ops P ops) \<and> set (Set_All (run_ops P ops)) = abstract_run P ops
    \<and> distinct (Set_All (run_ops P ops))
    \<and> (dg_validate P d = None \<longrightarrow>
         Set_Lookup P (run_ops P ops) d
           = (if d \<in> abstract_run P ops then Inr d else Inl ErrDigestNotFound))"
proof -
  have run: "set_inv P (fold (apply_op P) ops xs)
      \<and> ent_digest ` set (fold (apply_op P) ops xs) = fold (abstract_op P) ops (ent_digest ` set xs)"
    if "set_inv P xs" for xs
    using that apply_op_refines [OF assms(2)] by (induction ops arbitrary: xs) simp_all
  from run [of NewSet] have inv: "set_inv P (run_ops P ops)"
    and S: "ent_digest ` set (run_ops P ops) = abstract_run P ops"
    by (simp_all add: NewSet_def run_ops_def abstract_run_def)
  then show ?thesis
    using All_distinct [OF inv] Lookup_full [OF assms(1-3) inv, of d] mk_entry_mem [OF inv, of d]
    by (simp add: set_All)
qed

definition sample_digest :: "string \<Rightarrow> digest" where
  "sample_digest h = ''sha256:'' @ h @ replicate (64 - length h) (CHR ''0'')"

theorem digestset_refines_set_witness:
  "let ops = [OpAdd (sample_digest ''ab12''), OpAdd (sample_digest ''aa''), OpAdd (sample_digest ''ab13''),
      OpRemove (sample_digest ''ab12''), OpAdd ''bogus''] in
   set (Set_All (run_ops sample_pkg ops)) = {sample_digest ''aa'', sample_digest ''ab13''}
   \<and> Set_Lookup sample_pkg (run_ops sample_pkg ops) (sample_digest ''aa'') = Inr (sample_digest ''aa'')"
proof -
  let ?ops = "[OpAdd (sample_digest ''ab12''), OpAdd (sample_digest ''aa''), OpAdd (sample_digest ''ab13''),
      OpRemove (sample_digest ''ab12''), OpAdd ''bogus'']"
  have "abstract_run sample_pkg ?ops = {sample_digest ''aa'', sample_digest ''ab13''}"
    by code_simp
  moreover have "dg_validate sample_pkg (sample_digest ''aa'') = None"
    by code_simp
  ultimately show ?thesis
    using digestset_refines_set [of sample_pkg ?ops "sample_digest ''aa''"] by simp
qed

text \<open>
  C16. Lookup of an abbreviation without an algorithm returns the digest exactly when one single entry of
  the set starts with it; with no such entry the answer is \<open>ErrDigestNotFound\<close>, with several it is
  \<open>ErrDigestAmbiguous\<close>.
\<close>

theorem lookup_short_exact:
  assumes "valid_registered P" "set_inv P es" "snd (dg_parse P h) = Some ErrDigestInvalidFormat"
  shows "(Set_Lookup P es h = Inr d \<longleftrightarrow> (\<exists>e. matching es h = [e] \<and> ent_digest e = d))
    \<and> (Set_Lookup P es h = Inl ErrDigestNotFound \<longleftrightarrow> (\<forall>e\<in>set es. \<not> has_prefix (ent_val e) h))
    \<and> (Set_Lookup P es h = Inl ErrDigestAmbiguous \<longleftrightarrow> 2 \<le> length (matching es h))"
proof -
  have "matching es h = [] \<longleftrightarrow> (\<forall>e\<in>set es. \<not> has_prefix (ent_val e) h)"
    by (simp add: matching_def filter_empty_conv)
  then show ?thesis
    using Lookup_short [OF assms] by (auto split: list.splits)
qed

theorem lookup_short_exact_witness:
  "Set_Lookup sample_pkg [mk_entry sample_pkg (sample_digest ''aa''), mk_entry sample_pkg (sample_digest ''ab'')] ''ab''
     = Inr (sample_digest ''ab'')"
proof -
  let ?es = "[mk_entry sample_pkg (sample_digest ''aa''), mk_entry sample_pkg (sample_digest ''ab'')]"
  have "set_inv sample_pkg ?es"
    by code_simp
  moreover have "snd (dg_parse sample_pkg ''ab'') = Some ErrDigestInvalidFormat"
    by code_simp
  moreover have "matching ?es ''ab'' = [mk_entry sample_pkg (sample_digest ''ab'')]"
    by code_simp
  ultimately show ?thesis
    using lookup_short_exact [OF sample_valid_registered] by simp
qed

text \<open>
  C17. \<open>ShortCodeTable\<close> on a set of digests of one algorithm gives every digest of the set a code, each
  code is the digest itself or a prefix of its encoded part of at least the requested length, and looking
  a code up in the same set returns the digest it was made for.
\<close>

theorem short_codes_resolve:
  assumes "parse_validates P" "valid_splits P" "valid_registered P" "colon_required P"
    and "set_inv P es" "\<forall>e\<in>set es. ent_alg e = al" "0 \<le> len" "d \<in> set (Set_All es)"
  shows "\<exists>m code. ShortCodeTable es len = Some m \<and> m d = Some code
    \<and> Set_Lookup P es code = Inr d
    \<and> (code = d \<or> (nat len \<le> length code \<and> has_prefix (dg_hex P d) code))"
proof -
  define N where "N = length (ent_val (hd es))"
  have ok: "entry_ok P e" if "e \<in> set es" for e
    using that set_invD(2) [OF assms(5)] by simp
  have "length (ent_val e) = N" if "e \<in> set es" for e
    using that ok registered_length [OF assms(3)] assms(6)
    by (metis N_def entry_okD hd_in_set length_pos_if_in_set length_greater_0_conv)
  moreover have "distinct (map ent_val es)"
  proof -
    have "inj_on ent_val (set es)"
      using assms(2,6) ok by (intro inj_onI) (metis Less_def less_irrefl not_Less_eq)
    moreover have "distinct es"
      using All_distinct [OF assms(5)] by (simp add: Set_All_def distinct_map)
    ultimately show ?thesis by (simp add: distinct_map)
  qed
  ultimately have un: "uniform N es" by (simp add: uniform_def list_all_iff)
  obtain j where j: "j < length es" "ent_digest (es ! j) = d"
    using assms(8) by (auto simp: set_All in_set_conv_nth)
  have "codes_inv es (nat len) 0 (nat len) 0" by (auto simp: codes_inv_def)
  then obtain code where code:
    "short_codes es 0 (nat len) (nat len) 0 Map.empty d = Some code" "good_code es (nat len) (es ! j) code"
    using short_codes_good [OF assms(5) un, of 0 "nat len" "nat len" 0 Map.empty] j by auto
  have e_ok: "entry_ok P (es ! j)" using ok j by simp
  have lookup: "Set_Lookup P es code = Inr d
      \<and> (code = d \<or> (nat len \<le> length code \<and> has_prefix (dg_hex P d) code))"
  proof (cases "code = d")
    case True
    have "mk_entry P d \<in> set es" using assms(8) mk_entry_mem [OF assms(5)] by (simp add: set_All)
    then show ?thesis
      using Lookup_full [OF assms(1-3,5), of d] True entry_okD(3) [OF e_ok] j by simp
  next
    case False
    then obtain l where l: "nat len \<le> l" "l < length (ent_val (es ! j))" "code = take l (ent_val (es ! j))"
      "matching es code = [es ! j]"
      using code(2) j by (auto simp: good_code_def)
    have hex: "list_all is_lower_hex (ent_val (es ! j))"
      using assms(3) e_ok entry_okD [OF e_ok] by (simp add: valid_registered_def)
    then have "CHR '':'' \<notin> set code"
      using l(3) by (metis in_set_takeD list_all_iff not_hex_colon)
    then have "snd (dg_parse P code) = Some ErrDigestInvalidFormat"
      using assms(1,4) by (simp add: dg_parse_eq colon_required_def)
    then have "Set_Lookup P es code = Inr d"
      using Lookup_short [OF assms(3,5)] l(4) j by simp
    then show ?thesis using l entry_okD(2) [OF e_ok] j by (simp add: has_prefix_def)
  qed
  have "ShortCodeTable es len = Some (short_codes es 0 (nat len) (nat len) 0 Map.empty)"
    using assms(7) by (simp add: ShortCodeTable_def)
  then show ?thesis using code(1) lookup by blast
qed

theorem short_codes_resolve_witness:
  "let es = [mk_entry sample_pkg (sample_digest ''abc''), mk_entry sample_pkg (sample_digest ''abd'')] in
   \<exists>m code. ShortCodeTable es 2 = Some m \<and> m (sample_digest ''abd'') = Some code
     \<and> Set_Lookup sample_pkg es code = Inr (sample_digest ''abd'')"
proof -
  let ?es = "[mk_entry sample_pkg (sample_digest ''abc''), mk_entry sample_pkg (sample_digest ''abd'')]"
  have "set_inv sample_pkg ?es"
    by code_simp
  moreover have "\<forall>e\<in>set ?es. ent_alg e = ''sha256''"
    by code_simp
  moreover have "sample_digest ''abd'' \<in> set (Set_All ?es)"
    by (simp add: Set_All_def)
  ultimately show ?thesis
    using short_codes_resolve [of sample_pkg ?es "''sha256''" 2 "sample_digest ''abd''"] by auto
qed

text \<open>
  With digests of two algorithms the codes need not be unambiguous: the code of the longer digest below
  is the whole encoded part of the shorter one.
\<close>

lemma short_codes_of_two_algorithms:
  "let short = mk_entry sample_pkg (''sha256:'' @ replicate 64 (CHR ''a''));
       long = mk_entry sample_pkg (''sha512:'' @ replicate 128 (CHR ''a''))
   in set_inv sample_pkg [short, long] \<and>
      (case ShortCodeTable [short, long] 4 of None \<Rightarrow> False | Some m \<Rightarrow>
         m (ent_digest long) = Some (replicate 64 (CHR ''a''))) \<and>
      Set_Lookup sample_pkg [short, long] (replicate 64 (CHR ''a'')) = Inl ErrDigestAmbiguous"
  by code_simp

text \<open>
  C18. The search with an algorithm looks at one position only: with digests of two algorithms in the set,
  an abbreviated lookup that names the algorithm can miss the one entry that matches it.
\<close>

theorem lookup_algorithm_misses:
  "\<exists>es h e. set_inv sample_pkg es
     \<and> filter (\<lambda>e. checkShortMatch (ent_alg e) (ent_val e) ''sha512'' h) es = [e]
     \<and> Set_Lookup sample_pkg es (''sha512:'' @ h) = Inl ErrDigestNotFound"
proof (intro exI conjI)
  let ?a = "mk_entry sample_pkg (sample_digest ''ab0'')"
  let ?b = "mk_entry sample_pkg (''sha512:'' @ ''ab1'' @ replicate 125 (CHR ''0''))"
  show "set_inv sample_pkg [?a, ?b]" by code_simp
  show "filter (\<lambda>e. checkShortMatch (ent_alg e) (ent_val e) ''sha512'' ''ab'') [?a, ?b] = [?b]"
    by code_simp
  show "Set_Lookup sample_pkg [?a, ?b] (''sha512:'' @ ''ab'') = Inl ErrDigestNotFound"
    by code_simp
qed

end
