(* ===== verification/Go_Regexp.thy ===== *)
theory Go_Regexp
  imports Prelude
begin

text \<open>
  The part of Go's \<open>regexp\<close> package that the repository uses: anchored matching of a regular
  expression against a whole string, with capturing groups. Go reports the match that a Perl-style
  backtracking engine finds first, so the matcher is that engine, in continuation-passing form. All
  character classes in use contain ASCII characters only, so matching bytes is matching runes.
\<close>

section \<open>Expressions and the matcher\<close>

datatype rexp =
    Eps
  | Cls "char \<Rightarrow> bool"
  | Seq rexp rexp
  | Alt rexp rexp
  | Star rexp
  | Cap nat rexp

type_synonym captures = "nat \<rightharpoonup> string"

text \<open>
  The loop of a greedy star: another round if it makes progress, else go on with the continuation.
  Every round consumes a byte, so the length of the input bounds the number of rounds.
\<close>

fun star_iter ::
    "nat \<Rightarrow> ((string \<Rightarrow> captures \<Rightarrow> 'a option) \<Rightarrow> string \<Rightarrow> captures \<Rightarrow> 'a option)
     \<Rightarrow> (string \<Rightarrow> captures \<Rightarrow> 'a option) \<Rightarrow> string \<Rightarrow> captures \<Rightarrow> 'a option" where
  "star_iter 0 f k s c = k s c"
| "star_iter (Suc n) f k s c =
     (case f (\<lambda>s' c'. if length s' < length s then star_iter n f k s' c' else None) s c of
        Some r \<Rightarrow> Some r
      | None \<Rightarrow> k s c)"

primrec re_match ::
    "rexp \<Rightarrow> (string \<Rightarrow> captures \<Rightarrow> 'a option) \<Rightarrow> string \<Rightarrow> captures \<Rightarrow> 'a option" where
  "re_match Eps k s c = k s c"
| "re_match (Cls p) k s c = (case s of [] \<Rightarrow> None | x # xs \<Rightarrow> if p x then k xs c else None)"
| "re_match (Seq a b) k s c = re_match a (re_match b k) s c"
| "re_match (Alt a b) k s c =
     (case re_match a k s c of Some r \<Rightarrow> Some r | None \<Rightarrow> re_match b k s c)"
| "re_match (Star a) k s c = star_iter (length s) (re_match a) k s c"
| "re_match (Cap n a) k s c =
     re_match a (\<lambda>s' c'. k s' (c'(n \<mapsto> take (length s - length s') s))) s c"

text \<open>\<open>FindStringSubmatch\<close> and \<open>MatchString\<close> of an expression between \<open>^\<close> and \<open>$\<close>.\<close>

definition find_submatch :: "rexp \<Rightarrow> string \<Rightarrow> captures option" where
  "find_submatch r s = re_match r (\<lambda>s' c. if s' = [] then Some c else None) s Map.empty"

definition match_string :: "rexp \<Rightarrow> string \<Rightarrow> bool" where
  "match_string r s \<longleftrightarrow> find_submatch r s \<noteq> None"

text \<open>A group that took no part in the match is the empty string in Go's slice of submatches.\<close>

definition group :: "captures \<Rightarrow> nat \<Rightarrow> string" where
  "group c n = (case c n of None \<Rightarrow> [] | Some u \<Rightarrow> u)"

section \<open>Derived forms\<close>

definition opt :: "rexp \<Rightarrow> rexp" where
  "opt r = Alt r Eps"

definition plus_of :: "rexp \<Rightarrow> rexp" where
  "plus_of r = Seq r (Star r)"

fun upto_of :: "nat \<Rightarrow> rexp \<Rightarrow> rexp" where
  "upto_of 0 r = Eps"
| "upto_of (Suc n) r = Alt (Seq r (upto_of n r)) Eps"

fun exactly :: "nat \<Rightarrow> rexp \<Rightarrow> rexp" where
  "exactly 0 r = Eps"
| "exactly (Suc n) r = Seq r (exactly n r)"

definition lit :: "char \<Rightarrow> rexp" where
  "lit c = Cls (\<lambda>x. x = c)"

section \<open>Meaning\<close>

text \<open>The words of an expression together with the captures made on the way, the last one first.\<close>

inductive_set star_trees :: "(string \<times> (nat \<times> string) list) set \<Rightarrow> (string \<times> (nat \<times> string) list) set"
  for T where
    star_nil: "([], []) \<in> star_trees T"
  | star_step: "(u, g) \<in> T \<Longrightarrow> (v, h) \<in> star_trees T \<Longrightarrow> (u @ v, h @ g) \<in> star_trees T"

primrec trees :: "rexp \<Rightarrow> (string \<times> (nat \<times> string) list) set" where
  "trees Eps = {([], [])}"
| "trees (Cls p) = {([x], []) |x. p x}"
| "trees (Seq a b) = {(u @ v, h @ g) |u v g h. (u, g) \<in> trees a \<and> (v, h) \<in> trees b}"
| "trees (Alt a b) = trees a \<union> trees b"
| "trees (Star a) = star_trees (trees a)"
| "trees (Cap n a) = {(u, (n, u) # g) |u g. (u, g) \<in> trees a}"

definition lang :: "rexp \<Rightarrow> string set" where
  "lang r = fst ` trees r"

inductive_set star_lang :: "string set \<Rightarrow> string set" for A where
    lang_nil: "[] \<in> star_lang A"
  | lang_step: "u \<in> A \<Longrightarrow> v \<in> star_lang A \<Longrightarrow> u @ v \<in> star_lang A"

lemma lang_Star: "lang (Star r) = star_lang (lang r)"
proof
  have "u \<in> star_lang (lang r)" if "(u, g) \<in> star_trees (trees r)" for u g
    using that
  proof (induction rule: star_trees.induct)
    case star_nil
    show ?case by (rule lang_nil)
  next
    case (star_step u g v h)
    then have "u \<in> lang r" by (force simp: lang_def)
    then show ?case using star_step.IH by (rule lang_step)
  qed
  then show "lang (Star r) \<subseteq> star_lang (lang r)" by (auto simp: lang_def [of "Star r"])
  have "\<exists>g. (u, g) \<in> star_trees (trees r)" if "u \<in> star_lang (lang r)" for u
    using that
  proof (induction rule: star_lang.induct)
    case lang_nil
    show ?case by (rule exI) (rule star_nil)
  next
    case (lang_step u v)
    then obtain g h where "(u, g) \<in> trees r" "(v, h) \<in> star_trees (trees r)"
      by (auto simp: lang_def)
    then show ?case by (blast intro: star_step)
  qed
  then show "star_lang (lang r) \<subseteq> lang (Star r)" by (force simp: lang_def)
qed

lemma in_lang: "u \<in> lang r \<longleftrightarrow> (\<exists>g. (u, g) \<in> trees r)"
  by (force simp: lang_def)

definition conc :: "string set \<Rightarrow> string set \<Rightarrow> string set" where
  "conc A B = {u @ v |u v. u \<in> A \<and> v \<in> B}"

lemma concI [intro]: "u \<in> A \<Longrightarrow> v \<in> B \<Longrightarrow> u @ v \<in> conc A B"
  by (auto simp: conc_def)

lemma concE [elim!]:
  assumes "w \<in> conc A B"
  obtains u v where "w = u @ v" "u \<in> A" "v \<in> B"
  using assms by (auto simp: conc_def)

lemma conc_singleton [simp]: "conc {[c]} B = (#) c ` B"
  by (force simp: conc_def)

lemma conc_nil [simp]: "conc {[]} B = B"
  by (auto simp: conc_def)

lemma conc_assoc: "conc (conc A B) C = conc A (conc B C)"
proof
  have "u @ (v @ w) \<in> conc A (conc B C)" if "u \<in> A" "v \<in> B" "w \<in> C" for u v w
    using that by (intro concI)
  then show "conc (conc A B) C \<subseteq> conc A (conc B C)" by auto
  have "(u @ v) @ w \<in> conc (conc A B) C" if "u \<in> A" "v \<in> B" "w \<in> C" for u v w
    using that by (intro concI)
  then show "conc A (conc B C) \<subseteq> conc (conc A B) C" by auto
qed

lemma conc_insert: "conc (insert [] A) B = B \<union> conc A B"
proof
  show "conc (insert [] A) B \<subseteq> B \<union> conc A B" by auto
  have "[] @ v \<in> conc (insert [] A) B" if "v \<in> B" for v using that by (intro concI) auto
  then show "B \<union> conc A B \<subseteq> conc (insert [] A) B" by auto
qed

lemma lang_Seq: "lang (Seq a b) = conc (lang a) (lang b)"
proof (rule set_eqI)
  fix w
  show "w \<in> lang (Seq a b) \<longleftrightarrow> w \<in> conc (lang a) (lang b)"
    unfolding in_lang mem_Collect_eq trees.simps conc_def by blast
qed

lemma lang_simps [simp]:
  "lang Eps = {[]}"
  "lang (Cls p) = {[x] |x. p x}"
  "lang (Seq a b) = conc (lang a) (lang b)"
  "lang (Alt a b) = lang a \<union> lang b"
  "lang (Cap n a) = lang a"
  by (auto simp: in_lang lang_Seq simp del: trees.simps(3))

lemma tree_matchI:
  "s = u @ s' \<Longrightarrow> (u, g) \<in> T \<Longrightarrow> k s' (c ++ map_of g) = Some x \<Longrightarrow>
     \<exists>u g s'. s = u @ s' \<and> (u, g) \<in> T \<and> k s' (c ++ map_of g) = Some x"
  by blast

lemma re_match_sound:
  "re_match r k s c = Some x \<Longrightarrow>
     \<exists>u g s'. s = u @ s' \<and> (u, g) \<in> trees r \<and> k s' (c ++ map_of g) = Some x"
proof (induction r arbitrary: k s c)
  case Eps
  then show ?case by (intro tree_matchI [of s "[]" s "[]"]) simp_all
next
  case (Cls p)
  then obtain y ys where "s = y # ys" "p y" "k ys c = Some x"
    by (auto split: list.splits if_splits)
  then show ?case by (intro tree_matchI [where u = "[y]" and g = "[]" and s' = ys]) simp_all
next
  case (Seq a b)
  from Seq.prems obtain u g s' where 1: "s = u @ s'" "(u, g) \<in> trees a"
    "re_match b k s' (c ++ map_of g) = Some x"
    using Seq.IH(1) [of "re_match b k" s c] unfolding re_match.simps by blast
  then obtain v h t where "s' = v @ t" "(v, h) \<in> trees b" "k t ((c ++ map_of g) ++ map_of h) = Some x"
    using Seq.IH(2) by blast
  with 1 show ?case
    by (intro tree_matchI [where u = "u @ v" and g = "h @ g" and s' = t]) (auto simp: map_add_assoc)
next
  case (Alt a b)
  from Alt.prems have "re_match a k s c = Some x \<or> re_match b k s c = Some x"
    by (simp split: option.splits)
  then show ?case using Alt.IH(1) [of k s c] Alt.IH(2) [of k s c] by (metis UnCI trees.simps(4))
next
  case (Star a)
  have "\<exists>u g s'. s = u @ s' \<and> (u, g) \<in> star_trees (trees a) \<and> k s' (c ++ map_of g) = Some x"
    if "star_iter n (re_match a) k s c = Some x" for n s c
    using that
  proof (induction n arbitrary: s c)
    case 0
    then show ?case by (intro tree_matchI [where u = "[]" and g = "[]" and s' = s]) (simp_all add: star_nil)
  next
    case (Suc n)
    let ?k = "\<lambda>s' c'. if length s' < length s then star_iter n (re_match a) k s' c' else None"
    show ?case
    proof (cases "re_match a ?k s c")
      case None
      with Suc.prems show ?thesis
        by (intro tree_matchI [where u = "[]" and g = "[]" and s' = s]) (simp_all add: star_nil)
    next
      case (Some y)
      with Suc.prems have "re_match a ?k s c = Some x" by simp
      then obtain u g s' where 1: "s = u @ s'" "(u, g) \<in> trees a" "?k s' (c ++ map_of g) = Some x"
        using Star.IH by blast
      then have "star_iter n (re_match a) k s' (c ++ map_of g) = Some x"
        by (simp split: if_splits)
      then obtain v h t where "s' = v @ t" "(v, h) \<in> star_trees (trees a)"
        "k t ((c ++ map_of g) ++ map_of h) = Some x"
        using Suc.IH by blast
      with 1 show ?thesis
        by (intro tree_matchI [where u = "u @ v" and g = "h @ g" and s' = t])
          (auto simp: map_add_assoc intro: star_step)
    qed
  qed
  then show ?case using Star.prems by simp
next
  case (Cap n a)
  let ?k = "\<lambda>s' c'. k s' (c'(n \<mapsto> take (length s - length s') s))"
  from Cap.prems have "re_match a ?k s c = Some x" by simp
  then obtain u g s' where "s = u @ s'" "(u, g) \<in> trees a" "?k s' (c ++ map_of g) = Some x"
    using Cap.IH by blast
  note m = this
  have "c ++ map_of ((n, u) # g) = (c ++ map_of g)(n \<mapsto> u)"
    by (rule ext) (simp add: map_add_def)
  then have "?k s' (c ++ map_of g) = k s' (c ++ map_of ((n, u) # g))"
    using m(1) by (simp only: length_append add_diff_cancel_right') simp
  then have "k s' (c ++ map_of ((n, u) # g)) = Some x" using m(3) by (rule trans [OF sym])
  moreover have "(u, (n, u) # g) \<in> trees (Cap n a)" using m(2) by simp
  ultimately show ?case by (rule tree_matchI [OF m(1), rotated])
qed

lemma star_iter_complete:
  assumes body: "\<And>u s' k c. u \<in> A \<Longrightarrow> (\<And>c. k s' c \<noteq> None) \<Longrightarrow> f k (u @ s') c \<noteq> None"
  shows "w \<in> star_lang A \<Longrightarrow> length w \<le> n \<Longrightarrow> (\<And>c. k s' c \<noteq> None) \<Longrightarrow> star_iter n f k (w @ s') c \<noteq> None"
proof (induction arbitrary: n c rule: star_lang.induct)
  case lang_nil
  then show ?case by (cases n) (auto split: option.splits)
next
  case (lang_step u v)
  show ?case
  proof (cases u)
    case Nil
    then show ?thesis using lang_step by simp
  next
    case (Cons x xs)
    then obtain n' where n: "n = Suc n'" "length v \<le> n'"
      using lang_step.prems(1) by (cases n) auto
    let ?k = "\<lambda>t c'. if length t < length ((u @ v) @ s') then star_iter n' f k t c' else None"
    have "?k (v @ s') c' \<noteq> None" for c'
      using lang_step.IH [OF n(2) lang_step.prems(2)] Cons by simp
    then have "f ?k (u @ (v @ s')) c \<noteq> None"
      using lang_step.hyps(1) by (intro body) auto
    then show ?thesis by (auto simp: n split: option.splits)
  qed
qed

lemma re_match_complete:
  "u \<in> lang r \<Longrightarrow> (\<And>c. k s' c \<noteq> None) \<Longrightarrow> re_match r k (u @ s') c \<noteq> None"
proof (induction r arbitrary: u k s' c)
  case Eps
  then show ?case by simp
next
  case (Cls p)
  from Cls.prems(1) obtain x where "u = [x]" "p x" by auto
  then show ?case using Cls.prems(2) by simp
next
  case (Seq a b)
  from Seq.prems(1) obtain v w where u: "u = v @ w" "v \<in> lang a" "w \<in> lang b"
    by auto
  have "re_match a (re_match b k) (v @ (w @ s')) c \<noteq> None"
    by (rule Seq.IH(1) [OF u(2)], rule Seq.IH(2) [OF u(3)], rule Seq.prems(2))
  then show ?case by (simp add: u)
next
  case (Alt a b)
  then have "re_match a k (u @ s') c \<noteq> None \<or> re_match b k (u @ s') c \<noteq> None"
    using Alt.IH(1) [of u k s' c, OF _ Alt.prems(2)] Alt.IH(2) [of u k s' c, OF _ Alt.prems(2)]
    by (metis Un_iff lang_simps(4))
  then show ?case by (auto split: option.split)
next
  case (Star a)
  have "star_iter (length (u @ s')) (re_match a) k (u @ s') c \<noteq> None"
    by (rule star_iter_complete [where A = "lang a"], erule Star.IH)
      (use Star.prems in \<open>simp_all add: lang_Star\<close>)
  then show ?case by simp
next
  case (Cap n a)
  have "re_match a (\<lambda>t c'. k t (c'(n \<mapsto> take (length (u @ s') - length t) (u @ s')))) (u @ s') c \<noteq> None"
    using Cap.prems by (intro Cap.IH) auto
  then show ?case by simp
qed

text \<open>The matcher decides membership in the language of the expression.\<close>

lemma match_string_iff: "match_string r s \<longleftrightarrow> s \<in> lang r"
proof
  assume "match_string r s"
  then obtain c where "re_match r (\<lambda>s' c. if s' = [] then Some c else None) s Map.empty = Some c"
    by (auto simp: match_string_def find_submatch_def)
  from re_match_sound [OF this] show "s \<in> lang r"
    by (auto simp: in_lang split: if_splits)
next
  assume "s \<in> lang r"
  then have "re_match r (\<lambda>s' c. if s' = [] then Some c else None) (s @ []) Map.empty \<noteq> None"
    by (intro re_match_complete) auto
  then show "match_string r s" by (simp add: match_string_def find_submatch_def)
qed

lemma find_submatch_None: "find_submatch r s = None \<longleftrightarrow> s \<notin> lang r"
  using match_string_iff [of r s] unfolding match_string_def by blast

lemma find_submatch_tree:
  assumes "find_submatch r s = Some c"
  obtains g where "(s, g) \<in> trees r" "c = map_of g"
proof -
  obtain u g s' where "s = u @ s'" "(u, g) \<in> trees r"
    "(if s' = [] then Some (Map.empty ++ map_of g) else None) = Some c"
    using re_match_sound [OF assms [unfolded find_submatch_def]] by blast
  then show thesis by (intro that [of g]) (simp_all split: if_splits)
qed

section \<open>Languages of the derived forms\<close>

lemma lang_opt [simp]: "lang (opt r) = insert [] (lang r)"
  by (auto simp: opt_def)

lemma lang_plus [simp]: "lang (plus_of r) = conc (lang r) (star_lang (lang r))"
  by (simp add: plus_of_def lang_Star)

lemma lang_lit [simp]: "lang (lit c) = {[c]}"
  by (auto simp: lit_def)

lemma star_lang_cls: "star_lang {[x] |x. p x} = {u. list_all p u}"
proof
  have "list_all p u" if "u \<in> star_lang {[x] |x. p x}" for u
    using that by (induction rule: star_lang.induct) auto
  then show "star_lang {[x] |x. p x} \<subseteq> {u. list_all p u}" by blast
  have "u \<in> star_lang {[x] |x. p x}" if "list_all p u" for u
    using that
  proof (induction u)
    case (Cons x u)
    then have "[x] @ u \<in> star_lang {[x] |x. p x}" by (intro lang_step) auto
    then show ?case by simp
  qed (rule lang_nil)
  then show "{u. list_all p u} \<subseteq> star_lang {[x] |x. p x}" by blast
qed

lemma lang_star_cls [simp]: "lang (Star (Cls p)) = {u. list_all p u}"
  by (simp add: lang_Star star_lang_cls)

lemma conc_cls [simp]: "conc {[x] |x. p x} B = {x # v |x v. p x \<and> v \<in> B}"
proof
  show "conc {[x] |x. p x} B \<subseteq> {x # v |x v. p x \<and> v \<in> B}" by auto
  have "[x] @ v \<in> conc {[x] |x. p x} B" if "p x" "v \<in> B" for x v
    using that by (intro concI) auto
  then show "{x # v |x v. p x \<and> v \<in> B} \<subseteq> conc {[x] |x. p x} B" by auto
qed

lemma lang_upto [simp]: "lang (upto_of n (Cls p)) = {u. length u \<le> n \<and> list_all p u}"
proof (induction n)
  case (Suc n)
  have "lang (upto_of (Suc n) (Cls p)) = insert [] {x # v |x v. p x \<and> length v \<le> n \<and> list_all p v}"
    by (simp add: Suc)
  also have "\<dots> = {u. length u \<le> Suc n \<and> list_all p u}"
    by (rule set_eqI, rename_tac u, case_tac u) auto
  finally show ?case .
qed auto

lemma lang_exactly [simp]: "lang (exactly n (Cls p)) = {u. length u = n \<and> list_all p u}"
proof (induction n)
  case (Suc n)
  have "lang (exactly (Suc n) (Cls p)) = {x # v |x v. p x \<and> length v = n \<and> list_all p v}"
    by (simp add: Suc)
  also have "\<dots> = {u. length u = Suc n \<and> list_all p u}"
    by (auto simp: length_Suc_conv)
  finally show ?case .
qed auto

text \<open>The characters an expression can consume, and expressions that capture nothing.\<close>

primrec re_chars :: "rexp \<Rightarrow> char \<Rightarrow> bool" where
  "re_chars Eps x = False"
| "re_chars (Cls p) x = p x"
| "re_chars (Seq a b) x = (re_chars a x \<or> re_chars b x)"
| "re_chars (Alt a b) x = (re_chars a x \<or> re_chars b x)"
| "re_chars (Star a) x = re_chars a x"
| "re_chars (Cap n a) x = re_chars a x"

lemma lang_chars: "u \<in> lang r \<Longrightarrow> x \<in> set u \<Longrightarrow> re_chars r x"
proof (induction r arbitrary: u)
  case (Star r)
  have "re_chars r x" if "u \<in> star_lang (lang r)" "x \<in> set u" for u
    using that by (induction rule: star_lang.induct) (auto intro: Star.IH)
  then show ?case using Star.prems by (simp add: lang_Star)
next
  case (Seq a b)
  then show ?case by fastforce
next
  case (Alt a b)
  then show ?case by fastforce
qed auto

primrec no_caps :: "rexp \<Rightarrow> bool" where
  "no_caps Eps = True"
| "no_caps (Cls p) = True"
| "no_caps (Seq a b) = (no_caps a \<and> no_caps b)"
| "no_caps (Alt a b) = (no_caps a \<and> no_caps b)"
| "no_caps (Star a) = no_caps a"
| "no_caps (Cap n a) = False"

lemma no_caps_trees: "no_caps r \<Longrightarrow> (u, g) \<in> trees r \<Longrightarrow> g = []"
proof (induction r arbitrary: u g)
  case (Star r)
  have "g = []" if "(u, g) \<in> star_trees (trees r)" for u g
    using that
  proof (induction rule: star_trees.induct)
    case (star_step u g v h)
    with Star.prems(1) show ?case using Star.IH [of u g] by simp
  qed simp
  then show ?case using Star.prems(2) by simp
next
  case (Seq a b)
  from Seq.prems obtain u1 g1 v1 h1 where "g = h1 @ g1" "(u1, g1) \<in> trees a" "(v1, h1) \<in> trees b"
    by auto
  then show ?case using Seq.IH(1) [of u1 g1] Seq.IH(2) [of v1 h1] Seq.prems(1) by simp
next
  case (Alt a b)
  then show ?case using Alt.IH(1) [of u g] Alt.IH(2) [of u g] by auto
qed auto

lemma no_caps_derived [simp]:
  "no_caps (opt r) = no_caps r" "no_caps (plus_of r) = no_caps r" "no_caps (lit c)"
  "no_caps (upto_of n (Cls p))" "no_caps (exactly n (Cls p))"
  by (simp_all add: opt_def plus_of_def lit_def) (induction n; simp)+

lemma re_chars_derived [simp]:
  "re_chars (opt r) x = re_chars r x" "re_chars (plus_of r) x = re_chars r x"
  "re_chars (lit c) x = (x = c)"
  by (simp_all add: opt_def plus_of_def lit_def)

text \<open>A subtree of a capture, and an optional part introduced by a literal.\<close>

lemma trees_cap_iff:
  "no_caps r \<Longrightarrow> (u, g) \<in> trees (Cap n r) \<longleftrightarrow> u \<in> lang r \<and> g = [(n, u)]"
  using no_caps_trees [of r u] by (auto simp: in_lang)

lemma trees_opt_cap_iff:
  "no_caps r \<Longrightarrow> (u, g) \<in> trees (opt (Seq (lit c) (Cap n r))) \<longleftrightarrow>
     u = [] \<and> g = [] \<or> (\<exists>w. u = c # w \<and> w \<in> lang r \<and> g = [(n, w)])"
  by (auto simp: opt_def lit_def trees_cap_iff simp del: trees.simps(6))

end
