(* ===== verification/Reference.thy ===== *)
theory Reference
  imports Go_Regexp Digest_Pkg Digestset
begin

text \<open>
  Package \<open>reference\<close>: the grammar of image references (\<open>reference/regexp.go\<close>), their parser,
  printer and constructors (\<open>reference/reference.go\<close>), and the Docker short forms
  (\<open>reference/normalize.go\<close>, \<open>reference/helpers.go\<close>). The digest package is the parameter \<open>P\<close>, the
  Unicode tables behind \<open>strings.ToLower\<close> are the parameter \<open>uni\<close>. The lemmas show that the parser
  accepts exactly the strings the printer produces from well-formed references, and inverts it.
\<close>

section \<open>The grammar: \<open>regexp.go\<close>\<close>

fun expression :: "rexp list \<Rightarrow> rexp" where
  "expression [] = Eps"
| "expression [r] = r"
| "expression (r # rs) = Seq r (expression rs)"

definition optional :: "rexp list \<Rightarrow> rexp" where
  "optional rs = opt (expression rs)"

definition repeated :: "rexp list \<Rightarrow> rexp" where
  "repeated rs = plus_of (expression rs)"

definition capture :: "nat \<Rightarrow> rexp list \<Rightarrow> rexp" where
  "capture n rs = Cap n (expression rs)"

definition is_digit :: "char \<Rightarrow> bool" where
  "is_digit c \<longleftrightarrow> in_range (CHR ''0'') (CHR ''9'') c"

definition is_lower :: "char \<Rightarrow> bool" where
  "is_lower c \<longleftrightarrow> in_range (CHR ''a'') (CHR ''z'') c"

definition is_alpha :: "char \<Rightarrow> bool" where
  "is_alpha c \<longleftrightarrow> is_lower c \<or> in_range (CHR ''A'') (CHR ''Z'') c"

definition is_alnum :: "char \<Rightarrow> bool" where
  "is_alnum c \<longleftrightarrow> is_alpha c \<or> is_digit c"

definition is_lower_alnum :: "char \<Rightarrow> bool" where
  "is_lower_alnum c \<longleftrightarrow> is_lower c \<or> is_digit c"

definition is_word :: "char \<Rightarrow> bool" where
  "is_word c \<longleftrightarrow> is_alnum c \<or> c = CHR ''_''"

definition is_xdigit :: "char \<Rightarrow> bool" where
  "is_xdigit c \<longleftrightarrow> is_digit c \<or> in_range (CHR ''a'') (CHR ''f'') c \<or> in_range (CHR ''A'') (CHR ''F'') c"

definition is_tag_char :: "char \<Rightarrow> bool" where
  "is_tag_char c \<longleftrightarrow> is_word c \<or> c = CHR ''.'' \<or> c = CHR ''-''"

lemmas char_class_defs = is_digit_def is_lower_def is_alpha_def is_alnum_def is_lower_alnum_def
  is_word_def is_xdigit_def is_tag_char_def is_lower_hex_def in_range_def byte_of_def

definition alphaNumericRegexp :: rexp where
  "alphaNumericRegexp = plus_of (Cls is_lower_alnum)"

definition separatorRegexp :: rexp where
  "separatorRegexp =
     Alt (Alt (Cls (\<lambda>c. c = CHR ''.'' \<or> c = CHR ''_'')) (Seq (lit (CHR ''_'')) (lit (CHR ''_''))))
       (Star (lit (CHR ''-'')))"

definition nameComponentRegexp :: rexp where
  "nameComponentRegexp =
     expression [alphaNumericRegexp, optional [repeated [separatorRegexp, alphaNumericRegexp]]]"

definition domainComponentRegexp :: rexp where
  "domainComponentRegexp =
     Alt (Cls is_alnum)
       (Seq (Cls is_alnum) (Seq (Star (Cls (\<lambda>c. is_alnum c \<or> c = CHR ''-''))) (Cls is_alnum)))"

definition DomainRegexp :: rexp where
  "DomainRegexp =
     expression [domainComponentRegexp,
       optional [repeated [lit (CHR ''.''), domainComponentRegexp]],
       optional [lit (CHR '':''), plus_of (Cls is_digit)]]"

definition TagRegexp :: rexp where
  "TagRegexp = Seq (Cls is_word) (upto_of 127 (Cls is_tag_char))"

definition digest_component :: rexp where
  "digest_component = Seq (Cls is_alpha) (Star (Cls is_alnum))"

definition DigestRegexp :: rexp where
  "DigestRegexp =
     expression [digest_component,
       Star (Seq (Cls (\<lambda>c. c \<in> set ''-_+.'')) digest_component),
       lit (CHR '':''), exactly 32 (Cls is_xdigit), Star (Cls is_xdigit)]"

definition NameRegexp :: rexp where
  "NameRegexp =
     expression [optional [DomainRegexp, lit slash], nameComponentRegexp,
       optional [repeated [lit slash, nameComponentRegexp]]]"

definition anchoredNameRegexp :: rexp where
  "anchoredNameRegexp =
     expression [optional [capture 1 [DomainRegexp], lit slash],
       capture 2 [nameComponentRegexp, optional [repeated [lit slash, nameComponentRegexp]]]]"

definition ReferenceRegexp :: rexp where
  "ReferenceRegexp =
     expression [capture 1 [NameRegexp], optional [lit (CHR '':''), capture 2 [TagRegexp]],
       optional [lit (CHR ''@''), capture 3 [DigestRegexp]]]"

definition IdentifierRegexp :: rexp where
  "IdentifierRegexp = Cap 1 (exactly 64 (Cls is_lower_hex))"

definition ShortIdentifierRegexp :: rexp where
  "ShortIdentifierRegexp = Cap 1 (Seq (exactly 6 (Cls is_lower_hex)) (upto_of 58 (Cls is_lower_hex)))"

section \<open>References: \<open>reference.go\<close>\<close>

datatype ref_error =
    ErrReferenceInvalidFormat
  | ErrTagInvalidFormat
  | RefDigestInvalidFormat
  | ErrNameContainsUppercase
  | ErrNameEmpty
  | ErrNameTooLong
  | ErrNameNotCanonical
  | DigestParse digest_error
  | HexIdentifier string
  | NotLowercase
  | HasNoName string

definition NameTotalLengthMax :: nat where
  "NameTotalLengthMax = 255"

record repository =
  domain :: string
  path :: string

text \<open>
  The values of the interface \<open>Reference\<close>: \<open>repository\<close>, \<open>taggedReference\<close>, \<open>canonicalReference\<close>,
  \<open>reference\<close> and \<open>digestReference\<close>. All but the last implement \<open>Named\<close> and \<open>namedRepository\<close>.
\<close>

datatype reference =
    Repository repository
  | TaggedReference repository string
  | CanonicalReference repository digest
  | FullReference repository string digest
  | DigestReference digest

definition repo_Name :: "repository \<Rightarrow> string" where
  "repo_Name r = (if domain r = [] then path r else domain r @ ''/'' @ path r)"

fun ref_String :: "reference \<Rightarrow> string" where
  "ref_String (Repository r) = repo_Name r"
| "ref_String (TaggedReference r tag) = repo_Name r @ '':'' @ tag"
| "ref_String (CanonicalReference r d) = repo_Name r @ ''@'' @ d"
| "ref_String (FullReference r tag d) = repo_Name r @ '':'' @ tag @ ''@'' @ d"
| "ref_String (DigestReference d) = d"

fun ref_repo :: "reference \<Rightarrow> repository option" where
  "ref_repo (Repository r) = Some r"
| "ref_repo (TaggedReference r tag) = Some r"
| "ref_repo (CanonicalReference r d) = Some r"
| "ref_repo (FullReference r tag d) = Some r"
| "ref_repo (DigestReference d) = None"

fun ref_Tag :: "reference \<Rightarrow> string option" where
  "ref_Tag (TaggedReference r tag) = Some tag"
| "ref_Tag (FullReference r tag d) = Some tag"
| "ref_Tag _ = None"

fun ref_Digest :: "reference \<Rightarrow> digest option" where
  "ref_Digest (CanonicalReference r d) = Some d"
| "ref_Digest (FullReference r tag d) = Some d"
| "ref_Digest (DigestReference d) = Some d"
| "ref_Digest _ = None"

definition splitDomain :: "string \<Rightarrow> string \<times> string" where
  "splitDomain name =
     (case find_submatch anchoredNameRegexp name of
        None \<Rightarrow> ([], name)
      | Some m \<Rightarrow> (group m 1, group m 2))"

text \<open>The fields of the unexported struct \<open>reference\<close> that \<open>Parse\<close> fills in.\<close>

definition getBestReferenceType :: "repository \<Rightarrow> string \<Rightarrow> digest \<Rightarrow> reference option" where
  "getBestReferenceType repo tag d =
     (if repo_Name repo = [] then (if d \<noteq> [] then Some (DigestReference d) else None)
      else if tag = [] then
        (if d \<noteq> [] then Some (CanonicalReference repo d) else Some (Repository repo))
      else if d = [] then Some (TaggedReference repo tag)
      else Some (FullReference repo tag d))"

definition Parse :: "digest_pkg \<Rightarrow> (string \<Rightarrow> string) \<Rightarrow> string \<Rightarrow> ref_error + reference" where
  "Parse P uni s =
     (case find_submatch ReferenceRegexp s of
        None \<Rightarrow>
          Inl (if s = [] then ErrNameEmpty
               else if find_submatch ReferenceRegexp (to_lower uni s) \<noteq> None then ErrNameContainsUppercase
               else ErrReferenceInvalidFormat)
      | Some m \<Rightarrow>
          if length (group m 1) > NameTotalLengthMax then Inl ErrNameTooLong
          else
            let repo =
                  (case find_submatch anchoredNameRegexp (group m 1) of
                     Some nm \<Rightarrow> \<lparr>domain = group nm 1, path = group nm 2\<rparr>
                   | None \<Rightarrow> \<lparr>domain = [], path = group m 1\<rparr>);
                (d, err) = (if group m 3 \<noteq> [] then dg_parse P (group m 3) else ([], None))
            in case err of
                 Some e \<Rightarrow> Inl (DigestParse e)
               | None \<Rightarrow>
                   (case getBestReferenceType repo (group m 2) d of
                      None \<Rightarrow> Inl ErrNameEmpty
                    | Some r \<Rightarrow> Inr r))"

definition WithName :: "string \<Rightarrow> ref_error + reference" where
  "WithName name =
     (if length name > NameTotalLengthMax then Inl ErrNameTooLong
      else
        case find_submatch anchoredNameRegexp name of
          None \<Rightarrow> Inl ErrReferenceInvalidFormat
        | Some m \<Rightarrow> Inr (Repository \<lparr>domain = group m 1, path = group m 2\<rparr>))"

text \<open>
  \<open>WithTag\<close> and \<open>WithDigest\<close> take a \<open>Named\<close>; a \<open>DigestReference\<close> is not one, so the model keeps
  it unchanged there.
\<close>

definition WithTag :: "reference \<Rightarrow> string \<Rightarrow> ref_error + reference" where
  "WithTag name tag =
     (if \<not> match_string TagRegexp tag then Inl ErrTagInvalidFormat
      else
        case name of
          CanonicalReference repo d \<Rightarrow> Inr (FullReference repo tag d)
        | FullReference repo _ d \<Rightarrow> Inr (FullReference repo tag d)
        | Repository repo \<Rightarrow> Inr (TaggedReference repo tag)
        | TaggedReference repo _ \<Rightarrow> Inr (TaggedReference repo tag)
        | DigestReference d \<Rightarrow> Inr (DigestReference d))"

definition WithDigest :: "reference \<Rightarrow> digest \<Rightarrow> ref_error + reference" where
  "WithDigest name d =
     (if \<not> match_string DigestRegexp d then Inl RefDigestInvalidFormat
      else
        case name of
          TaggedReference repo tag \<Rightarrow> Inr (FullReference repo tag d)
        | FullReference repo tag _ \<Rightarrow> Inr (FullReference repo tag d)
        | Repository repo \<Rightarrow> Inr (CanonicalReference repo d)
        | CanonicalReference repo _ \<Rightarrow> Inr (CanonicalReference repo d)
        | DigestReference d' \<Rightarrow> Inr (DigestReference d'))"

text \<open>\<open>Domain\<close>, \<open>Path\<close> and \<open>SplitHostname\<close>: every \<open>Named\<close> value is a \<open>namedRepository\<close>.\<close>

definition SplitHostname :: "reference \<Rightarrow> (string \<times> string) option" where
  "SplitHostname r = map_option (\<lambda>repo. (domain repo, path repo)) (ref_repo r)"

definition TrimNamed :: "reference \<Rightarrow> reference" where
  "TrimNamed r =
     (case SplitHostname r of Some (d, p) \<Rightarrow> Repository \<lparr>domain = d, path = p\<rparr> | None \<Rightarrow> r)"

text \<open>\<open>Field\<close> wraps a reference for encoding; \<open>UnmarshalText\<close> leaves it alone on an error.\<close>

definition MarshalText :: "reference \<Rightarrow> bytes" where
  "MarshalText f = ref_String f"

definition UnmarshalText ::
    "digest_pkg \<Rightarrow> (string \<Rightarrow> string) \<Rightarrow> reference \<Rightarrow> bytes \<Rightarrow> ref_error option \<times> reference" where
  "UnmarshalText P uni f p = (case Parse P uni p of Inl e \<Rightarrow> (Some e, f) | Inr r \<Rightarrow> (None, r))"

section \<open>Docker names: \<open>normalize.go\<close> and \<open>helpers.go\<close>\<close>

definition legacyDefaultDomain :: string where "legacyDefaultDomain = ''index.docker.io''"
definition defaultDomain :: string where "defaultDomain = ''docker.io''"
definition officialRepoName :: string where "officialRepoName = ''library''"
definition defaultTag :: string where "defaultTag = ''latest''"

definition default_part :: "string \<Rightarrow> bool" where
  "default_part pre \<longleftrightarrow> CHR ''.'' \<notin> set pre \<and> CHR '':'' \<notin> set pre \<and> pre \<noteq> ''localhost''"

definition splitDockerDomain :: "string \<Rightarrow> string \<times> string" where
  "splitDockerDomain name =
     (let (dm, rest) =
            (case index_of slash name of
               None \<Rightarrow> (defaultDomain, name)
             | Some i \<Rightarrow>
                 if default_part (take i name) then (defaultDomain, name)
                 else (take i name, drop (Suc i) name));
          dm = (if dm = legacyDefaultDomain then defaultDomain else dm);
          rest = (if dm = defaultDomain \<and> slash \<notin> set rest then officialRepoName @ ''/'' @ rest
                  else rest)
      in (dm, rest))"

definition ParseNormalizedNamed ::
    "digest_pkg \<Rightarrow> (string \<Rightarrow> string) \<Rightarrow> string \<Rightarrow> ref_error + reference" where
  "ParseNormalizedNamed P uni s =
     (if match_string IdentifierRegexp s then Inl (HexIdentifier s)
      else
        let (dm, remainder) = splitDockerDomain s;
            remoteName = (case index_of (CHR '':'') remainder of
                            Some tagSep \<Rightarrow> take tagSep remainder | None \<Rightarrow> remainder)
        in if to_lower uni remoteName \<noteq> remoteName then Inl NotLowercase
           else
             case Parse P uni (dm @ ''/'' @ remainder) of
               Inl e \<Rightarrow> Inl e
             | Inr r \<Rightarrow>
                 (case ref_repo r of None \<Rightarrow> Inl (HasNoName (ref_String r)) | Some _ \<Rightarrow> Inr r))"

definition ParseNamed :: "digest_pkg \<Rightarrow> (string \<Rightarrow> string) \<Rightarrow> string \<Rightarrow> ref_error + reference" where
  "ParseNamed P uni s =
     (case ParseNormalizedNamed P uni s of
        Inl e \<Rightarrow> Inl e
      | Inr named \<Rightarrow> if ref_String named \<noteq> s then Inl ErrNameNotCanonical else Inr named)"

definition familiarizeName :: "repository \<Rightarrow> repository" where
  "familiarizeName named =
     (if domain named = defaultDomain then
        \<lparr>domain = [],
         path = (case split_on slash (path named) of
                   [a, b] \<Rightarrow> if a = officialRepoName then b else path named
                 | _ \<Rightarrow> path named)\<rparr>
      else named)"

fun Familiar :: "reference \<Rightarrow> reference" where
  "Familiar (Repository r) = Repository (familiarizeName r)"
| "Familiar (TaggedReference r tag) = TaggedReference (familiarizeName r) tag"
| "Familiar (CanonicalReference r d) = CanonicalReference (familiarizeName r) d"
| "Familiar (FullReference r tag d) = FullReference (familiarizeName r) tag d"
| "Familiar (DigestReference d) = DigestReference d"

definition IsNameOnly :: "reference \<Rightarrow> bool" where
  "IsNameOnly r \<longleftrightarrow> ref_Tag r = None \<and> ref_Digest r = None"

text \<open>\<open>TagNameOnly\<close>: \<open>None\<close> is the panic the code reserves for an invalid default tag.\<close>

definition TagNameOnly :: "reference \<Rightarrow> reference option" where
  "TagNameOnly r =
     (if IsNameOnly r then (case WithTag r defaultTag of Inl _ \<Rightarrow> None | Inr t \<Rightarrow> Some t) else Some r)"

definition FamiliarName :: "reference \<Rightarrow> string option" where
  "FamiliarName r = map_option repo_Name (ref_repo (Familiar r))"

definition FamiliarString :: "reference \<Rightarrow> string" where
  "FamiliarString r = ref_String (Familiar r)"

definition ParseAnyReference ::
    "digest_pkg \<Rightarrow> (string \<Rightarrow> string) \<Rightarrow> string \<Rightarrow> ref_error + reference" where
  "ParseAnyReference P uni s =
     (if match_string IdentifierRegexp s then Inr (DigestReference (''sha256:'' @ s))
      else
        case dg_parse P s of
          (d, None) \<Rightarrow> Inr (DigestReference d)
        | (_, Some _) \<Rightarrow> ParseNormalizedNamed P uni s)"

definition ParseAnyReferenceWithSet ::
    "digest_pkg \<Rightarrow> (string \<Rightarrow> string) \<Rightarrow> string \<Rightarrow> digestEntries \<Rightarrow> ref_error + reference" where
  "ParseAnyReferenceWithSet P uni s ds =
     (if match_string ShortIdentifierRegexp s then
        (case Set_Lookup P ds s of
           Inr d \<Rightarrow> Inr (DigestReference d)
         | Inl _ \<Rightarrow> ParseNormalizedNamed P uni s)
      else
        case dg_parse P s of
          (d, None) \<Rightarrow> Inr (DigestReference d)
        | (_, Some _) \<Rightarrow> ParseNormalizedNamed P uni s)"

section \<open>Facts about the grammar\<close>

definition pathRegexp :: rexp where
  "pathRegexp = expression [nameComponentRegexp, optional [repeated [lit slash, nameComponentRegexp]]]"

lemmas regexp_defs = NameRegexp_def anchoredNameRegexp_def ReferenceRegexp_def pathRegexp_def
  DomainRegexp_def domainComponentRegexp_def nameComponentRegexp_def separatorRegexp_def
  alphaNumericRegexp_def TagRegexp_def DigestRegexp_def digest_component_def
  optional_def repeated_def capture_def

lemma no_caps_refs [simp]:
  "no_caps nameComponentRegexp" "no_caps DomainRegexp" "no_caps NameRegexp" "no_caps pathRegexp"
  "no_caps TagRegexp" "no_caps DigestRegexp"
  by (simp_all add: regexp_defs)

lemma lang_NameRegexp: "lang NameRegexp = lang anchoredNameRegexp"
  by (simp add: NameRegexp_def anchoredNameRegexp_def optional_def capture_def)

lemma name_component_start:
  "u \<in> lang nameComponentRegexp \<Longrightarrow> \<exists>x v. u = x # v \<and> is_lower_alnum x"
  by (auto simp: nameComponentRegexp_def alphaNumericRegexp_def)

lemma domain_start: "u \<in> lang DomainRegexp \<Longrightarrow> \<exists>x v. u = x # v \<and> is_alnum x"
  by (auto simp: DomainRegexp_def domainComponentRegexp_def)

lemma path_start: "u \<in> lang pathRegexp \<Longrightarrow> \<exists>x v. u = x # v \<and> is_lower_alnum x"
  by (auto simp: pathRegexp_def dest!: name_component_start)

lemma nonempty_words [simp]:
  "[] \<notin> lang nameComponentRegexp" "[] \<notin> lang DomainRegexp" "[] \<notin> lang pathRegexp"
  "[] \<notin> lang TagRegexp" "[] \<notin> lang DigestRegexp"
  using name_component_start [of "[]"] domain_start [of "[]"] path_start [of "[]"]
  by (auto simp: TagRegexp_def DigestRegexp_def digest_component_def elim!: concE)

lemma lang_tag: "u \<in> lang TagRegexp \<longleftrightarrow> u \<noteq> [] \<and> length u \<le> 128 \<and> is_word (hd u) \<and> list_all is_tag_char u"
  by (cases u) (auto simp: TagRegexp_def is_tag_char_def)

lemma re_chars_words:
  "re_chars nameComponentRegexp x \<longleftrightarrow> is_lower_alnum x \<or> x \<in> set ''._-''"
  "re_chars pathRegexp x \<longleftrightarrow> is_lower_alnum x \<or> x \<in> set ''._-/''"
  "re_chars DomainRegexp x \<longleftrightarrow> is_alnum x \<or> is_digit x \<or> x \<in> set ''.:-''"
  by (auto simp: regexp_defs)

lemma word_chars:
  "u \<in> lang nameComponentRegexp \<Longrightarrow> x \<in> set u \<Longrightarrow> is_lower_alnum x \<or> x \<in> set ''._-''"
  "u \<in> lang pathRegexp \<Longrightarrow> x \<in> set u \<Longrightarrow> is_lower_alnum x \<or> x \<in> set ''._-/''"
  "u \<in> lang DomainRegexp \<Longrightarrow> x \<in> set u \<Longrightarrow> is_alnum x \<or> x \<in> set ''.:-''"
  "u \<in> lang TagRegexp \<Longrightarrow> x \<in> set u \<Longrightarrow> is_tag_char x"
  using lang_chars [of u nameComponentRegexp x] lang_chars [of u pathRegexp x] lang_chars [of u DomainRegexp x]
  by (auto simp: re_chars_words lang_tag list_all_iff is_alnum_def)

lemma class_facts [simp]:
  "\<not> is_lower_alnum (CHR '':'')" "\<not> is_lower_alnum (CHR ''@'')" "\<not> is_lower_alnum (CHR ''/'')"
  "\<not> is_lower_alnum (CHR ''.'')"
  "\<not> is_alnum (CHR ''@'')" "\<not> is_alnum (CHR ''/'')" "\<not> is_alnum (CHR '':'')" "\<not> is_alnum (CHR ''.'')"
  "\<not> is_tag_char (CHR '':'')" "\<not> is_tag_char (CHR ''@'')" "\<not> is_tag_char (CHR ''/'')"
  by (simp_all add: char_class_defs)

lemma excluded_chars [simp]:
  "u \<in> lang pathRegexp \<Longrightarrow> CHR '':'' \<notin> set u" "u \<in> lang pathRegexp \<Longrightarrow> CHR ''@'' \<notin> set u"
  "u \<in> lang nameComponentRegexp \<Longrightarrow> CHR ''/'' \<notin> set u"
  "u \<in> lang DomainRegexp \<Longrightarrow> CHR ''@'' \<notin> set u" "u \<in> lang DomainRegexp \<Longrightarrow> CHR ''/'' \<notin> set u"
  "u \<in> lang TagRegexp \<Longrightarrow> CHR '':'' \<notin> set u" "u \<in> lang TagRegexp \<Longrightarrow> CHR ''@'' \<notin> set u"
  "u \<in> lang TagRegexp \<Longrightarrow> CHR ''/'' \<notin> set u"
  by (auto dest: word_chars)

text \<open>A name is a path, or a domain, a slash and a path.\<close>

lemma lang_anchored:
  "lang anchoredNameRegexp = lang pathRegexp \<union> conc (lang DomainRegexp) ((#) slash ` lang pathRegexp)"
  by (simp add: anchoredNameRegexp_def pathRegexp_def optional_def capture_def conc_insert conc_assoc)

lemma name_chars:
  assumes "n \<in> lang NameRegexp"
  shows "n \<noteq> []" "CHR ''@'' \<notin> set n" "n = a @ CHR '':'' # b \<Longrightarrow> slash \<in> set b"
proof -
  from assms consider "n \<in> lang pathRegexp"
    | d p where "n = d @ slash # p" "d \<in> lang DomainRegexp" "p \<in> lang pathRegexp"
    unfolding lang_NameRegexp lang_anchored by auto
  then have "n \<noteq> [] \<and> CHR ''@'' \<notin> set n \<and> (n = a @ CHR '':'' # b \<longrightarrow> slash \<in> set b)"
  proof cases
    case 1
    then show ?thesis using excluded_chars(1) by fastforce
  next
    case 2
    have "slash \<in> set b" if "d @ slash # p = a @ CHR '':'' # b"
      using that excluded_chars(1) [OF 2(3)]
      by (auto simp: append_eq_append_conv2 append_eq_Cons_conv Cons_eq_append_conv)
    with 2 show ?thesis by auto
  qed
  then show "n \<noteq> []" "CHR ''@'' \<notin> set n" "n = a @ CHR '':'' # b \<Longrightarrow> slash \<in> set b" by auto
qed

section \<open>What the submatches are\<close>

text \<open>An optional part of the input, introduced by a literal, and its content.\<close>

definition opt_part :: "char \<Rightarrow> string set \<Rightarrow> string \<Rightarrow> string \<Rightarrow> bool" where
  "opt_part c L u w \<longleftrightarrow> u = [] \<and> w = [] \<or> u = c # w \<and> w \<in> L"

lemma trees_SeqE:
  assumes "(w, k) \<in> trees (Seq a b)"
  obtains u g v h where "w = u @ v" "k = h @ g" "(u, g) \<in> trees a" "(v, h) \<in> trees b"
  using assms by auto

lemma reference_submatch:
  assumes "find_submatch ReferenceRegexp s = Some m"
  obtains t d where "s = group m 1 @ t @ d" "group m 1 \<in> lang NameRegexp"
    "opt_part (CHR '':'') (lang TagRegexp) t (group m 2)"
    "opt_part (CHR ''@'') (lang DigestRegexp) d (group m 3)"
proof -
  obtain g where g: "(s, g) \<in> trees ReferenceRegexp" "m = map_of g"
    using assms by (rule find_submatch_tree)
  have "ReferenceRegexp = Seq (Cap 1 NameRegexp) (Seq (opt (Seq (lit (CHR '':'')) (Cap 2 TagRegexp)))
      (opt (Seq (lit (CHR ''@'')) (Cap 3 DigestRegexp))))"
    by (simp add: ReferenceRegexp_def capture_def optional_def)
  from g(1) [unfolded this] obtain n gn t gt d gd where s: "s = n @ t @ d" and m: "g = (gd @ gt) @ gn"
    and n: "(n, gn) \<in> trees (Cap 1 NameRegexp)"
    and t: "(t, gt) \<in> trees (opt (Seq (lit (CHR '':'')) (Cap 2 TagRegexp)))"
    and d: "(d, gd) \<in> trees (opt (Seq (lit (CHR ''@'')) (Cap 3 DigestRegexp)))"
    by (elim trees_SeqE) (auto simp del: trees.simps)
  from n have n': "n \<in> lang NameRegexp" "gn = [(1, n)]" by (simp_all add: trees_cap_iff del: trees.simps)
  from t have t': "t = [] \<and> gt = [] \<or> (\<exists>w. t = CHR '':'' # w \<and> w \<in> lang TagRegexp \<and> gt = [(2, w)])"
    by (simp only: trees_opt_cap_iff no_caps_refs)
  from d have d': "d = [] \<and> gd = [] \<or> (\<exists>w. d = CHR ''@'' # w \<and> w \<in> lang DigestRegexp \<and> gd = [(3, w)])"
    by (simp only: trees_opt_cap_iff no_caps_refs)
  show thesis
  proof (rule that)
    show "s = group m 1 @ t @ d" "group m 1 \<in> lang NameRegexp"
      using s n' t' d' g(2) m by (auto simp: group_def)
    show "opt_part (CHR '':'') (lang TagRegexp) t (group m 2)"
      using n' t' d' g(2) m by (auto simp: opt_part_def group_def)
    show "opt_part (CHR ''@'') (lang DigestRegexp) d (group m 3)"
      using n' t' d' g(2) m by (auto simp: opt_part_def group_def)
  qed
qed

lemma name_submatch:
  assumes "find_submatch anchoredNameRegexp n = Some m"
  shows "group m 2 \<in> lang pathRegexp"
    and "group m 1 = [] \<and> n = group m 2 \<or> group m 1 \<in> lang DomainRegexp \<and> n = group m 1 @ slash # group m 2"
proof -
  obtain g where g: "(n, g) \<in> trees anchoredNameRegexp" "m = map_of g"
    using assms by (rule find_submatch_tree)
  have "anchoredNameRegexp = Seq (opt (Seq (Cap 1 DomainRegexp) (lit slash))) (Cap 2 pathRegexp)"
    by (simp add: anchoredNameRegexp_def pathRegexp_def capture_def optional_def)
  from g(1) [unfolded this] obtain d gd p gp where n: "n = d @ p" and m: "g = gp @ gd"
    and d: "(d, gd) \<in> trees (opt (Seq (Cap 1 DomainRegexp) (lit slash)))"
    and p: "(p, gp) \<in> trees (Cap 2 pathRegexp)"
    by (elim trees_SeqE) (auto simp del: trees.simps)
  from p have p': "p \<in> lang pathRegexp" "gp = [(2, p)]" by (simp_all add: trees_cap_iff del: trees.simps)
  from d have d': "d = [] \<and> gd = [] \<or> (\<exists>w. d = w @ [slash] \<and> w \<in> lang DomainRegexp \<and> gd = [(1, w)])"
    by (auto simp: opt_def lit_def trees_cap_iff simp del: trees.simps(6))
  show "group m 2 \<in> lang pathRegexp"
    using p' d' g(2) m by (auto simp: group_def)
  show "group m 1 = [] \<and> n = group m 2 \<or> group m 1 \<in> lang DomainRegexp \<and> n = group m 1 @ slash # group m 2"
    using n p' d' g(2) m by (auto simp: group_def)
qed

text \<open>The name, the tag and the digest of a reference are determined by the string.\<close>

lemma append_at_unique:
  assumes "x @ d = y @ e" "c \<notin> set x" "c \<notin> set y" "d = [] \<or> hd d = c" "e = [] \<or> hd e = c"
  shows "x = y \<and> d = e"
proof -
  have "takeWhile (\<lambda>a. a \<noteq> c) (x @ d) = x" if "c \<notin> set x" "d = [] \<or> hd d = c" for x d
  proof (cases d)
    case Nil
    with that show ?thesis by (simp add: takeWhile_eq_all_conv) blast
  next
    case (Cons a as)
    with that have "takeWhile (\<lambda>a. a \<noteq> c) (x @ d) = x @ takeWhile (\<lambda>a. a \<noteq> c) d"
      by (intro takeWhile_append2) auto
    with Cons that(2) show ?thesis by simp
  qed
  from this [of x d] this [of y e] assms show ?thesis by simp
qed

lemma opt_part_hd: "opt_part c L u w \<Longrightarrow> u = [] \<or> hd u = c"
  by (auto simp: opt_part_def)

lemma opt_part_content: "opt_part c L u w \<Longrightarrow> opt_part c L u w' \<Longrightarrow> [] \<notin> L \<Longrightarrow> w = w'"
  by (auto simp: opt_part_def)

lemma opt_part_tag_chars:
  "opt_part (CHR '':'') (lang TagRegexp) t w \<Longrightarrow> CHR ''@'' \<notin> set t \<and> slash \<notin> set t"
  by (auto simp: opt_part_def)

lemma name_tag_unique:
  assumes "n @ t = n' @ t'" "n \<in> lang NameRegexp" "n' \<in> lang NameRegexp"
    "opt_part (CHR '':'') (lang TagRegexp) t w" "opt_part (CHR '':'') (lang TagRegexp) t' w'"
  shows "n = n' \<and> t = t'"
proof -
  have no: "us = []"
    if "n' = n @ us" "us @ t' = t" "opt_part (CHR '':'') (lang TagRegexp) t w" "n' \<in> lang NameRegexp"
    for n n' us t t' w
  proof (rule ccontr)
    assume "us \<noteq> []"
    with that(2) opt_part_hd [OF that(3)] obtain v where us: "us = CHR '':'' # v" by (cases us) auto
    with name_chars(3) [OF that(4), of n v] that(1) have "slash \<in> set v" by simp
    with opt_part_tag_chars [OF that(3)] that(2) us show False by auto
  qed
  from assms(1) consider us where "n = n' @ us" "us @ t = t'" | us where "n' = n @ us" "us @ t' = t"
    by (auto simp: append_eq_append_conv2)
  then show ?thesis
  proof cases
    case (1 us)
    then show ?thesis using no [OF 1 assms(5,2)] by simp
  next
    case (2 us)
    then show ?thesis using no [OF 2 assms(4,3)] by simp
  qed
qed

lemma reference_parts_unique:
  assumes "n @ t @ d = n' @ t' @ d'" "n \<in> lang NameRegexp" "n' \<in> lang NameRegexp"
    "opt_part (CHR '':'') (lang TagRegexp) t w" "opt_part (CHR '':'') (lang TagRegexp) t' w'"
    "opt_part (CHR ''@'') (lang DigestRegexp) d v" "opt_part (CHR ''@'') (lang DigestRegexp) d' v'"
  shows "n = n' \<and> w = w' \<and> v = v'"
proof -
  have "n @ t = n' @ t' \<and> d = d'"
    by (rule append_at_unique [where c = "CHR ''@''"])
      (use assms name_chars(2) opt_part_tag_chars opt_part_hd in auto)
  then have "n = n' \<and> t = t' \<and> d = d'" using name_tag_unique assms(2-5) by blast
  then show ?thesis using opt_part_content assms(4-7) nonempty_words by blast
qed

section \<open>The parser and the printer\<close>

text \<open>A repository whose two fields are what the grammar makes of its full name.\<close>

definition wf_repo :: "repository \<Rightarrow> bool" where
  "wf_repo r \<longleftrightarrow> match_string anchoredNameRegexp (repo_Name r) \<and> length (repo_Name r) \<le> NameTotalLengthMax
     \<and> splitDomain (repo_Name r) = (domain r, path r)"

definition wf_tag :: "string \<Rightarrow> bool" where
  "wf_tag tag \<longleftrightarrow> match_string TagRegexp tag"

definition wf_digest :: "digest_pkg \<Rightarrow> digest \<Rightarrow> bool" where
  "wf_digest P d \<longleftrightarrow> match_string DigestRegexp d \<and> dg_validate P d = None"

fun wf_ref :: "digest_pkg \<Rightarrow> reference \<Rightarrow> bool" where
  "wf_ref P (Repository r) = wf_repo r"
| "wf_ref P (TaggedReference r tag) = (wf_repo r \<and> wf_tag tag)"
| "wf_ref P (CanonicalReference r d) = (wf_repo r \<and> wf_digest P d)"
| "wf_ref P (FullReference r tag d) = (wf_repo r \<and> wf_tag tag \<and> wf_digest P d)"
| "wf_ref P (DigestReference d) = False"

definition name_repo :: "string \<Rightarrow> repository" where
  "name_repo n = (case splitDomain n of (d, p) \<Rightarrow> \<lparr>domain = d, path = p\<rparr>)"

lemma name_repo_Name: "n \<in> lang NameRegexp \<Longrightarrow> repo_Name (name_repo n) = n"
  using name_submatch(2) [of n] find_submatch_None [of anchoredNameRegexp n]
  by (auto simp: name_repo_def splitDomain_def repo_Name_def lang_NameRegexp split: option.splits)

lemma wf_name_repo:
  "n \<in> lang NameRegexp \<Longrightarrow> length n \<le> NameTotalLengthMax \<Longrightarrow> wf_repo (name_repo n)"
  using name_repo_Name [of n]
  by (auto simp: wf_repo_def match_string_iff lang_NameRegexp) (simp add: name_repo_def split: prod.split)

lemma wf_repoD:
  assumes "wf_repo r"
  shows "repo_Name r \<in> lang NameRegexp" "length (repo_Name r) \<le> NameTotalLengthMax"
    "name_repo (repo_Name r) = r"
  using assms by (auto simp: wf_repo_def match_string_iff lang_NameRegexp name_repo_def)

lemma wf_repo_path: "wf_repo r \<Longrightarrow> path r \<in> lang pathRegexp"
  using name_submatch(1) [of "repo_Name r"] find_submatch_None [of anchoredNameRegexp "repo_Name r"]
  by (auto simp: wf_repo_def match_string_iff splitDomain_def split: option.splits)

lemma wf_repo_domain: "wf_repo r \<Longrightarrow> domain r = [] \<or> domain r \<in> lang DomainRegexp"
  using name_submatch(2) [of "repo_Name r"] find_submatch_None [of anchoredNameRegexp "repo_Name r"]
  by (auto simp: wf_repo_def match_string_iff splitDomain_def split: option.splits)

lemma lang_reference:
  assumes "n \<in> lang NameRegexp" "opt_part (CHR '':'') (lang TagRegexp) t w"
    "opt_part (CHR ''@'') (lang DigestRegexp) d v"
  shows "n @ t @ d \<in> lang ReferenceRegexp"
proof -
  have "lang ReferenceRegexp = conc (lang NameRegexp)
      (conc (insert [] ((#) (CHR '':'') ` lang TagRegexp)) (insert [] ((#) (CHR ''@'') ` lang DigestRegexp)))"
    by (simp add: ReferenceRegexp_def capture_def optional_def)
  with assms show ?thesis by (auto simp: opt_part_def intro!: concI)
qed

text \<open>The whole behaviour of \<open>Parse\<close> on a string that the grammar accepts.\<close>

lemma Parse_parts:
  assumes P: "parse_validates P"
    and n: "n \<in> lang NameRegexp" and t: "opt_part (CHR '':'') (lang TagRegexp) t w"
    and d: "opt_part (CHR ''@'') (lang DigestRegexp) d v"
  shows "Parse P uni (n @ t @ d) =
    (if length n > NameTotalLengthMax then Inl ErrNameTooLong
     else case (if v = [] then None else dg_validate P v) of
       Some e \<Rightarrow> Inl (DigestParse e)
     | None \<Rightarrow> Inr (if w = [] then if v = [] then Repository (name_repo n) else CanonicalReference (name_repo n) v
                   else if v = [] then TaggedReference (name_repo n) w else FullReference (name_repo n) w v))"
proof -
  obtain m where m: "find_submatch ReferenceRegexp (n @ t @ d) = Some m"
    using find_submatch_None [of ReferenceRegexp "n @ t @ d"] lang_reference [OF n t d] by blast
  then obtain t' d' where p: "n @ t @ d = group m 1 @ t' @ d'" "group m 1 \<in> lang NameRegexp"
    "opt_part (CHR '':'') (lang TagRegexp) t' (group m 2)" "opt_part (CHR ''@'') (lang DigestRegexp) d' (group m 3)"
    by (rule reference_submatch)
  have g: "group m 1 = n" "group m 2 = w" "group m 3 = v"
    using reference_parts_unique [OF p(1) n p(2) t p(3) d p(4)] by simp_all
  have repo: "(case find_submatch anchoredNameRegexp n of
      None \<Rightarrow> \<lparr>domain = [], path = n\<rparr> | Some nm \<Rightarrow> \<lparr>domain = group nm 1, path = group nm 2\<rparr>) = name_repo n"
    by (simp add: name_repo_def splitDomain_def split: option.split)
  show ?thesis
    unfolding Parse_def m option.case g repo
    by (simp add: getBestReferenceType_def name_repo_Name [OF n] name_chars(1) [OF n]
        dg_parse_eq [OF P] Let_def split: option.split)
qed

lemma Parse_no_match: "s \<notin> lang ReferenceRegexp \<Longrightarrow> \<exists>e. Parse P uni s = Inl e"
  using find_submatch_None [of ReferenceRegexp s] by (simp add: Parse_def)

lemma ref_partsI:
  assumes "wf_ref P r"
  obtains n t w d v where "ref_String r = n @ t @ d" "n \<in> lang NameRegexp"
    "opt_part (CHR '':'') (lang TagRegexp) t w" "opt_part (CHR ''@'') (lang DigestRegexp) d v"
    "length n \<le> NameTotalLengthMax" "v = [] \<or> dg_validate P v = None"
    "r = (if w = [] then if v = [] then Repository (name_repo n) else CanonicalReference (name_repo n) v
          else if v = [] then TaggedReference (name_repo n) w else FullReference (name_repo n) w v)"
proof -
  have T: "opt_part (CHR '':'') (lang TagRegexp) (CHR '':'' # tag) tag" "tag \<noteq> []" if "wf_tag tag" for tag
    using that nonempty_words(4) by (auto simp: wf_tag_def match_string_iff opt_part_def)
  have D: "opt_part (CHR ''@'') (lang DigestRegexp) (CHR ''@'' # d) d" "d \<noteq> []" "dg_validate P d = None"
    if "wf_digest P d" for d
    using that nonempty_words(5) by (auto simp: wf_digest_def match_string_iff opt_part_def)
  have N: "opt_part c L [] []" for c L by (simp add: opt_part_def)
  show thesis
  proof (cases r)
    case (Repository repo)
    with assms wf_repoD [of repo] show thesis by (intro that [OF _ _ N N]) auto
  next
    case (TaggedReference repo tag)
    with assms wf_repoD [of repo] T [of tag] show thesis by (intro that [OF _ _ T(1) N]) auto
  next
    case (CanonicalReference repo d)
    with assms wf_repoD [of repo] D [of d] show thesis by (intro that [OF _ _ N D(1)]) auto
  next
    case (FullReference repo tag d)
    with assms wf_repoD [of repo] T [of tag] D [of d] show thesis by (intro that [OF _ _ T(1) D(1)]) auto
  next
    case (DigestReference d)
    with assms show thesis by simp
  qed
qed

lemma Parse_iff:
  assumes P: "parse_validates P"
  shows "Parse P uni s = Inr r \<longleftrightarrow> wf_ref P r \<and> ref_String r = s"
proof
  assume r: "Parse P uni s = Inr r"
  then have "s \<in> lang ReferenceRegexp" using Parse_no_match [of s P uni] by fastforce
  then obtain m where "find_submatch ReferenceRegexp s = Some m"
    using find_submatch_None [of ReferenceRegexp s] by fastforce
  then obtain t d where p: "s = group m 1 @ t @ d" "group m 1 \<in> lang NameRegexp"
    "opt_part (CHR '':'') (lang TagRegexp) t (group m 2)" "opt_part (CHR ''@'') (lang DigestRegexp) d (group m 3)"
    by (rule reference_submatch)
  have w: "wf_tag (group m 2)" "t = CHR '':'' # group m 2" if "group m 2 \<noteq> []"
    using p(3) that by (auto simp: opt_part_def wf_tag_def match_string_iff)
  have v: "match_string DigestRegexp (group m 3)" "d = CHR ''@'' # group m 3" if "group m 3 \<noteq> []"
    using p(4) that by (auto simp: opt_part_def match_string_iff)
  have e: "t = []" if "group m 2 = []" using p(3) that by (auto simp: opt_part_def)
  have e': "d = []" if "group m 3 = []" using p(4) that by (auto simp: opt_part_def)
  from r Parse_parts [OF P p(2-4), of uni] p(1)
  have "length (group m 1) \<le> NameTotalLengthMax" "group m 3 \<noteq> [] \<longrightarrow> dg_validate P (group m 3) = None"
    "r = (if group m 2 = [] then if group m 3 = [] then Repository (name_repo (group m 1))
            else CanonicalReference (name_repo (group m 1)) (group m 3)
          else if group m 3 = [] then TaggedReference (name_repo (group m 1)) (group m 2)
          else FullReference (name_repo (group m 1)) (group m 2) (group m 3))"
    by (auto split: if_splits option.splits)
  then show "wf_ref P r \<and> ref_String r = s"
    using wf_name_repo [OF p(2)] name_repo_Name [OF p(2)] w v e e' p(1)
    by (auto simp: wf_digest_def)
next
  assume r: "wf_ref P r \<and> ref_String r = s"
  then obtain n t w d v where "ref_String r = n @ t @ d" "n \<in> lang NameRegexp"
    "opt_part (CHR '':'') (lang TagRegexp) t w" "opt_part (CHR ''@'') (lang DigestRegexp) d v"
    "length n \<le> NameTotalLengthMax" "v = [] \<or> dg_validate P v = None"
    "r = (if w = [] then if v = [] then Repository (name_repo n) else CanonicalReference (name_repo n) v
          else if v = [] then TaggedReference (name_repo n) w else FullReference (name_repo n) w v)"
    by (blast elim: ref_partsI)
  with r Parse_parts [OF P, of n t w d v uni] show "Parse P uni s = Inr r" by auto
qed

section \<open>Path components of a name\<close>

lemma path_components_aux:
  "v \<in> star_lang ((#) slash ` lang nameComponentRegexp) \<Longrightarrow> u \<in> lang nameComponentRegexp \<Longrightarrow>
     e \<in> set (split_on slash (u @ v)) \<Longrightarrow> e \<in> lang nameComponentRegexp"
proof (induction arbitrary: u e rule: star_lang.induct)
  case lang_nil
  then show ?case by simp
next
  case (lang_step w v)
  then obtain x where "w = slash # x" "x \<in> lang nameComponentRegexp" by blast
  with lang_step.prems lang_step.IH [of x e] show ?case by (auto simp: split_on_append)
qed

lemma path_components:
  assumes "p \<in> lang pathRegexp" "e \<in> set (split_on slash p)"
  shows "e \<in> lang nameComponentRegexp"
proof -
  from assms(1) obtain u v where "p = u @ v" "u \<in> lang nameComponentRegexp"
    "v = [] \<or> v \<in> conc ((#) slash ` lang nameComponentRegexp) (star_lang ((#) slash ` lang nameComponentRegexp))"
    by (auto simp: pathRegexp_def optional_def repeated_def simp del: lang_simps(1))
  moreover from this have "v \<in> star_lang ((#) slash ` lang nameComponentRegexp)"
    by (auto intro: star_lang.intros)
  ultimately show ?thesis using path_components_aux assms(2) by blast
qed

lemma name_component_plain: "e \<in> lang nameComponentRegexp \<Longrightarrow> plain e"
  using excluded_chars(3) name_component_start [of e] by (auto simp: plain_def)

lemma domain_plain: "e \<in> lang DomainRegexp \<Longrightarrow> plain e"
  using excluded_chars(5) domain_start [of e] by (auto simp: plain_def)

lemma name_elements_plain:
  assumes "n \<in> lang NameRegexp" "e \<in> set (split_on slash n)"
  shows "plain e"
proof -
  from assms(1) consider "n \<in> lang pathRegexp"
    | d p where "n = d @ slash # p" "d \<in> lang DomainRegexp" "p \<in> lang pathRegexp"
    unfolding lang_NameRegexp lang_anchored by auto
  then show ?thesis
  proof cases
    case 1
    then show ?thesis using path_components assms(2) name_component_plain by blast
  next
    case 2
    then have "e = d \<or> e \<in> set (split_on slash p)"
      using assms(2) excluded_chars(5) by (simp add: split_on_append)
    then show ?thesis using 2 path_components name_component_plain domain_plain by blast
  qed
qed

lemma path_clean_name: "n \<in> lang NameRegexp \<Longrightarrow> path_clean n = n"
  using path_clean_relative [of "split_on slash n"] name_elements_plain by simp

section \<open>Normalization\<close>

lemma splitDockerDomain_props:
  assumes "splitDockerDomain s = (dm, rest)"
  shows "slash \<notin> set dm" "\<not> default_part dm" "dm \<noteq> legacyDefaultDomain"
    "dm = defaultDomain \<Longrightarrow> slash \<in> set rest"
proof -
  have "\<not> default_part defaultDomain" "slash \<notin> set defaultDomain" "defaultDomain \<noteq> legacyDefaultDomain"
    by (simp_all add: default_part_def defaultDomain_def legacyDefaultDomain_def)
  moreover have "slash \<notin> set (take i s)" if "index_of slash s = Some i" for i
    using index_of_Some [OF that] by simp
  ultimately show "slash \<notin> set dm" "\<not> default_part dm" "dm \<noteq> legacyDefaultDomain"
    "dm = defaultDomain \<Longrightarrow> slash \<in> set rest"
    using assms by (auto simp: splitDockerDomain_def Let_def split: option.splits if_splits)
qed

lemma splitDockerDomain_qualified:
  assumes "slash \<notin> set dm" "\<not> default_part dm" "dm \<noteq> legacyDefaultDomain"
    "dm = defaultDomain \<Longrightarrow> slash \<in> set rest"
  shows "splitDockerDomain (dm @ ''/'' @ rest) = (dm, rest)"
  using assms index_of_append [of slash dm rest] by (auto simp: splitDockerDomain_def)

lemma slash_not_identifier:
  assumes "slash \<in> set s"
  shows "\<not> match_string IdentifierRegexp s"
proof -
  have "\<not> is_lower_hex slash" by (simp add: char_class_defs)
  with assms have "\<not> list_all is_lower_hex s" unfolding list_all_iff by blast
  then show ?thesis by (simp add: match_string_iff IdentifierRegexp_def)
qed

text \<open>The parts of a successful normalization.\<close>

lemma ParseNormalizedNamed_ok:
  assumes P: "parse_validates P" and ok: "ParseNormalizedNamed P uni s = Inr r"
  obtains dm rest where "splitDockerDomain s = (dm, rest)" "ref_String r = dm @ ''/'' @ rest" "wf_ref P r"
    "to_lower uni (case index_of (CHR '':'') rest of Some i \<Rightarrow> take i rest | None \<Rightarrow> rest)
       = (case index_of (CHR '':'') rest of Some i \<Rightarrow> take i rest | None \<Rightarrow> rest)"
proof -
  obtain dm rest where s: "splitDockerDomain s = (dm, rest)" by fastforce
  with ok have "Parse P uni (dm @ ''/'' @ rest) = Inr r"
    "to_lower uni (case index_of (CHR '':'') rest of Some i \<Rightarrow> take i rest | None \<Rightarrow> rest)
       = (case index_of (CHR '':'') rest of Some i \<Rightarrow> take i rest | None \<Rightarrow> rest)"
    by (auto simp: ParseNormalizedNamed_def Let_def split: if_splits sum.splits option.splits)
  with s show thesis using that Parse_iff [OF P] by blast
qed

lemma ParseNormalizedNamed_via:
  assumes P: "parse_validates P" and wf: "wf_ref P r" and str: "ref_String r = dm @ ''/'' @ rest"
    and split: "splitDockerDomain s = (dm, rest)" and id: "\<not> match_string IdentifierRegexp s"
    and low: "to_lower uni (case index_of (CHR '':'') rest of Some i \<Rightarrow> take i rest | None \<Rightarrow> rest)
       = (case index_of (CHR '':'') rest of Some i \<Rightarrow> take i rest | None \<Rightarrow> rest)"
  shows "ParseNormalizedNamed P uni s = Inr r"
proof -
  have "Parse P uni (dm @ ''/'' @ rest) = Inr r" using Parse_iff [OF P] wf str by blast
  moreover have "ref_repo r \<noteq> None" using wf by (cases r) auto
  ultimately show ?thesis using split id low by (auto simp: ParseNormalizedNamed_def)
qed

lemma normalized_again:
  assumes P: "parse_validates P" and ok: "ParseNormalizedNamed P uni s = Inr r"
  shows "ParseNormalizedNamed P uni (ref_String r) = Inr r"
proof -
  from assms obtain dm rest where p: "splitDockerDomain s = (dm, rest)" "ref_String r = dm @ ''/'' @ rest"
    "wf_ref P r" and low: "to_lower uni (case index_of (CHR '':'') rest of Some i \<Rightarrow> take i rest | None \<Rightarrow> rest)
       = (case index_of (CHR '':'') rest of Some i \<Rightarrow> take i rest | None \<Rightarrow> rest)"
    by (rule ParseNormalizedNamed_ok)
  have "splitDockerDomain (ref_String r) = (dm, rest)"
    unfolding p(2) by (rule splitDockerDomain_qualified) (rule splitDockerDomain_props [OF p(1)], assumption?)+
  then show ?thesis using p low by (intro ParseNormalizedNamed_via [OF P]) (auto simp: slash_not_identifier)
qed

text \<open>
  The familiar form of a name drops the default domain, so it can be read back only when what is
  left is not taken for a domain.
\<close>

definition familiar_ok :: "repository \<Rightarrow> bool" where
  "familiar_ok r \<longleftrightarrow>
     (let p = path (familiarizeName r) in slash \<in> set p \<longrightarrow> default_part (hd (split_on slash p)))"

fun ref_suffix :: "reference \<Rightarrow> string" where
  "ref_suffix (TaggedReference r tag) = '':'' @ tag"
| "ref_suffix (CanonicalReference r d) = ''@'' @ d"
| "ref_suffix (FullReference r tag d) = '':'' @ tag @ ''@'' @ d"
| "ref_suffix _ = []"

lemma ref_String_suffix:
  "ref_repo r = Some repo \<Longrightarrow> ref_String r = repo_Name repo @ ref_suffix r"
  "ref_repo r = Some repo \<Longrightarrow> FamiliarString r = repo_Name (familiarizeName repo) @ ref_suffix r"
  by (cases r; simp add: FamiliarString_def)+

lemma digest_no_slash:
  assumes "d \<in> lang DigestRegexp"
  shows "slash \<notin> set d"
proof -
  have ex: "\<not> re_chars (exactly n (Cls is_xdigit)) slash" for n
    by (induction n) (simp_all add: char_class_defs)
  have "\<not> re_chars DigestRegexp slash"
    using ex by (simp add: DigestRegexp_def digest_component_def char_class_defs)
  then show ?thesis using lang_chars [OF assms] by blast
qed

lemma suffix_no_slash: "wf_ref P r \<Longrightarrow> slash \<notin> set (ref_suffix r)"
  by (cases r) (auto simp: wf_tag_def wf_digest_def match_string_iff digest_no_slash)

lemma split_on_first: "slash \<in> set p \<Longrightarrow> \<exists>q. p = hd (split_on slash p) @ slash # q"
proof -
  assume "slash \<in> set p"
  then obtain i where "index_of slash p = Some i" using index_of_None by fastforce
  from index_of_Some [OF this] show ?thesis
    by (metis list.sel(1) split_on_append)
qed

lemma familiar_split:
  assumes dm: "domain repo = defaultDomain" and ok: "familiar_ok repo" and sl: "slash \<in> set (path repo)"
    and suf: "slash \<notin> set suf"
  shows "splitDockerDomain (path (familiarizeName repo) @ suf) = (defaultDomain, path repo @ suf)"
proof (cases "\<exists>b. split_on slash (path repo) = [officialRepoName, b]")
  case True
  then obtain b where b: "split_on slash (path repo) = [officialRepoName, b]" by blast
  have "path repo = officialRepoName @ ''/'' @ b" using join_split [of slash "path repo"] b by simp
  moreover have "path (familiarizeName repo) = b" using dm b by (simp add: familiarizeName_def)
  moreover have "slash \<notin> set b" using split_on_elems [of b slash "path repo"] b by simp
  ultimately show ?thesis
    using suf index_of_None [of slash "b @ suf"]
    by (simp add: splitDockerDomain_def defaultDomain_def legacyDefaultDomain_def)
next
  case False
  then have p: "path (familiarizeName repo) = path repo"
    using dm by (auto simp: familiarizeName_def split: list.split)
  obtain q where q: "path repo = hd (split_on slash (path repo)) @ slash # q"
    using split_on_first [OF sl] by blast
  let ?h = "hd (split_on slash (path repo))"
  have "slash \<notin> set ?h" by (rule split_on_elems [where s = "path repo"]) simp
  then have "index_of slash (path repo @ suf) = Some (length ?h)"
    using index_of_append [of slash ?h "q @ suf"] by (subst q) simp
  moreover have "take (length ?h) (path repo @ suf) = ?h" by (subst (2) q) simp
  moreover have "default_part ?h" using ok p sl by (simp add: familiar_ok_def)
  ultimately show ?thesis
    using p sl by (simp add: splitDockerDomain_def defaultDomain_def legacyDefaultDomain_def)
qed

lemma familiar_again:
  assumes P: "parse_validates P" and ok: "ParseNormalizedNamed P uni s = Inr r"
    and repo: "ref_repo r = Some repo" and fam: "familiar_ok repo"
    and id: "\<not> match_string IdentifierRegexp (FamiliarString r)"
  shows "ParseNormalizedNamed P uni (FamiliarString r) = Inr r"
proof (cases "domain repo = defaultDomain")
  case False
  then have "familiarizeName repo = repo" by (simp add: familiarizeName_def)
  then have "FamiliarString r = ref_String r" using ref_String_suffix [OF repo] by simp
  then show ?thesis using normalized_again [OF P ok] by simp
next
  case True
  from P ok obtain dm rest where p: "splitDockerDomain s = (dm, rest)" "ref_String r = dm @ ''/'' @ rest"
    "wf_ref P r" and low: "to_lower uni (case index_of (CHR '':'') rest of Some i \<Rightarrow> take i rest | None \<Rightarrow> rest)
       = (case index_of (CHR '':'') rest of Some i \<Rightarrow> take i rest | None \<Rightarrow> rest)"
    by (rule ParseNormalizedNamed_ok)
  have suf: "slash \<notin> set (ref_suffix r)" by (rule suffix_no_slash [OF p(3)])
  have "ref_String r = defaultDomain @ slash # (path repo @ ref_suffix r)"
    using ref_String_suffix(1) [OF repo] True by (simp add: repo_Name_def defaultDomain_def)
  with p(2) have "dm @ slash # rest = defaultDomain @ slash # (path repo @ ref_suffix r)" by simp
  then have dm: "dm = defaultDomain \<and> slash # rest = slash # (path repo @ ref_suffix r)"
    by (rule append_at_unique) (use splitDockerDomain_props(1) [OF p(1)] in \<open>simp_all add: defaultDomain_def\<close>)
  then have sl: "slash \<in> set (path repo)" using splitDockerDomain_props(4) [OF p(1)] suf by auto
  have "FamiliarString r = path (familiarizeName repo) @ ref_suffix r"
    using ref_String_suffix(2) [OF repo] True by (simp add: repo_Name_def familiarizeName_def)
  then have "splitDockerDomain (FamiliarString r) = (defaultDomain, path repo @ ref_suffix r)"
    using familiar_split [OF True fam sl suf] by simp
  then show ?thesis using dm p low id by (intro ParseNormalizedNamed_via [OF P]) auto
qed

text \<open>
  When what is left of a name of the default domain begins with something that reads as a domain, the
  familiar form names another repository.
\<close>

lemma familiar_other:
  assumes dm: "domain repo = defaultDomain" and bad: "\<not> familiar_ok repo"
    and suf: "slash \<notin> set suf" "slash \<notin> set suf'"
    and split: "splitDockerDomain (path (familiarizeName repo) @ suf) = (dm, rest)"
  shows "defaultDomain @ slash # (path repo @ suf') \<noteq> dm @ slash # rest"
proof
  assume eq: "defaultDomain @ slash # (path repo @ suf') = dm @ slash # rest"
  have sl: "slash \<in> set (path (familiarizeName repo))"
    and nd: "\<not> default_part (hd (split_on slash (path (familiarizeName repo))))"
    using bad by (auto simp: familiar_ok_def Let_def)
  have p: "path (familiarizeName repo) = path repo"
  proof (cases "\<exists>b. split_on slash (path repo) = [officialRepoName, b]")
    case True
    then obtain b where b: "split_on slash (path repo) = [officialRepoName, b]" by blast
    moreover have "slash \<notin> set b" using split_on_elems [of b slash "path repo"] b by simp
    ultimately show ?thesis using sl dm by (simp add: familiarizeName_def)
  next
    case False
    then show ?thesis using dm by (auto simp: familiarizeName_def split: list.split)
  qed
  let ?h = "hd (split_on slash (path repo))"
  obtain q where q: "path repo = ?h @ slash # q" using split_on_first [of "path repo"] sl p by auto
  have h: "slash \<notin> set ?h" by (rule split_on_elems [where s = "path repo"]) simp
  have "index_of slash (path repo @ suf) = Some (length ?h)"
    using index_of_append [OF h, of "q @ suf"] by (subst q) simp
  moreover have "take (length ?h) (path repo @ suf) = ?h" "drop (Suc (length ?h)) (path repo @ suf) = q @ suf"
    by (subst (2) q, simp)+
  ultimately have rest: "rest = (if dm = defaultDomain \<and> slash \<notin> set (q @ suf) then officialRepoName @ ''/'' @ q @ suf else q @ suf)"
    using split nd unfolding p by (auto simp: splitDockerDomain_def Let_def)
  have "dm = defaultDomain \<and> slash # rest = slash # (path repo @ suf')"
    by (rule append_at_unique [OF eq [symmetric]])
      (use splitDockerDomain_props(1) [OF split] in \<open>simp_all add: defaultDomain_def\<close>)
  then have e: "?h @ slash # (q @ suf') = rest" using q by (metis append.assoc append_Cons list.inject)
  show False
  proof (cases "dm = defaultDomain \<and> slash \<notin> set (q @ suf)")
    case True
    then have "?h @ slash # (q @ suf') = officialRepoName @ slash # (q @ suf)" using e rest by simp
    then have "?h = officialRepoName \<and> slash # (q @ suf') = slash # (q @ suf)"
      by (rule append_at_unique) (use h in \<open>simp_all add: officialRepoName_def\<close>)
    then show False using nd p by (simp add: officialRepoName_def default_part_def)
  next
    case False
    then have "?h @ slash # (q @ suf') = q @ suf" using e rest by auto
    moreover have "filter (\<lambda>c. c = slash) suf = []" using suf(1) by (auto simp: filter_empty_conv)
    ultimately have "length (filter (\<lambda>c. c = slash) (?h @ slash # (q @ suf'))) = length (filter (\<lambda>c. c = slash) q)"
      by (simp only: filter_append) simp
    then show False by simp
  qed
qed

section \<open>Properties\<close>

text \<open>
  C10. \<open>Parse\<close> and \<open>String\<close> are inverse to each other: \<open>Parse\<close> succeeds with a reference exactly when
  the reference is well formed (its name, tag and digest match the grammar, the name is at most 255
  bytes long, the digest validates) and prints as the parsed string.
\<close>

theorem parse_inverts_string:
  assumes "parse_validates P"
  shows "Parse P uni s = Inr r \<longleftrightarrow> wf_ref P r \<and> ref_String r = s"
  by (rule Parse_iff [OF assms])

theorem parse_inverts_string_witness:
  "parse_validates sample_pkg \<and>
   (Parse sample_pkg id ''host:5000/a.b/c:v1'' =
      Inr (TaggedReference \<lparr>domain = ''host:5000'', path = ''a.b/c''\<rparr> ''v1'')) \<and>
   wf_ref sample_pkg (TaggedReference \<lparr>domain = ''host:5000'', path = ''a.b/c''\<rparr> ''v1'')"
proof -
  have "Parse sample_pkg id ''host:5000/a.b/c:v1'' =
      Inr (TaggedReference \<lparr>domain = ''host:5000'', path = ''a.b/c''\<rparr> ''v1'')"
    by code_simp
  then show ?thesis
    using parse_inverts_string [of sample_pkg id "''host:5000/a.b/c:v1''"
        "TaggedReference \<lparr>domain = ''host:5000'', path = ''a.b/c''\<rparr> ''v1''"] by simp
qed

text \<open>
  C11. The repository path of every parsed reference is a sequence of plain path elements: none is
  empty, \<open>.\<close> or \<open>..\<close>, none holds a slash, and \<open>path.Clean\<close> leaves the full name unchanged, so a
  name cannot leave the directory it is joined to.
\<close>

theorem parsed_name_is_clean:
  assumes "parse_validates P" and "Parse P uni s = Inr r" and "ref_repo r = Some repo"
  shows "list_all plain (split_on slash (path repo)) \<and> path_clean (repo_Name repo) = repo_Name repo"
proof -
  have "wf_ref P r" using Parse_iff [OF assms(1)] assms(2) by blast
  then have wf: "wf_repo repo" using assms(3) by (cases r) auto
  then have "\<forall>e \<in> set (split_on slash (path repo)). plain e"
    using wf_repo_path path_components name_component_plain by blast
  then show ?thesis using path_clean_name wf_repoD(1) [OF wf] by (auto simp: list_all_iff)
qed

theorem parsed_name_is_clean_witness:
  "Parse sample_pkg id ''host/a.b/c'' = Inr (Repository \<lparr>domain = ''host'', path = ''a.b/c''\<rparr>) \<and>
   list_all plain (split_on slash ''a.b/c'')"
proof -
  have "Parse sample_pkg id ''host/a.b/c'' = Inr (Repository \<lparr>domain = ''host'', path = ''a.b/c''\<rparr>)"
    by code_simp
  then show ?thesis
    using parsed_name_is_clean [of sample_pkg id "''host/a.b/c''"
        "Repository \<lparr>domain = ''host'', path = ''a.b/c''\<rparr>" "\<lparr>domain = ''host'', path = ''a.b/c''\<rparr>"] by simp
qed

text \<open>
  C12. Normalization is canonical: the string of a normalized reference is accepted by \<open>ParseNamed\<close>,
  which demands the canonical form, and gives the same reference back.
\<close>

theorem normalized_is_canonical:
  assumes "parse_validates P" and "ParseNormalizedNamed P uni s = Inr r"
  shows "ParseNamed P uni (ref_String r) = Inr r"
  using normalized_again [OF assms] by (simp add: ParseNamed_def)

theorem normalized_is_canonical_witness:
  "ParseNormalizedNamed sample_pkg id ''ubuntu'' =
     Inr (Repository \<lparr>domain = ''docker.io'', path = ''library/ubuntu''\<rparr>) \<and>
   ParseNamed sample_pkg id ''docker.io/library/ubuntu'' =
     Inr (Repository \<lparr>domain = ''docker.io'', path = ''library/ubuntu''\<rparr>)"
proof -
  have "ParseNormalizedNamed sample_pkg id ''ubuntu'' =
     Inr (Repository \<lparr>domain = ''docker.io'', path = ''library/ubuntu''\<rparr>)"
    by code_simp
  then show ?thesis
    using normalized_is_canonical [of sample_pkg id "''ubuntu''"] by (simp add: repo_Name_def)
qed

text \<open>
  C13. The familiar string of a normalized reference is normalized back to that reference, provided
  the shortened path does not start with something that reads as a domain and the shortened string
  is not a 64-digit hexadecimal identifier.
\<close>

theorem familiar_roundtrip:
  assumes "parse_validates P" and "ParseNormalizedNamed P uni s = Inr r"
    and "ref_repo r = Some repo" and "familiar_ok repo"
    and "\<not> match_string IdentifierRegexp (FamiliarString r)"
  shows "ParseNormalizedNamed P uni (FamiliarString r) = Inr r"
  using assms by (rule familiar_again)

theorem familiar_roundtrip_witness:
  "FamiliarString (TaggedReference \<lparr>domain = ''docker.io'', path = ''library/redis''\<rparr> ''5'') = ''redis:5'' \<and>
   ParseNormalizedNamed sample_pkg id ''redis:5'' =
     Inr (TaggedReference \<lparr>domain = ''docker.io'', path = ''library/redis''\<rparr> ''5'')"
proof -
  let ?r = "TaggedReference \<lparr>domain = ''docker.io'', path = ''library/redis''\<rparr> ''5''"
  have "ParseNormalizedNamed sample_pkg id ''docker.io/library/redis:5'' = Inr ?r" by code_simp
  moreover have "familiar_ok \<lparr>domain = ''docker.io'', path = ''library/redis''\<rparr>"
    "\<not> match_string IdentifierRegexp (FamiliarString ?r)" "FamiliarString ?r = ''redis:5''"
    by code_simp+
  ultimately show ?thesis
    using familiar_roundtrip [of sample_pkg id "''docker.io/library/redis:5''" ?r] by simp
qed

text \<open>
  C14. Without that condition the familiar form names another repository: when a normalized reference is
  of the default domain and its shortened path begins with something that reads as a domain, and the
  familiar string is accepted, then it is read as a reference to a different repository.
\<close>

theorem familiar_changes_registry:
  assumes "parse_validates P" and "ParseNormalizedNamed P uni s = Inr r"
    and "ref_repo r = Some repo" and "domain repo = defaultDomain" and "\<not> familiar_ok repo"
    and "ParseNormalizedNamed P uni (FamiliarString r) = Inr r'"
  shows "ref_repo r' \<noteq> Some repo"
proof
  assume r': "ref_repo r' = Some repo"
  obtain dm rest where p: "splitDockerDomain (FamiliarString r) = (dm, rest)" "ref_String r' = dm @ ''/'' @ rest" "wf_ref P r'"
    by (rule ParseNormalizedNamed_ok [OF assms(1,6)])
  have "wf_ref P r" by (rule ParseNormalizedNamed_ok [OF assms(1,2)])
  note suf = suffix_no_slash [OF this] suffix_no_slash [OF p(3)]
  have "FamiliarString r = path (familiarizeName repo) @ ref_suffix r"
    using ref_String_suffix(2) [OF assms(3)] assms(4) by (simp add: repo_Name_def familiarizeName_def)
  moreover have "ref_String r' = defaultDomain @ slash # (path repo @ ref_suffix r')"
    using ref_String_suffix(1) [OF r'] assms(4) by (simp add: repo_Name_def defaultDomain_def)
  ultimately show False
    using familiar_other [OF assms(4,5) suf] p(1,2) by simp
qed

theorem familiar_changes_registry_witness:
  "ParseNormalizedNamed sample_pkg id ''docker.io/foo.bar/baz:1'' =
     Inr (TaggedReference \<lparr>domain = ''docker.io'', path = ''foo.bar/baz''\<rparr> ''1'') \<and>
   FamiliarString (TaggedReference \<lparr>domain = ''docker.io'', path = ''foo.bar/baz''\<rparr> ''1'') = ''foo.bar/baz:1'' \<and>
   ParseNormalizedNamed sample_pkg id ''foo.bar/baz:1'' =
     Inr (TaggedReference \<lparr>domain = ''foo.bar'', path = ''baz''\<rparr> ''1'') \<and>
   ref_repo (TaggedReference \<lparr>domain = ''foo.bar'', path = ''baz''\<rparr> ''1'') \<noteq>
     Some \<lparr>domain = ''docker.io'', path = ''foo.bar/baz''\<rparr>"
proof -
  let ?repo = "\<lparr>domain = ''docker.io'', path = ''foo.bar/baz''\<rparr>"
  let ?r = "TaggedReference ?repo ''1''"
  have r: "ParseNormalizedNamed sample_pkg id ''docker.io/foo.bar/baz:1'' = Inr ?r"
    and o: "ParseNormalizedNamed sample_pkg id ''foo.bar/baz:1'' = Inr (TaggedReference \<lparr>domain = ''foo.bar'', path = ''baz''\<rparr> ''1'')"
    and f: "\<not> familiar_ok ?repo" "FamiliarString ?r = ''foo.bar/baz:1''"
    by code_simp+
  have "ref_repo (TaggedReference \<lparr>domain = ''foo.bar'', path = ''baz''\<rparr> ''1'') \<noteq> Some ?repo"
    by (rule familiar_changes_registry [of sample_pkg id, OF _ r]) (use f o in \<open>simp_all add: defaultDomain_def\<close>)
  then show ?thesis using r o f(2) by blast
qed

end
