(* ===== verification/Driver.thy ===== *)
theory Driver
  imports Go_Regexp
begin

text \<open>
  The storage driver interface (\<open>registry/storage/driver/storagedriver.go\<close>), the checking wrapper
  that every driver is built with (\<open>registry/storage/driver/base/base.go\<close>) and the generic walk
  (\<open>registry/storage/driver/walk.go\<close>). A driver is a record of its methods over a state type
  \<open>'s\<close> and a type \<open>'w\<close> of open file writers: a method that only reads takes the state, one that
  writes returns the new state as well, also when it fails. The locale \<open>lawful_driver\<close> states what
  the registry relies on; the client theories prove their lemmas in it.
\<close>

section \<open>Errors, file information, the interface\<close>

text \<open>\<open>GoPanic\<close> stands for a run-time panic of the driver; no wrapper handles it.\<close>

datatype driver_error =
    ErrUnsupportedMethod string
  | PathNotFoundError string string
  | InvalidPathError string string
  | InvalidOffsetError string int string
  | StorageError string driver_error
  | PartialTransferError string string driver_error
  | ErrSkipDir
  | Errorf string
  | GoPanic string

record file_info =
  fi_path :: string
  fi_size :: nat
  fi_modtime :: nat
  fi_isdir :: bool

record ('s, 'w) storage_driver =
  Name :: string
  GetContent :: "'s \<Rightarrow> string \<Rightarrow> driver_error + bytes"
  PutContent :: "'s \<Rightarrow> string \<Rightarrow> bytes \<Rightarrow> 's \<times> driver_error option"
  Reader :: "'s \<Rightarrow> string \<Rightarrow> int \<Rightarrow> driver_error + bytes"
  Writer :: "'s \<Rightarrow> string \<Rightarrow> bool \<Rightarrow> 's \<times> (driver_error + 'w)"
  Stat :: "'s \<Rightarrow> string \<Rightarrow> driver_error + file_info"
  ListDir :: "'s \<Rightarrow> string \<Rightarrow> driver_error + string list"
  Move :: "'s \<Rightarrow> string \<Rightarrow> string \<Rightarrow> 's \<times> driver_error option"
  Delete :: "'s \<Rightarrow> string \<Rightarrow> 's \<times> driver_error option"
  DeleteFiles :: "'s \<Rightarrow> string list \<Rightarrow> 's \<times> nat \<times> driver_error option"
  URLFor :: "'s \<Rightarrow> string \<Rightarrow> driver_error + string"
  WriterWrite :: "'s \<Rightarrow> 'w \<Rightarrow> bytes \<Rightarrow> 's \<times> 'w \<times> (driver_error + nat)"
  WriterSize :: "'s \<Rightarrow> 'w \<Rightarrow> nat"
  WriterClose :: "'s \<Rightarrow> 'w \<Rightarrow> 's \<times> 'w \<times> driver_error option"
  WriterCancel :: "'s \<Rightarrow> 'w \<Rightarrow> 's \<times> 'w \<times> driver_error option"
  WriterCommit :: "'s \<Rightarrow> 'w \<Rightarrow> 's \<times> 'w \<times> driver_error option"

definition path_char :: "char \<Rightarrow> bool" where
  "path_char c \<longleftrightarrow> in_range (CHR ''A'') (CHR ''Z'') c \<or> in_range (CHR ''a'') (CHR ''z'') c
     \<or> in_range (CHR ''0'') (CHR ''9'') c \<or> c \<in> set ''._-''"

definition PathRegexp :: rexp where
  "PathRegexp = plus_of (Cap 1 (Seq (lit slash) (plus_of (Cls path_char))))"

section \<open>The base wrapper\<close>

fun setDriverName :: "string \<Rightarrow> driver_error \<Rightarrow> driver_error" where
  "setDriverName name (ErrUnsupportedMethod _) = ErrUnsupportedMethod name"
| "setDriverName name (PathNotFoundError p _) = PathNotFoundError p name"
| "setDriverName name (InvalidPathError p _) = InvalidPathError p name"
| "setDriverName name (InvalidOffsetError p off _) = InvalidOffsetError p off name"
| "setDriverName name (GoPanic msg) = GoPanic msg"
| "setDriverName name e = StorageError name e"

definition named_result :: "string \<Rightarrow> driver_error + 'a \<Rightarrow> driver_error + 'a" where
  "named_result name r = (case r of Inl e \<Rightarrow> Inl (setDriverName name e) | Inr x \<Rightarrow> Inr x)"

definition base_GetContent :: "('s, 'w) storage_driver \<Rightarrow> 's \<Rightarrow> string \<Rightarrow> driver_error + bytes" where
  "base_GetContent D s path =
     (if \<not> match_string PathRegexp path then Inl (InvalidPathError path (Name D))
      else named_result (Name D) (GetContent D s path))"

definition base_PutContent ::
    "('s, 'w) storage_driver \<Rightarrow> 's \<Rightarrow> string \<Rightarrow> bytes \<Rightarrow> 's \<times> driver_error option" where
  "base_PutContent D s path content =
     (if \<not> match_string PathRegexp path then (s, Some (InvalidPathError path (Name D)))
      else apsnd (map_option (setDriverName (Name D))) (PutContent D s path content))"

definition base_Reader :: "('s, 'w) storage_driver \<Rightarrow> 's \<Rightarrow> string \<Rightarrow> int \<Rightarrow> driver_error + bytes" where
  "base_Reader D s path off =
     (if off < 0 then Inl (InvalidOffsetError path off (Name D))
      else if \<not> match_string PathRegexp path then Inl (InvalidPathError path (Name D))
      else named_result (Name D) (Reader D s path off))"

definition base_Writer ::
    "('s, 'w) storage_driver \<Rightarrow> 's \<Rightarrow> string \<Rightarrow> bool \<Rightarrow> 's \<times> (driver_error + 'w)" where
  "base_Writer D s path app =
     (if \<not> match_string PathRegexp path then (s, Inl (InvalidPathError path (Name D)))
      else apsnd (named_result (Name D)) (Writer D s path app))"

definition base_Stat :: "('s, 'w) storage_driver \<Rightarrow> 's \<Rightarrow> string \<Rightarrow> driver_error + file_info" where
  "base_Stat D s path =
     (if \<not> match_string PathRegexp path \<and> path \<noteq> ''/'' then Inl (InvalidPathError path (Name D))
      else named_result (Name D) (Stat D s path))"

definition base_List :: "('s, 'w) storage_driver \<Rightarrow> 's \<Rightarrow> string \<Rightarrow> driver_error + string list" where
  "base_List D s path =
     (if \<not> match_string PathRegexp path \<and> path \<noteq> ''/'' then Inl (InvalidPathError path (Name D))
      else named_result (Name D) (ListDir D s path))"

definition base_Move ::
    "('s, 'w) storage_driver \<Rightarrow> 's \<Rightarrow> string \<Rightarrow> string \<Rightarrow> 's \<times> driver_error option" where
  "base_Move D s sourcePath destPath =
     (if \<not> match_string PathRegexp sourcePath then (s, Some (InvalidPathError sourcePath (Name D)))
      else if \<not> match_string PathRegexp destPath then (s, Some (InvalidPathError destPath (Name D)))
      else apsnd (map_option (setDriverName (Name D))) (Move D s sourcePath destPath))"

definition base_Delete :: "('s, 'w) storage_driver \<Rightarrow> 's \<Rightarrow> string \<Rightarrow> 's \<times> driver_error option" where
  "base_Delete D s path =
     (if \<not> match_string PathRegexp path then (s, Some (InvalidPathError path (Name D)))
      else apsnd (map_option (setDriverName (Name D))) (Delete D s path))"

definition base_URLFor :: "('s, 'w) storage_driver \<Rightarrow> 's \<Rightarrow> string \<Rightarrow> driver_error + string" where
  "base_URLFor D s path =
     (if \<not> match_string PathRegexp path then Inl (InvalidPathError path (Name D))
      else named_result (Name D) (URLFor D s path))"

text \<open>
  \<open>Base\<close> embeds the wrapped driver, so the methods it does not override (\<open>Name\<close>, \<open>DeleteFiles\<close>,
  those of the writers) are the driver's own.
\<close>

definition base_driver :: "('s, 'w) storage_driver \<Rightarrow> ('s, 'w) storage_driver" where
  "base_driver D = D\<lparr>GetContent := base_GetContent D, PutContent := base_PutContent D,
     Reader := base_Reader D, Writer := base_Writer D, Stat := base_Stat D, ListDir := base_List D,
     Move := base_Move D, Delete := base_Delete D, URLFor := base_URLFor D\<rparr>"

lemma base_driver_sel [simp]:
  "Name (base_driver D) = Name D" "GetContent (base_driver D) = base_GetContent D"
  "PutContent (base_driver D) = base_PutContent D" "Reader (base_driver D) = base_Reader D"
  "Writer (base_driver D) = base_Writer D" "Stat (base_driver D) = base_Stat D"
  "ListDir (base_driver D) = base_List D" "Move (base_driver D) = base_Move D"
  "Delete (base_driver D) = base_Delete D" "URLFor (base_driver D) = base_URLFor D"
  "DeleteFiles (base_driver D) = DeleteFiles D"
  by (simp_all add: base_driver_def)

section \<open>The generic walk\<close>

text \<open>
  A walk function reads and changes the state of the driver and a state of its own, and returns an
  error or nothing. \<open>ErrSkipDir\<close> asks to skip a directory or to stop at a file.
\<close>

type_synonym ('s, 'u) walk_fn = "file_info \<Rightarrow> 's \<times> 'u \<Rightarrow> ('s \<times> 'u) \<times> driver_error option"

fun walk_children ::
    "(string \<Rightarrow> 's \<times> 'u \<Rightarrow> (('s \<times> 'u) \<times> driver_error option) option) \<Rightarrow> ('s, 'w) storage_driver
     \<Rightarrow> ('s, 'u) walk_fn \<Rightarrow> string list \<Rightarrow> 's \<times> 'u \<Rightarrow> (('s \<times> 'u) \<times> driver_error option) option" where
  "walk_children rec D f [] st = Some (st, None)"
| "walk_children rec D f (child # children) st =
     (case Stat D (fst st) child of
        Inl (PathNotFoundError _ _) \<Rightarrow> walk_children rec D f children st
      | Inl e \<Rightarrow> Some (st, Some e)
      | Inr info \<Rightarrow>
          (case f info st of
             (st', None) \<Rightarrow>
               if fi_isdir info then
                 (case rec child st' of
                    None \<Rightarrow> None
                  | Some (st'', Some e) \<Rightarrow> Some (st'', Some e)
                  | Some (st'', None) \<Rightarrow> walk_children rec D f children st'')
               else walk_children rec D f children st'
           | (st', Some e) \<Rightarrow>
               if e = ErrSkipDir then
                 (if fi_isdir info then walk_children rec D f children st' else Some (st', None))
               else Some (st', Some e)))"

text \<open>The fuel bounds the depth of the recursion, not the number of entries.\<close>

fun WalkFallback ::
    "nat \<Rightarrow> ('s, 'w) storage_driver \<Rightarrow> ('s, 'u) walk_fn \<Rightarrow> string \<Rightarrow> 's \<times> 'u
     \<Rightarrow> (('s \<times> 'u) \<times> driver_error option) option" where
  "WalkFallback 0 D f start st = None"
| "WalkFallback (Suc n) D f start st =
     (case ListDir D (fst st) start of
        Inl e \<Rightarrow> Some (st, Some e)
      | Inr children \<Rightarrow> walk_children (WalkFallback n D f) D f (sort children) st)"

text \<open>\<open>Walk\<close> of the base wrapper, over a driver whose own \<open>Walk\<close> is \<open>WalkFallback\<close>.\<close>

definition base_Walk ::
    "nat \<Rightarrow> ('s, 'w) storage_driver \<Rightarrow> ('s, 'u) walk_fn \<Rightarrow> string \<Rightarrow> 's \<times> 'u
     \<Rightarrow> (('s \<times> 'u) \<times> driver_error option) option" where
  "base_Walk n D f path st =
     (if \<not> match_string PathRegexp path \<and> path \<noteq> ''/'' then Some (st, Some (InvalidPathError path (Name D)))
      else map_option (apsnd (map_option (setDriverName (Name D)))) (WalkFallback n D f path st))"

section \<open>Paths as lists of components\<close>

definition abs_path :: "string list \<Rightarrow> string" where
  "abs_path cs = (if cs = [] then ''/'' else concat (map (\<lambda>c. slash # c) cs))"

definition comp_ok :: "string \<Rightarrow> bool" where
  "comp_ok c \<longleftrightarrow> c \<noteq> [] \<and> list_all path_char c"

definition comps_ok :: "string list \<Rightarrow> bool" where
  "comps_ok cs \<longleftrightarrow> cs \<noteq> [] \<and> (\<forall>c \<in> set cs. comp_ok c)"

lemma slash_not_path_char [simp]: "\<not> path_char (CHR ''/'')"
  by (simp add: path_char_def in_range_def byte_of_def)

lemma comp_ok_slash: "comp_ok c \<Longrightarrow> slash \<notin> set c"
  by (auto simp: comp_ok_def list_all_iff)

lemma abs_path_join: "cs \<noteq> [] \<Longrightarrow> abs_path cs = slash # join_with slash cs"
  by (induction "slash" cs rule: join_with.induct) (auto simp: abs_path_def)

lemma abs_path_Cons: "abs_path (c # cs) = slash # c @ (if cs = [] then [] else abs_path cs)"
  by (simp add: abs_path_def)

lemma abs_path_append: "cs \<noteq> [] \<Longrightarrow> ds \<noteq> [] \<Longrightarrow> abs_path (cs @ ds) = abs_path cs @ abs_path ds"
  by (simp add: abs_path_def)

lemma abs_path_snoc: "cs \<noteq> [] \<Longrightarrow> abs_path (cs @ [c]) = abs_path cs @ slash # c"
  by (simp add: abs_path_def)

definition path_comps :: "string \<Rightarrow> string list" where
  "path_comps p = tl (split_on slash p)"

lemma path_comps_abs: "\<forall>c \<in> set cs. slash \<notin> set c \<Longrightarrow> cs \<noteq> [] \<Longrightarrow> path_comps (abs_path cs) = cs"
  by (simp add: path_comps_def abs_path_join split_join)

lemma abs_path_inj:
  "\<forall>c \<in> set cs. slash \<notin> set c \<Longrightarrow> \<forall>c \<in> set ds. slash \<notin> set c \<Longrightarrow> cs \<noteq> [] \<Longrightarrow> ds \<noteq> [] \<Longrightarrow>
     abs_path cs = abs_path ds \<longleftrightarrow> cs = ds"
  using path_comps_abs by metis

lemma PathRegexp_iff: "match_string PathRegexp p \<longleftrightarrow> (\<exists>cs. comps_ok cs \<and> p = abs_path cs)"
proof -
  let ?A = "(#) slash ` {u. u \<noteq> [] \<and> list_all path_char u}"
  have cls: "conc {[x] |x. path_char x} {u. list_all path_char u} = {u. u \<noteq> [] \<and> list_all path_char u}"
    by (auto simp: neq_Nil_conv)
  then have A: "lang (Cap 1 (Seq (lit slash) (plus_of (Cls path_char)))) = ?A"
    using star_lang_cls [of path_char] by (simp del: conc_cls)
  have star: "u \<in> star_lang ?A \<longleftrightarrow> (\<exists>cs. (\<forall>c \<in> set cs. comp_ok c) \<and> u = concat (map (\<lambda>c. slash # c) cs))" for u
  proof
    show "\<exists>cs. (\<forall>c \<in> set cs. comp_ok c) \<and> u = concat (map (\<lambda>c. slash # c) cs)" if "u \<in> star_lang ?A"
      using that
    proof (induction rule: star_lang.induct)
      case lang_nil
      show ?case by (rule exI [of _ "[]"]) simp
    next
      case (lang_step u v)
      then obtain c cs where "comp_ok c" "u = slash # c" "\<forall>c \<in> set cs. comp_ok c"
        "v = concat (map (\<lambda>c. slash # c) cs)" by (auto simp: comp_ok_def)
      then show ?case by (intro exI [of _ "c # cs"]) simp
    qed
    show "u \<in> star_lang ?A" if "\<exists>cs. (\<forall>c \<in> set cs. comp_ok c) \<and> u = concat (map (\<lambda>c. slash # c) cs)"
    proof -
      from that obtain cs where "\<forall>c \<in> set cs. comp_ok c" "u = concat (map (\<lambda>c. slash # c) cs)" by blast
      moreover have "concat (map (\<lambda>c. slash # c) cs) \<in> star_lang ?A" if "\<forall>c \<in> set cs. comp_ok c" for cs
        using that
      proof (induction cs)
        case (Cons c cs)
        then have "(slash # c) @ concat (map (\<lambda>c. slash # c) cs) \<in> star_lang ?A"
          by (intro star_lang.lang_step) (auto simp: comp_ok_def)
        then show ?case by simp
      qed (simp add: star_lang.lang_nil)
      ultimately show ?thesis by simp
    qed
  qed
  have "p \<in> lang PathRegexp \<longleftrightarrow> p \<in> conc ?A (star_lang ?A)"
    unfolding PathRegexp_def lang_plus A ..
  also have "\<dots> \<longleftrightarrow> (\<exists>cs. comps_ok cs \<and> p = abs_path cs)"
  proof
    assume "p \<in> conc ?A (star_lang ?A)"
    then obtain c v where c: "comp_ok c" "v \<in> star_lang ?A" "p = slash # c @ v" by (auto simp: comp_ok_def)
    with star [of v] obtain cs where "\<forall>c \<in> set cs. comp_ok c" "v = concat (map (\<lambda>c. slash # c) cs)" by blast
    with c show "\<exists>cs. comps_ok cs \<and> p = abs_path cs"
      by (intro exI [of _ "c # cs"]) (simp add: comps_ok_def abs_path_def)
  next
    assume "\<exists>cs. comps_ok cs \<and> p = abs_path cs"
    then obtain c cs where c: "comp_ok c" "\<forall>c \<in> set cs. comp_ok c" "p = (slash # c) @ concat (map (\<lambda>c. slash # c) cs)"
      by (auto simp: comps_ok_def abs_path_def neq_Nil_conv)
    have "concat (map (\<lambda>c. slash # c) cs) \<in> star_lang ?A" using star c(2) by blast
    then show "p \<in> conc ?A (star_lang ?A)" unfolding c(3) using c(1) by (intro concI) (auto simp: comp_ok_def)
  qed
  finally show ?thesis by (simp add: match_string_iff)
qed

lemma PathRegexp_abs: "comps_ok cs \<Longrightarrow> match_string PathRegexp (abs_path cs)"
  by (auto simp: PathRegexp_iff)

section \<open>What the registry relies on\<close>

text \<open>
  The contract of a storage driver, over the component lists of its paths: \<open>file_at\<close> is the content
  stored at a path, \<open>dir_at\<close> says that the path is a directory, \<open>ok\<close> singles out the paths on which
  the driver is used and \<open>inv\<close> is its invariant.
\<close>

definition entry_at :: "('s \<Rightarrow> string list \<Rightarrow> bytes option) \<Rightarrow> ('s \<Rightarrow> string list \<Rightarrow> bool) \<Rightarrow> 's \<Rightarrow> string list \<Rightarrow> bool" where
  "entry_at file_at dir_at s cs \<longleftrightarrow> file_at s cs \<noteq> None \<or> dir_at s cs"

text \<open>A file can be put at \<open>cs\<close>: no directory is there, and no file is in the way.\<close>

definition can_put :: "('s \<Rightarrow> string list \<Rightarrow> bytes option) \<Rightarrow> ('s \<Rightarrow> string list \<Rightarrow> bool) \<Rightarrow> 's \<Rightarrow> string list \<Rightarrow> bool" where
  "can_put file_at dir_at s cs \<longleftrightarrow>
     \<not> dir_at s cs \<and> (\<forall>n < length cs. file_at s (take n cs) = None)"

text \<open>The part of the contract that a traversal relies on: directories and files can be told apart and listed.\<close>

locale readable_driver =
  fixes D :: "('s, 'w) storage_driver"
    and inv :: "'s \<Rightarrow> bool"
    and ok :: "string list \<Rightarrow> bool"
    and file_at :: "'s \<Rightarrow> string list \<Rightarrow> bytes option"
    and dir_at :: "'s \<Rightarrow> string list \<Rightarrow> bool"
  assumes ok_comps: "ok cs \<Longrightarrow> comps_ok cs"
    and ok_prefix: "ok (cs @ ds) \<Longrightarrow> cs \<noteq> [] \<Longrightarrow> ok cs"
    and entry_ok: "inv s \<Longrightarrow> entry_at file_at dir_at s cs \<Longrightarrow> cs = [] \<or> ok cs"
    and entry_parent: "inv s \<Longrightarrow> entry_at file_at dir_at s (cs @ [c]) \<Longrightarrow> dir_at s cs"
    and finite_entries: "inv s \<Longrightarrow> finite {cs. entry_at file_at dir_at s cs}"
    and file_not_dir: "inv s \<Longrightarrow> file_at s cs \<noteq> None \<Longrightarrow> \<not> dir_at s cs"
    and stat_file: "inv s \<Longrightarrow> ok cs \<Longrightarrow> file_at s cs = Some b \<Longrightarrow>
      \<exists>m. Stat D s (abs_path cs) = Inr \<lparr>fi_path = abs_path cs, fi_size = length b, fi_modtime = m, fi_isdir = False\<rparr>"
    and stat_dir: "inv s \<Longrightarrow> ok cs \<Longrightarrow> dir_at s cs \<Longrightarrow>
      \<exists>m. Stat D s (abs_path cs) = Inr \<lparr>fi_path = abs_path cs, fi_size = 0, fi_modtime = m, fi_isdir = True\<rparr>"
    and list_dir: "inv s \<Longrightarrow> ok cs \<Longrightarrow> dir_at s cs \<Longrightarrow>
      \<exists>xs. ListDir D s (abs_path cs) = Inr xs \<and> distinct xs
        \<and> set xs = {abs_path (cs @ [c]) |c. entry_at file_at dir_at s (cs @ [c])}"

text \<open>The whole contract.\<close>

locale lawful_driver = readable_driver D inv ok file_at dir_at
  for D :: "('s, 'w) storage_driver"
    and inv :: "'s \<Rightarrow> bool"
    and ok :: "string list \<Rightarrow> bool"
    and file_at :: "'s \<Rightarrow> string list \<Rightarrow> bytes option"
    and dir_at :: "'s \<Rightarrow> string list \<Rightarrow> bool" +
  assumes get_file: "inv s \<Longrightarrow> ok cs \<Longrightarrow> file_at s cs = Some b \<Longrightarrow> GetContent D s (abs_path cs) = Inr b"
    and get_absent: "inv s \<Longrightarrow> ok cs \<Longrightarrow> \<not> entry_at file_at dir_at s cs \<Longrightarrow>
      GetContent D s (abs_path cs) = Inl (PathNotFoundError (abs_path cs) (Name D))"
    and get_dir: "inv s \<Longrightarrow> ok cs \<Longrightarrow> dir_at s cs \<Longrightarrow>
      \<exists>e. GetContent D s (abs_path cs) = Inl (StorageError (Name D) e)"
    and reader_file: "inv s \<Longrightarrow> ok cs \<Longrightarrow> file_at s cs = Some b \<Longrightarrow>
      Reader D s (abs_path cs) (int n) = Inr (drop n b)"
    and stat_absent: "inv s \<Longrightarrow> ok cs \<Longrightarrow> \<not> entry_at file_at dir_at s cs \<Longrightarrow>
      Stat D s (abs_path cs) = Inl (PathNotFoundError (abs_path cs) (Name D))"
    and list_absent: "inv s \<Longrightarrow> ok cs \<Longrightarrow> \<not> entry_at file_at dir_at s cs \<Longrightarrow>
      (\<forall>n < length cs. file_at s (take n cs) = None) \<Longrightarrow>
      ListDir D s (abs_path cs) = Inl (PathNotFoundError (abs_path cs) (Name D))"
    and put_file: "inv s \<Longrightarrow> ok cs \<Longrightarrow> can_put file_at dir_at s cs \<Longrightarrow>
      \<exists>s'. PutContent D s (abs_path cs) b = (s', None) \<and> inv s' \<and> file_at s' = (file_at s)(cs \<mapsto> b)
        \<and> (\<forall>ds. dir_at s' ds \<longleftrightarrow> dir_at s ds \<or> (\<exists>n < length cs. ds = take n cs))"
    and delete_entry: "inv s \<Longrightarrow> ok cs \<Longrightarrow> entry_at file_at dir_at s cs \<Longrightarrow>
      \<exists>s'. Delete D s (abs_path cs) = (s', None) \<and> inv s'
        \<and> (\<forall>ds. file_at s' ds = (if take (length cs) ds = cs then None else file_at s ds))
        \<and> (\<forall>ds. dir_at s' ds \<longleftrightarrow> dir_at s ds \<and> take (length cs) ds \<noteq> cs)"
    and delete_absent: "inv s \<Longrightarrow> ok cs \<Longrightarrow> \<not> entry_at file_at dir_at s cs \<Longrightarrow>
      file_at s (butlast cs) = None \<Longrightarrow>
      Delete D s (abs_path cs) = (s, Some (PathNotFoundError (abs_path cs) (Name D)))"

end
