(* ===== verification/InMemory.thy ===== *)
theory InMemory
  imports Driver "HOL-Library.AList"
begin

text \<open>
  The in-memory driver (\<open>registry/storage/driver/inmemory/mfs.go\<close> and \<open>driver.go\<close>). Directories are
  a tree, because nothing but the tree refers to them; files are objects in a heap, because open
  writers refer to them as well. A directory is addressed by the list of child keys that leads to
  it: its stored path can differ from that after a move. The clock reading that \<open>time.Now\<close> returns
  during an operation is part of the state. A type assertion that fails is the value \<open>fs_panic\<close>.
\<close>

section \<open>The file system: \<open>mfs.go\<close>\<close>

datatype fs_error = errExists | errNotExists | errIsNotDir | errIsDir | errInvalidDirname | fs_panic

record file_obj =
  f_p :: string
  f_mod :: nat
  f_data :: bytes

datatype node = NFile nat | NDir string nat "(string \<times> node) list"

record mem =
  m_root :: node
  m_files :: "nat \<Rightarrow> file_obj"
  m_next :: nat
  m_now :: nat

fun isdir :: "node \<Rightarrow> bool" where
  "isdir (NDir _ _ _) = True"
| "isdir (NFile _) = False"

fun children :: "node \<Rightarrow> (string \<times> node) list" where
  "children (NDir _ _ ch) = ch"
| "children (NFile _) = []"

fun node_path :: "mem \<Rightarrow> node \<Rightarrow> string" where
  "node_path s (NDir p _ _) = p"
| "node_path s (NFile i) = f_p (m_files s i)"

fun node_modtime :: "mem \<Rightarrow> node \<Rightarrow> nat" where
  "node_modtime s (NDir _ m _) = m"
| "node_modtime s (NFile i) = f_mod (m_files s i)"

definition common_name :: "string \<Rightarrow> string" where
  "common_name p = snd (path_split p)"

definition normalize :: "string \<Rightarrow> string" where
  "normalize p = slash # trim slash p"

text \<open>
  \<open>find\<close> with the keys it went through. At the last component \<open>i\<close> is \<open>-1\<close> and \<open>q[i+1:]\<close> is the
  component itself once more.
\<close>

definition first_comp :: "string \<Rightarrow> string \<times> string" where
  "first_comp q = (case index_of slash q of None \<Rightarrow> (q, q) | Some i \<Rightarrow> (take i q, drop (Suc i) q))"

function find_from :: "node \<Rightarrow> string \<Rightarrow> string list \<times> node" where
  "find_from (NFile i) q = ([], NFile i)"
| "find_from (NDir p m ch) q =
     (let q = trim slash q in
      if q = [] then ([], NDir p m ch)
      else
        case first_comp q of
          (component, rest) \<Rightarrow>
            (case map_of ch component of
               None \<Rightarrow> ([], NDir p m ch)
             | Some child \<Rightarrow>
                 if isdir child then
                   (case find_from child rest of (l, n) \<Rightarrow> (component # l, n))
                 else ([component], child)))"
  by pat_completeness auto

lemma child_smaller: "map_of ch k = Some n \<Longrightarrow> size n < Suc (size_list (size_prod (\<lambda>_. 0) size) ch)"
proof (induction ch)
  case (Cons a ch)
  then show ?case by (cases a) (auto split: if_splits)
qed simp

termination find_from
  by (relation "measure (size \<circ> fst)") (auto dest: child_smaller)

text \<open>Updating the node that a list of keys leads to; nothing happens when there is none.\<close>

fun update_at :: "(node \<Rightarrow> node) \<Rightarrow> string list \<Rightarrow> node \<Rightarrow> node" where
  "update_at f [] n = f n"
| "update_at f (c # cs) (NDir p m ch) = NDir p m (AList.map_entry c (update_at f cs) ch)"
| "update_at f (c # cs) (NFile i) = NFile i"

fun dir_add :: "nat \<Rightarrow> string \<Rightarrow> node \<Rightarrow> node \<Rightarrow> node" where
  "dir_add now k child (NDir p m ch) = NDir p now (AList.update k child ch)"
| "dir_add now k child (NFile i) = NFile i"

fun dir_remove :: "string \<Rightarrow> node \<Rightarrow> node" where
  "dir_remove k (NDir p m ch) = NDir p m (AList.delete k ch)"
| "dir_remove k (NFile i) = NFile i"

definition list_from :: "mem \<Rightarrow> node \<Rightarrow> string \<Rightarrow> fs_error + string list" where
  "list_from s d p =
     (let n = snd (find_from d p) in
      if node_path s n \<noteq> p then Inl errNotExists
      else if \<not> isdir n then Inl errIsNotDir
      else Inr (sort (map (\<lambda>(_, child). node_path s child) (children n))))"

text \<open>
  \<open>mkdir\<close> in the directory \<open>d\<close> that the keys \<open>loc\<close> lead to, and the loop of \<open>mkdirs\<close>: they
  return the keys of the new directory and the node itself.
\<close>

definition mkdir :: "mem \<Rightarrow> string list \<Rightarrow> node \<Rightarrow> string \<Rightarrow> mem \<times> (fs_error + string list \<times> node)" where
  "mkdir s loc d name =
     (if name = [] then (s, Inl errInvalidDirname)
      else if map_of (children d) name \<noteq> None then (s, Inl errExists)
      else
        let p = path_join [node_path s d, name];
            child = NDir p (m_now s) []
        in (s\<lparr>m_root := update_at (dir_add (m_now s) (common_name p) child) loc (m_root s)\<rparr>,
            Inr (loc @ [common_name p], child)))"

fun mkdir_all ::
    "mem \<Rightarrow> string list \<Rightarrow> node \<Rightarrow> string list \<Rightarrow> mem \<times> (fs_error + string list \<times> node)" where
  "mkdir_all s loc d [] = (s, Inr (loc, d))"
| "mkdir_all s loc d (c # cs) =
     (case mkdir s loc d c of
        (s', Inl e) \<Rightarrow> (s', Inl e)
      | (s', Inr (loc', d')) \<Rightarrow> mkdir_all s' loc' d' cs)"

definition mkdirs :: "mem \<Rightarrow> string \<Rightarrow> mem \<times> (fs_error + string list \<times> node)" where
  "mkdirs s p0 =
     (let p = normalize p0;
          (loc, n) = find_from (m_root s) p
      in if \<not> isdir n then (s, Inl errIsNotDir)
         else if node_path s n = p then (s, Inr (loc, n))
         else
           let relative = trim slash (trim_prefix p (node_path s n))
           in if relative = [] then (s, Inr (loc, n))
              else mkdir_all s loc n (split_on slash relative))"

definition mkfile :: "mem \<Rightarrow> string \<Rightarrow> mem \<times> (fs_error + nat)" where
  "mkfile s p =
     (let n = snd (find_from (m_root s) p) in
      if node_path s n = p then
        (s, case n of NDir _ _ _ \<Rightarrow> Inl errIsDir | NFile i \<Rightarrow> Inr i)
      else
        let (dirpath, filename) = path_split p in
        case mkdirs s dirpath of
          (s', Inl e) \<Rightarrow> (s', Inl e)
        | (s', Inr (loc, dd)) \<Rightarrow>
            let q = path_join [node_path s' dd, filename]; i = m_next s' in
            (s'\<lparr>m_root := update_at (dir_add (m_now s') (common_name q) (NFile i)) loc (m_root s'),
                m_files := (m_files s')(i := \<lparr>f_p = q, f_mod = m_now s', f_data = []\<rparr>),
                m_next := Suc i\<rparr>, Inr i))"

definition fs_move :: "mem \<Rightarrow> string \<Rightarrow> string \<Rightarrow> mem \<times> fs_error option" where
  "fs_move s src dst =
     (case mkdirs s (fst (path_split dst)) of
        (s1, Inl e) \<Rightarrow> (s1, Some e)
      | (s1, Inr (dploc, _)) \<Rightarrow>
          let (srcDirname, srcFilename) = path_split src;
              (sploc, sp) = find_from (m_root s1) srcDirname
          in if normalize srcDirname \<noteq> normalize (node_path s1 sp) then (s1, Some errNotExists)
             else if \<not> isdir sp then (s1, Some errIsNotDir)
             else
               case map_of (children sp) srcFilename of
                 None \<Rightarrow> (s1, Some errNotExists)
               | Some n \<Rightarrow>
                   let r = update_at (dir_remove srcFilename) sploc (m_root s1);
                       n' = (case n of NDir _ m ch \<Rightarrow> NDir dst m ch | NFile i \<Rightarrow> NFile i);
                       files' = (case n of NDir _ _ _ \<Rightarrow> m_files s1
                                 | NFile i \<Rightarrow> (m_files s1)(i := (m_files s1 i)\<lparr>f_p := dst\<rparr>))
                   in (s1\<lparr>m_root := update_at (dir_add (m_now s1) (common_name dst) n') dploc r,
                          m_files := files'\<rparr>, None))"

definition fs_delete :: "mem \<Rightarrow> string \<Rightarrow> mem \<times> fs_error option" where
  "fs_delete s p =
     (let (dirname, filename) = path_split p;
          (loc, parent) = find_from (m_root s) dirname
      in if normalize dirname \<noteq> normalize (node_path s parent) then (s, Some errNotExists)
         else if \<not> isdir parent then (s, Some fs_panic)
         else if map_of (children parent) filename = None then (s, Some errNotExists)
         else (s\<lparr>m_root := update_at (dir_remove filename) loc (m_root s)\<rparr>, None))"

definition truncate_file :: "mem \<Rightarrow> nat \<Rightarrow> mem" where
  "truncate_file s i = s\<lparr>m_files := (m_files s)(i := (m_files s i)\<lparr>f_data := []\<rparr>)\<rparr>"

text \<open>\<open>WriteAt\<close> is called with an offset within the data only; the slice ends where the write ends.\<close>

definition WriteAt :: "mem \<Rightarrow> nat \<Rightarrow> bytes \<Rightarrow> nat \<Rightarrow> mem" where
  "WriteAt s i b off =
     s\<lparr>m_files := (m_files s)(i := (m_files s i)
         \<lparr>f_mod := m_now s, f_data := take off (f_data (m_files s i)) @ b\<rparr>)\<rparr>"

section \<open>The driver: \<open>driver.go\<close>\<close>

definition driverName :: string where
  "driverName = ''inmemory''"

definition mem_New :: "nat \<Rightarrow> mem" where
  "mem_New now = \<lparr>m_root = NDir ''/'' now [], m_files = (\<lambda>_. \<lparr>f_p = [], f_mod = 0, f_data = []\<rparr>),
     m_next = 0, m_now = now\<rparr>"

definition mem_Reader :: "mem \<Rightarrow> string \<Rightarrow> int \<Rightarrow> driver_error + bytes" where
  "mem_Reader s path off =
     (if off < 0 then Inl (InvalidOffsetError path off [])
      else
        let normalized = normalize path; found = snd (find_from (m_root s) normalized) in
        if node_path s found \<noteq> normalized then Inl (PathNotFoundError path [])
        else case found of
               NDir _ _ _ \<Rightarrow> Inl (Errorf (path @ '' is a directory''))
             | NFile i \<Rightarrow> Inr (drop (nat off) (f_data (m_files s i))))"

definition mem_GetContent :: "mem \<Rightarrow> string \<Rightarrow> driver_error + bytes" where
  "mem_GetContent s path = mem_Reader s path 0"

definition mem_PutContent :: "mem \<Rightarrow> string \<Rightarrow> bytes \<Rightarrow> mem \<times> driver_error option" where
  "mem_PutContent s p contents =
     (case mkfile s (normalize p) of
        (s', Inl _) \<Rightarrow> (s', Some (Errorf ''not a file''))
      | (s', Inr i) \<Rightarrow> (WriteAt (truncate_file s' i) i contents 0, None))"

record mem_writer =
  w_file :: nat
  w_closed :: bool
  w_committed :: bool
  w_canceled :: bool

definition newWriter :: "nat \<Rightarrow> mem_writer" where
  "newWriter i = \<lparr>w_file = i, w_closed = False, w_committed = False, w_canceled = False\<rparr>"

definition mem_Writer :: "mem \<Rightarrow> string \<Rightarrow> bool \<Rightarrow> mem \<times> (driver_error + mem_writer)" where
  "mem_Writer s path app =
     (case mkfile s (normalize path) of
        (s', Inl _) \<Rightarrow> (s', Inl (Errorf ''not a file''))
      | (s', Inr i) \<Rightarrow> (if app then s' else truncate_file s' i, Inr (newWriter i)))"

definition mem_Stat :: "mem \<Rightarrow> string \<Rightarrow> driver_error + file_info" where
  "mem_Stat s path =
     (let normalized = normalize path; found = snd (find_from (m_root s) normalized) in
      if node_path s found \<noteq> normalized then Inl (PathNotFoundError path [])
      else Inr \<lparr>fi_path = path,
                fi_size = (case found of NDir _ _ _ \<Rightarrow> 0 | NFile i \<Rightarrow> length (f_data (m_files s i))),
                fi_modtime = node_modtime s found, fi_isdir = isdir found\<rparr>)"

definition mem_List :: "mem \<Rightarrow> string \<Rightarrow> driver_error + string list" where
  "mem_List s path =
     (let normalized = normalize path; found = snd (find_from (m_root s) normalized) in
      if \<not> isdir found then Inl (Errorf ''not a directory'')
      else case list_from s found normalized of
             Inr entries \<Rightarrow> Inr entries
           | Inl errNotExists \<Rightarrow> Inl (PathNotFoundError path [])
           | Inl _ \<Rightarrow> Inl (Errorf ''not a directory''))"

fun fs_message :: "fs_error \<Rightarrow> driver_error" where
  "fs_message errExists = Errorf ''exists''"
| "fs_message errNotExists = Errorf ''notexists''"
| "fs_message errIsNotDir = Errorf ''notdir''"
| "fs_message errIsDir = Errorf ''isdir''"
| "fs_message errInvalidDirname = Errorf ''invalid dirname''"
| "fs_message fs_panic = GoPanic ''interface conversion''"

definition mem_Move :: "mem \<Rightarrow> string \<Rightarrow> string \<Rightarrow> mem \<times> driver_error option" where
  "mem_Move s sourcePath destPath =
     (case fs_move s (normalize sourcePath) (normalize destPath) of
        (s', None) \<Rightarrow> (s', None)
      | (s', Some e) \<Rightarrow>
          (s', Some (if e = errNotExists then PathNotFoundError destPath [] else fs_message e)))"

definition mem_Delete :: "mem \<Rightarrow> string \<Rightarrow> mem \<times> driver_error option" where
  "mem_Delete s path =
     (case fs_delete s (normalize path) of
        (s', None) \<Rightarrow> (s', None)
      | (s', Some e) \<Rightarrow>
          (s', Some (if e = errNotExists then PathNotFoundError path [] else fs_message e)))"

fun mem_DeleteFiles :: "mem \<Rightarrow> nat \<Rightarrow> string list \<Rightarrow> mem \<times> nat \<times> driver_error option" where
  "mem_DeleteFiles s count [] = (s, count, None)"
| "mem_DeleteFiles s count (path # paths) =
     (case mem_Delete s path of
        (s', None) \<Rightarrow> mem_DeleteFiles s' (Suc count) paths
      | (s', Some (PathNotFoundError _ _)) \<Rightarrow> mem_DeleteFiles s' (Suc count) paths
      | (s', Some e) \<Rightarrow> (s', count, Some e))"

definition mem_URLFor :: "mem \<Rightarrow> string \<Rightarrow> driver_error + string" where
  "mem_URLFor s path = Inl (ErrUnsupportedMethod [])"

section \<open>Writers\<close>

definition writer_Write :: "mem \<Rightarrow> mem_writer \<Rightarrow> bytes \<Rightarrow> mem \<times> mem_writer \<times> (driver_error + nat)" where
  "writer_Write s w p =
     (if w_closed w then (s, w, Inl (Errorf ''already closed''))
      else if w_committed w then (s, w, Inl (Errorf ''already committed''))
      else if w_canceled w then (s, w, Inl (Errorf ''already canceled''))
      else (WriteAt s (w_file w) p (length (f_data (m_files s (w_file w)))), w, Inr (length p)))"

definition writer_Size :: "mem \<Rightarrow> mem_writer \<Rightarrow> nat" where
  "writer_Size s w = length (f_data (m_files s (w_file w)))"

definition writer_Close :: "mem \<Rightarrow> mem_writer \<Rightarrow> mem \<times> mem_writer \<times> driver_error option" where
  "writer_Close s w =
     (if w_closed w then (s, w, Some (Errorf ''already closed''))
      else (s, w\<lparr>w_closed := True\<rparr>, None))"

definition writer_Cancel :: "mem \<Rightarrow> mem_writer \<Rightarrow> mem \<times> mem_writer \<times> driver_error option" where
  "writer_Cancel s w =
     (if w_closed w then (s, w, Some (Errorf ''already closed''))
      else if w_committed w then (s, w, Some (Errorf ''already committed''))
      else
        case fs_delete s (f_p (m_files s (w_file w))) of
          (s', e) \<Rightarrow> (s', w\<lparr>w_canceled := True\<rparr>, map_option fs_message e))"

definition writer_Commit :: "mem \<Rightarrow> mem_writer \<Rightarrow> mem \<times> mem_writer \<times> driver_error option" where
  "writer_Commit s w =
     (if w_closed w then (s, w, Some (Errorf ''already closed''))
      else if w_committed w then (s, w, Some (Errorf ''already committed''))
      else if w_canceled w then (s, w, Some (Errorf ''already canceled''))
      else (s, w\<lparr>w_committed := True\<rparr>, None))"

definition mem_driver :: "(mem, mem_writer) storage_driver" where
  "mem_driver = \<lparr>Name = driverName, GetContent = mem_GetContent, PutContent = mem_PutContent,
     Reader = mem_Reader, Writer = mem_Writer, Stat = mem_Stat, ListDir = mem_List, Move = mem_Move,
     Delete = mem_Delete, DeleteFiles = (\<lambda>s ps. mem_DeleteFiles s 0 ps), URLFor = mem_URLFor,
     WriterWrite = writer_Write, WriterSize = writer_Size, WriterClose = writer_Close,
     WriterCancel = writer_Cancel, WriterCommit = writer_Commit\<rparr>"

text \<open>The driver that \<open>New\<close> returns is the base wrapper around it.\<close>

definition inmemory_Driver :: "(mem, mem_writer) storage_driver" where
  "inmemory_Driver = base_driver mem_driver"

text \<open>\<open>io.Copy\<close> moves 32 KiB at a time; \<open>TransferTo\<close> copies to another driver with its own state.\<close>

function io_copy ::
    "('s, 'w) storage_driver \<Rightarrow> 's \<Rightarrow> 'w \<Rightarrow> bytes \<Rightarrow> 's \<times> 'w \<times> driver_error option" where
  "io_copy D s w b =
     (if b = [] then (s, w, None)
      else
        case WriterWrite D s w (take 32768 b) of
          (s', w', Inl e) \<Rightarrow> (s', w', Some e)
        | (s', w', Inr n) \<Rightarrow>
            if n \<noteq> length (take 32768 b) then (s', w', Some (Errorf ''short write''))
            else io_copy D s' w' (drop 32768 b))"
  by pat_completeness auto

termination io_copy
  by (relation "measure (\<lambda>(D, s, w, b). length b)") auto

declare io_copy.simps [simp del]

definition mem_TransferTo ::
    "mem \<Rightarrow> ('s, 'w) storage_driver \<Rightarrow> 's \<Rightarrow> string \<Rightarrow> string \<Rightarrow> 's \<times> driver_error option" where
  "mem_TransferTo s destDriver ds srcPath destPath =
     (if driverName \<noteq> Name destDriver then (ds, Some (Errorf ''destDriver must be an inmemory Driver''))
      else
        case mem_Reader s srcPath 0 of
          Inl e \<Rightarrow> (ds, Some e)
        | Inr src \<Rightarrow>
            (case Writer destDriver ds destPath False of
               (ds1, Inl e) \<Rightarrow> (ds1, Some (PartialTransferError srcPath destPath e))
             | (ds1, Inr dest) \<Rightarrow>
                 (case io_copy destDriver ds1 dest src of
                    (ds2, dest2, Some e) \<Rightarrow>
                      (fst (WriterCancel destDriver ds2 dest2), Some (PartialTransferError srcPath destPath e))
                  | (ds2, dest2, None) \<Rightarrow>
                      (case WriterCommit destDriver ds2 dest2 of
                         (ds3, dest3, Some e) \<Rightarrow> (ds3, Some (PartialTransferError srcPath destPath e))
                       | (ds3, dest3, None) \<Rightarrow>
                           (case Stat destDriver ds3 srcPath of
                              Inl e \<Rightarrow> (ds3, Some (PartialTransferError srcPath destPath e))
                            | Inr fi \<Rightarrow>
                                if fi_size fi \<noteq> WriterSize destDriver ds3 dest3 then
                                  (ds3, Some (PartialTransferError srcPath destPath
                                     (Errorf ''post-transfer size mismatch'')))
                                else (ds3, None))))))"

end
