(* ===== verification/InMemory_Tree.thy ===== *)
theory InMemory_Tree
  imports InMemory
begin

text \<open>
  The tree of the in-memory driver: what is at a list of keys, how adding and removing entries
  changes that, the invariant that every stored path is the place of its node, and the behaviour of
  \<open>find\<close>, \<open>mkdir\<close>, \<open>mkdirs\<close> and \<open>mkfile\<close> under it, on the paths whose components are pairwise different.
\<close>

section \<open>What is where\<close>

fun lookup :: "node \<Rightarrow> string list \<Rightarrow> node option" where
  "lookup n [] = Some n"
| "lookup n (c # cs) = (case map_of (children n) c of None \<Rightarrow> None | Some m \<Rightarrow> lookup m cs)"

text \<open>What an operation can tell about a place: the file object there, or the path of the directory.\<close>

datatype node_kind = KFile nat | KDir string

fun kind :: "node \<Rightarrow> node_kind" where
  "kind (NFile i) = KFile i"
| "kind (NDir p m ch) = KDir p"

definition kind_at :: "node \<Rightarrow> string list \<Rightarrow> node_kind option" where
  "kind_at n cs = map_option kind (lookup n cs)"

fun kind_path :: "mem \<Rightarrow> node_kind \<Rightarrow> string" where
  "kind_path s (KFile i) = f_p (m_files s i)"
| "kind_path s (KDir p) = p"

lemma node_path_kind: "node_path s n = kind_path s (kind n)"
  by (cases n) simp_all

lemma kind_path_root [simp]: "kind_path (s\<lparr>m_root := r\<rparr>) k = kind_path s k"
  by (cases k) simp_all

lemma isdir_kind: "isdir n \<longleftrightarrow> (\<exists>p. kind n = KDir p)"
  by (cases n) simp_all

lemma lookup_append: "lookup n (cs @ ds) = (case lookup n cs of None \<Rightarrow> None | Some m \<Rightarrow> lookup m ds)"
  by (induction n cs rule: lookup.induct) (auto split: option.splits)

lemma kind_at_simps [simp]:
  "kind_at n [] = Some (kind n)"
  "kind_at n (c # cs) = (case map_of (children n) c of None \<Rightarrow> None | Some m \<Rightarrow> kind_at m cs)"
  by (simp_all add: kind_at_def split: option.split)

lemma kind_at_append: "lookup n cs = Some m \<Longrightarrow> kind_at n (cs @ ds) = kind_at m ds"
  by (simp add: kind_at_def lookup_append)

lemma kind_at_parent: "kind_at n (cs @ [c]) \<noteq> None \<Longrightarrow> \<exists>p. kind_at n cs = Some (KDir p)"
  by (cases "lookup n cs"; cases "the (lookup n cs)") (auto simp: kind_at_def lookup_append)

lemma kind_update_at:
  "lookup n loc = Some d \<Longrightarrow>
     kind_at (update_at f loc n) cs =
       (if take (length loc) cs = loc then kind_at (f d) (drop (length loc) cs) else kind_at n cs)"
proof (induction f loc n arbitrary: cs rule: update_at.induct)
  case (1 f n)
  then show ?case by simp
next
  case (2 f c loc p m ch)
  then obtain n' where n': "map_of ch c = Some n'" "lookup n' loc = Some d"
    by (auto split: option.splits)
  show ?case
  proof (cases cs)
    case (Cons x xs)
    then show ?thesis using 2 n' by (auto simp: map_of_map_entry)
  qed simp
next
  case (3 f c loc i)
  then show ?case by simp
qed

lemma lookup_update_at: "lookup n loc = Some d \<Longrightarrow> lookup (update_at f loc n) loc = Some (f d)"
  by (induction f loc n rule: update_at.induct) (auto simp: map_of_map_entry split: option.splits)

text \<open>Adding an entry to, and removing one from, the directory at \<open>loc\<close>.\<close>

lemma kind_add:
  assumes "lookup n loc = Some d" "isdir d"
  shows "kind_at (update_at (dir_add now k child) loc n) cs =
    (if take (Suc (length loc)) cs = loc @ [k] then kind_at child (drop (Suc (length loc)) cs) else kind_at n cs)"
proof (cases "take (length loc) cs = loc")
  case True
  then obtain ds where cs: "cs = loc @ ds" by (metis append_take_drop_id)
  then show ?thesis
    using assms kind_at_append [OF assms(1), of ds]
    by (cases ds; cases d) (auto simp: kind_update_at update_conv)
next
  case False
  then have "take (Suc (length loc)) cs \<noteq> loc @ [k]"
    by (metis append_eq_conv_conj take_take lessI less_imp_le_nat min.absorb1)
  with False show ?thesis using assms by (simp add: kind_update_at)
qed

lemma kind_remove:
  assumes "lookup n loc = Some d" "isdir d"
  shows "kind_at (update_at (dir_remove k) loc n) cs =
    (if take (Suc (length loc)) cs = loc @ [k] then None else kind_at n cs)"
proof (cases "take (length loc) cs = loc")
  case True
  then obtain ds where cs: "cs = loc @ ds" by (metis append_take_drop_id)
  then show ?thesis
    using assms kind_at_append [OF assms(1), of ds]
    by (cases ds; cases d) (auto simp: kind_update_at delete_conv)
next
  case False
  then have "take (Suc (length loc)) cs \<noteq> loc @ [k]"
    by (metis append_eq_conv_conj take_take lessI less_imp_le_nat min.absorb1)
  with False show ?thesis using assms by (simp add: kind_update_at)
qed

text \<open>No directory lists a key twice.\<close>

inductive keys_ok :: "node \<Rightarrow> bool" where
  keys_file: "keys_ok (NFile i)"
| keys_dir: "distinct (map fst ch) \<Longrightarrow> (\<And>k n. (k, n) \<in> set ch \<Longrightarrow> keys_ok n) \<Longrightarrow> keys_ok (NDir p m ch)"

inductive_simps keys_ok_dir [simp]: "keys_ok (NDir p m ch)"
inductive_simps keys_ok_file [simp]: "keys_ok (NFile i)"

lemma keys_ok_lookup: "keys_ok n \<Longrightarrow> lookup n cs = Some m \<Longrightarrow> keys_ok m"
proof (induction n cs rule: lookup.induct)
  case (2 n c cs)
  then obtain m' where m': "map_of (children n) c = Some m'" "lookup m' cs = Some m"
    by (auto split: option.splits)
  with 2 have "keys_ok m'" by (cases n) (auto dest: map_of_SomeD)
  with 2 m' show ?case by simp
qed simp

lemma map_entry_mem: "(k, v) \<in> set (AList.map_entry c f al) \<Longrightarrow> \<exists>u. (k, u) \<in> set al \<and> (v = u \<or> v = f u)"
  by (induction al) (auto split: if_splits)

lemma keys_ok_update_at:
  "keys_ok n \<Longrightarrow> (\<And>m. keys_ok m \<Longrightarrow> keys_ok (f m)) \<Longrightarrow> keys_ok (update_at f loc n)"
proof (induction f loc n rule: update_at.induct)
  case (2 f c cs p m ch)
  have "keys_ok v" if "(k, v) \<in> set (AList.map_entry c (update_at f cs) ch)" for k v
  proof -
    from map_entry_mem [OF that] obtain u where "(k, u) \<in> set ch" "v = u \<or> v = update_at f cs u" by blast
    moreover from this(1) 2(2) have "keys_ok u" by simp
    ultimately show ?thesis using 2(1) 2(3) by blast
  qed
  moreover have "distinct (map fst (AList.map_entry c (update_at f cs) ch))"
    using 2(2) by (simp add: distinct_map_entry)
  ultimately show ?case by simp
qed auto

lemma update_mem: "(k', v) \<in> set (AList.update k u al) \<Longrightarrow> (k', v) \<in> set al \<or> v = u"
  by (induction al) (auto split: if_splits)

lemma keys_ok_add: "keys_ok child \<Longrightarrow> keys_ok n \<Longrightarrow> keys_ok (dir_add now k child n)"
  by (cases n) (auto simp: distinct_update dest: update_mem)

lemma keys_ok_remove: "keys_ok n \<Longrightarrow> keys_ok (dir_remove k n)"
  by (cases n) (auto simp: AList.delete_eq distinct_map_filter)

section \<open>Paths and their strings\<close>

definition mem_ok :: "string list \<Rightarrow> bool" where
  "mem_ok cs \<longleftrightarrow> comps_ok cs \<and> distinct cs \<and> ''.'' \<notin> set cs \<and> ''..'' \<notin> set cs"

lemma mem_ok_plain: "mem_ok cs \<Longrightarrow> \<forall>c \<in> set cs. plain c"
  using comp_ok_slash by (auto simp: mem_ok_def comps_ok_def plain_def comp_ok_def)

lemma mem_ok_prefix: "mem_ok (cs @ ds) \<Longrightarrow> cs \<noteq> [] \<Longrightarrow> mem_ok cs"
  by (auto simp: mem_ok_def comps_ok_def)

lemma trim_left_plain: "s \<noteq> [] \<Longrightarrow> hd s \<noteq> c \<Longrightarrow> trim_left c s = s"
  by (cases s) (auto simp: trim_left_def)

lemma trim_right_plain: "s \<noteq> [] \<Longrightarrow> last s \<noteq> c \<Longrightarrow> trim_right c s = s"
  by (cases s rule: rev_cases) (auto simp: trim_right_def)

lemma join_ends:
  assumes "\<forall>c \<in> set cs. plain c" "cs \<noteq> []"
  shows "join_with slash cs \<noteq> []" "hd (join_with slash cs) \<noteq> slash" "last (join_with slash cs) \<noteq> slash"
proof -
  have ends: "c \<noteq> [] \<and> hd c \<noteq> slash \<and> last c \<noteq> slash" if "plain c" for c
  proof -
    from that have "c \<noteq> []" "slash \<notin> set c" by (simp_all add: plain_def)
    then show ?thesis by (metis hd_in_set last_in_set)
  qed
  have "join_with slash cs \<noteq> [] \<and> hd (join_with slash cs) \<noteq> slash \<and> last (join_with slash cs) \<noteq> slash"
    using assms
  proof (induction cs rule: induct_list012)
    case (2 x)
    then show ?case using ends by simp
  next
    case (3 x y zs)
    then show ?case using ends [of x] by (simp add: hd_append)
  qed simp
  then show "join_with slash cs \<noteq> []" "hd (join_with slash cs) \<noteq> slash" "last (join_with slash cs) \<noteq> slash"
    by simp_all
qed

lemma trim_join:
  assumes "\<forall>c \<in> set cs. plain c"
  shows "trim slash (join_with slash cs) = join_with slash cs"
    "trim slash (slash # join_with slash cs) = join_with slash cs"
    "trim slash (slash # join_with slash cs @ [slash]) = join_with slash cs"
proof -
  have "trim slash (join_with slash cs) = join_with slash cs \<and>
      trim slash (slash # join_with slash cs) = join_with slash cs \<and>
      trim slash (slash # join_with slash cs @ [slash]) = join_with slash cs"
  proof (cases "cs = []")
    case True
    then show ?thesis by (simp add: trim_def trim_left_def trim_right_def)
  next
    case False
    note e = join_ends [OF assms False]
    have l: "trim_left slash (join_with slash cs @ z) = join_with slash cs @ z" for z
      using e by (intro trim_left_plain) (auto simp: hd_append)
    then have l': "trim_left slash (slash # join_with slash cs @ z) = join_with slash cs @ z" for z
      by (simp add: trim_left_def)
    have r: "trim_right slash (join_with slash cs) = join_with slash cs"
      using e by (intro trim_right_plain)
    then have "trim_right slash (join_with slash cs @ [slash]) = join_with slash cs"
      by (simp add: trim_right_def)
    with r l [of "[]"] l' [of "[]"] l' [of "[slash]"] show ?thesis by (simp add: trim_def)
  qed
  then show "trim slash (join_with slash cs) = join_with slash cs"
    "trim slash (slash # join_with slash cs) = join_with slash cs"
    "trim slash (slash # join_with slash cs @ [slash]) = join_with slash cs" by simp_all
qed

lemma abs_path_slash_join: "abs_path cs = slash # join_with slash cs"
  by (cases "cs = []") (simp_all add: abs_path_join, simp add: abs_path_def)

lemma trim_abs_path: "\<forall>c \<in> set cs. plain c \<Longrightarrow> trim slash (abs_path cs) = join_with slash cs"
  unfolding abs_path_slash_join by (rule trim_join(2))

lemma normalize_abs_path: "\<forall>c \<in> set cs. plain c \<Longrightarrow> normalize (abs_path cs) = abs_path cs"
  using trim_abs_path [of cs] by (simp add: normalize_def abs_path_slash_join)

text \<open>The directory part of a path keeps its final slash.\<close>

definition dir_str :: "string list \<Rightarrow> string" where
  "dir_str cs = (if cs = [] then ''/'' else abs_path cs @ ''/'')"

lemma path_split_abs: "plain c \<Longrightarrow> path_split (abs_path (cs @ [c])) = (dir_str cs, c)"
  using path_split_snoc [of c "[]"] path_split_snoc [of c "abs_path cs"]
  by (cases "cs = []") (simp_all add: abs_path_snoc dir_str_def plain_def, simp add: abs_path_def)

lemma common_name_abs: "plain c \<Longrightarrow> common_name (abs_path (cs @ [c])) = c"
  by (simp add: common_name_def path_split_abs)

lemma trim_dir_str: "\<forall>c \<in> set cs. plain c \<Longrightarrow> trim slash (dir_str cs) = join_with slash cs"
  using trim_join(3) [of cs] trim_join(2) [of cs]
  by (auto simp: dir_str_def abs_path_slash_join)

lemma normalize_dir_str: "\<forall>c \<in> set cs. plain c \<Longrightarrow> normalize (dir_str cs) = abs_path cs"
  using trim_dir_str [of cs] by (simp add: normalize_def abs_path_slash_join)

lemma path_join_abs:
  assumes "\<forall>c \<in> set cs. plain c" "plain c"
  shows "path_join [abs_path cs, c] = abs_path (cs @ [c])"
proof (cases "cs = []")
  case True
  have "foldl (clean_step True) [] ([] # [] # [c]) = [c]"
    using assms(2) by (simp add: clean_step_def plain_def)
  moreover have "split_on slash (slash # slash # c) = [] # [] # [c]"
    using assms(2) by (simp add: plain_def)
  ultimately show ?thesis
    using True assms(2) by (simp add: path_join_def path_clean_def abs_path_def plain_def)
next
  case False
  then have "abs_path cs @ slash # c = slash # join_with slash (cs @ [c])"
    using abs_path_snoc [OF False, of c] abs_path_slash_join [of "cs @ [c]"] by simp
  moreover have "path_clean (slash # join_with slash (cs @ [c])) = slash # join_with slash (cs @ [c])"
    using assms by (intro path_clean_rooted) auto
  ultimately show ?thesis
    using assms(2) by (simp add: path_join_def plain_def abs_path_slash_join)
qed

section \<open>What \<open>find\<close> finds\<close>

lemma first_comp_join:
  "plain c \<Longrightarrow> first_comp (join_with slash (c # cs)) = (c, if cs = [] then c else join_with slash cs)"
  using index_of_append [of slash c] index_of_None [of slash c]
  by (cases cs) (auto simp: first_comp_def plain_def)

lemma find_join:
  assumes "\<forall>c \<in> set cs. plain c" "trim slash q = join_with slash cs" "isdir n"
    and "lookup n (cs @ [last cs]) = None \<or> cs = []"
  shows "(\<forall>m. lookup n cs = Some m \<longrightarrow> find_from n q = (cs, m)) \<and>
    (lookup n cs = None \<longrightarrow> (\<exists>k m. k < length cs \<and> find_from n q = (take k cs, m) \<and> lookup n (take k cs) = Some m
       \<and> (isdir m \<longrightarrow> lookup n (take (Suc k) cs) = None)))"
  using assms
proof (induction cs arbitrary: n q)
  case Nil
  then show ?case by (cases n) (auto simp: Let_def)
next
  case (Cons c cs)
  obtain p m ch where n: "n = NDir p m ch" using Cons.prems(3) by (cases n) auto
  have pl: "plain c" "\<forall>c \<in> set cs. plain c" using Cons.prems(1) by auto
  have ne: "join_with slash (c # cs) \<noteq> []" using join_ends(1) [OF Cons.prems(1)] by simp
  have fc: "first_comp (join_with slash (c # cs)) = (c, if cs = [] then c else join_with slash cs)"
    by (rule first_comp_join [OF pl(1)])
  have step: "find_from n q = (case map_of ch c of None \<Rightarrow> ([], n)
     | Some child \<Rightarrow> if isdir child
         then (case find_from child (if cs = [] then c else join_with slash cs) of (l, m) \<Rightarrow> (c # l, m))
         else ([c], child))"
    unfolding n find_from.simps(2) Let_def Cons.prems(2) fc using ne by simp
  show ?case
  proof (cases "map_of ch c")
    case None
    then show ?thesis using step n by auto
  next
    case (Some child)
    note child = this
    show ?thesis
    proof (cases "isdir child")
      case False
      then obtain i where "child = NFile i" by (cases child) auto
      then show ?thesis using step child n by (cases cs) auto
    next
      case True
      show ?thesis
      proof (cases "cs = []")
        case cs: True
        then have "map_of (children child) c = None"
          using Cons.prems(4) child n by (auto split: option.splits)
        moreover have "trim slash c = c" using trim_join(1) [of "[c]"] pl by simp
        moreover have "c \<noteq> []" "first_comp c = (c, c)"
          using pl first_comp_join [OF pl(1), of "[]"] by (auto simp: plain_def)
        ultimately have "find_from child c = ([], child)"
          using True by (cases child) (auto simp: Let_def)
        then show ?thesis using step child n cs True by simp
      next
        case False
        have "lookup child (cs @ [last cs]) = None"
          using Cons.prems(4) child n False by simp
        from Cons.IH [OF pl(2) trim_join(1) [OF pl(2)] True disjI1 [OF this]]
        have IH: "\<And>m. lookup child cs = Some m \<Longrightarrow> find_from child (join_with slash cs) = (cs, m)"
          "lookup child cs = None \<Longrightarrow> \<exists>k m. k < length cs \<and> find_from child (join_with slash cs) = (take k cs, m)
             \<and> lookup child (take k cs) = Some m \<and> (isdir m \<longrightarrow> lookup child (take (Suc k) cs) = None)"
          by blast+
        have st: "find_from n q = (case find_from child (join_with slash cs) of (l, m) \<Rightarrow> (c # l, m))"
          using step child True False by simp
        show ?thesis
        proof (cases "lookup child cs")
          case (Some m)
          then show ?thesis using IH(1) st child n by simp
        next
          case None
          from IH(2) [OF this] obtain k m' where "k < length cs" "find_from child (join_with slash cs) = (take k cs, m')"
            "lookup child (take k cs) = Some m'" "isdir m' \<longrightarrow> lookup child (take (Suc k) cs) = None" by blast
          then show ?thesis using st child n None by (intro conjI impI exI [of _ "Suc k"] exI [of _ m']) auto
        qed
      qed
    qed
  qed
qed

section \<open>The invariant\<close>

definition mem_inv :: "mem \<Rightarrow> bool" where
  "mem_inv s \<longleftrightarrow>
     keys_ok (m_root s) \<and> isdir (m_root s)
     \<and> (\<forall>cs k. kind_at (m_root s) cs = Some k \<longrightarrow> (cs = [] \<or> mem_ok cs) \<and> kind_path s k = abs_path cs)
     \<and> (\<forall>cs i. kind_at (m_root s) cs = Some (KFile i) \<longrightarrow> i < m_next s)
     \<and> (\<forall>cs ds i. kind_at (m_root s) cs = Some (KFile i) \<longrightarrow> kind_at (m_root s) ds = Some (KFile i) \<longrightarrow> cs = ds)"

definition mem_file_at :: "mem \<Rightarrow> string list \<Rightarrow> bytes option" where
  "mem_file_at s cs =
     (case kind_at (m_root s) cs of Some (KFile i) \<Rightarrow> Some (f_data (m_files s i)) | _ \<Rightarrow> None)"

definition mem_dir_at :: "mem \<Rightarrow> string list \<Rightarrow> bool" where
  "mem_dir_at s cs = (case kind_at (m_root s) cs of Some (KDir _) \<Rightarrow> True | _ \<Rightarrow> False)"

abbreviation mem_entry_at :: "mem \<Rightarrow> string list \<Rightarrow> bool" where
  "mem_entry_at \<equiv> entry_at mem_file_at mem_dir_at"

lemma mem_entry_kind: "mem_entry_at s cs \<longleftrightarrow> kind_at (m_root s) cs \<noteq> None"
  by (auto simp: entry_at_def mem_file_at_def mem_dir_at_def split: option.split node_kind.split)

lemma mem_invD:
  assumes "mem_inv s"
  shows "keys_ok (m_root s)" "isdir (m_root s)"
    "kind_at (m_root s) cs = Some k \<Longrightarrow> cs = [] \<or> mem_ok cs"
    "kind_at (m_root s) cs = Some k \<Longrightarrow> kind_path s k = abs_path cs"
    "kind_at (m_root s) cs = Some (KFile i) \<Longrightarrow> i < m_next s"
    "kind_at (m_root s) cs = Some (KFile i) \<Longrightarrow> kind_at (m_root s) ds = Some (KFile i) \<Longrightarrow> cs = ds"
  using assms unfolding mem_inv_def by blast+

lemma mem_invI:
  assumes "keys_ok (m_root s)" "isdir (m_root s)"
    "\<And>cs k. kind_at (m_root s) cs = Some k \<Longrightarrow> cs = [] \<or> mem_ok cs"
    "\<And>cs k. kind_at (m_root s) cs = Some k \<Longrightarrow> kind_path s k = abs_path cs"
    "\<And>cs i. kind_at (m_root s) cs = Some (KFile i) \<Longrightarrow> i < m_next s"
    "\<And>cs ds i. kind_at (m_root s) cs = Some (KFile i) \<Longrightarrow> kind_at (m_root s) ds = Some (KFile i) \<Longrightarrow> cs = ds"
  shows "mem_inv s"
  using assms unfolding mem_inv_def by blast

lemma lookup_path:
  assumes "mem_inv s" "lookup (m_root s) cs = Some n"
  shows "node_path s n = abs_path cs" "cs = [] \<or> mem_ok cs"
  using mem_invD(3,4) [OF assms(1), of cs "kind n"] assms(2) by (auto simp: kind_at_def node_path_kind)

text \<open>On a usable path \<open>find\<close> returns the node there, or else a node with a shorter path.\<close>

lemma find_ok:
  assumes inv: "mem_inv s" and ok: "cs = [] \<or> mem_ok cs" and q: "trim slash q = join_with slash cs"
  shows "lookup (m_root s) cs = Some n \<Longrightarrow> find_from (m_root s) q = (cs, n)"
    and "lookup (m_root s) cs = None \<Longrightarrow> \<exists>k n. k < length cs \<and> find_from (m_root s) q = (take k cs, n)
       \<and> lookup (m_root s) (take k cs) = Some n \<and> (isdir n \<longrightarrow> lookup (m_root s) (take (Suc k) cs) = None)"
proof -
  have pl: "\<forall>c \<in> set cs. plain c" using ok mem_ok_plain by auto
  have "lookup (m_root s) (cs @ [last cs]) = None \<or> cs = []"
  proof (rule ccontr)
    assume a: "\<not> ?thesis"
    then obtain m where "lookup (m_root s) (cs @ [last cs]) = Some m" by auto
    then have "mem_ok (cs @ [last cs])" using lookup_path(2) [OF inv] by blast
    with a show False by (auto simp: mem_ok_def)
  qed
  note f = find_join [OF pl q mem_invD(2) [OF inv] this]
  show "lookup (m_root s) cs = Some n \<Longrightarrow> find_from (m_root s) q = (cs, n)" using f by blast
  show "lookup (m_root s) cs = None \<Longrightarrow> \<exists>k n. k < length cs \<and> find_from (m_root s) q = (take k cs, n)
       \<and> lookup (m_root s) (take k cs) = Some n \<and> (isdir n \<longrightarrow> lookup (m_root s) (take (Suc k) cs) = None)"
    using f by blast
qed

lemma abs_path_eq_iff:
  assumes "\<forall>c \<in> set cs. plain c" "\<forall>c \<in> set ds. plain c"
  shows "abs_path cs = abs_path ds \<longleftrightarrow> cs = ds"
proof
  have split: "es = (if join_with slash es = [] then [] else split_on slash (join_with slash es))"
    if "\<forall>c \<in> set es. plain c" for es
  proof (cases "es = []")
    case False
    moreover have "\<forall>x \<in> set es. slash \<notin> set x" using that by (simp add: plain_def)
    ultimately show ?thesis using split_join [of es slash] join_ends(1) [OF that] by simp
  qed simp
  assume "abs_path cs = abs_path ds"
  then have "join_with slash cs = join_with slash ds" by (simp add: abs_path_slash_join)
  then show "cs = ds" by (subst split [OF assms(1)], subst split [OF assms(2)]) simp
qed simp

lemma take_plain: "\<forall>c \<in> set cs. plain c \<Longrightarrow> \<forall>c \<in> set (take k cs). plain c"
  by (meson in_set_takeD)

lemma find_other:
  assumes "mem_inv s" "mem_ok cs" "trim slash q = join_with slash cs" "lookup (m_root s) cs = None"
  obtains k n where "k < length cs" "find_from (m_root s) q = (take k cs, n)"
    "lookup (m_root s) (take k cs) = Some n" "isdir n \<Longrightarrow> lookup (m_root s) (take (Suc k) cs) = None"
    "node_path s n = abs_path (take k cs)" "abs_path (take k cs) \<noteq> abs_path cs"
proof -
  obtain k n where k: "k < length cs" "find_from (m_root s) q = (take k cs, n)"
    "lookup (m_root s) (take k cs) = Some n" "isdir n \<longrightarrow> lookup (m_root s) (take (Suc k) cs) = None"
    using find_ok(2) [OF assms(1) disjI2 [OF assms(2)] assms(3,4)] by blast
  have "\<forall>c \<in> set cs. plain c" by (rule mem_ok_plain [OF assms(2)])
  then have "abs_path (take k cs) \<noteq> abs_path cs"
    using abs_path_eq_iff [OF take_plain, of cs cs k] k(1) by (metis length_take less_irrefl min.absorb4)
  with k show thesis using that lookup_path(1) [OF assms(1) k(3)] by blast
qed

section \<open>Making directories and files\<close>

lemma kind_at_None_append: "kind_at n cs = None \<Longrightarrow> kind_at n (cs @ ds) = None"
  by (simp add: kind_at_def lookup_append)

lemma kind_put_leaf:
  assumes "lookup n loc = Some d" "isdir d" "children child = []"
    and below: "\<And>e es. kind_at n (loc @ c # e # es) = None"
  shows "kind_at (update_at (dir_add now c child) loc n) ds =
    (if ds = loc @ [c] then Some (kind child) else kind_at n ds)"
proof (cases "take (Suc (length loc)) ds = loc @ [c]")
  case True
  then obtain es where ds: "ds = loc @ c # es" by (metis append_take_drop_id append.assoc append_Cons append_Nil)
  show ?thesis
  proof (cases es)
    case Nil
    then show ?thesis using kind_add [OF assms(1,2)] ds by simp
  next
    case (Cons e es')
    then show ?thesis using kind_add [OF assms(1,2), of now c child ds] below [of e es'] ds assms(3) by simp
  qed
next
  case False
  then show ?thesis using kind_add [OF assms(1,2), of now c child ds] by auto
qed

lemma kind_add_leaf:
  assumes "lookup n loc = Some d" "isdir d" "kind_at n (loc @ [c]) = None" "children child = []"
  shows "kind_at (update_at (dir_add now c child) loc n) ds =
    (if ds = loc @ [c] then Some (kind child) else kind_at n ds)"
proof (rule kind_put_leaf [OF assms(1,2,4)])
  show "kind_at n (loc @ c # e # es) = None" for e es
    using kind_at_None_append [OF assms(3), of "e # es"] by simp
qed

lemma mkdir_spec:
  assumes inv: "mem_inv s" and d: "lookup (m_root s) loc = Some d" "isdir d"
    and ok: "mem_ok (loc @ [c])" and new: "kind_at (m_root s) (loc @ [c]) = None"
  obtains s' d' where "mkdir s loc d c = (s', Inr (loc @ [c], d'))" "mem_inv s'"
    "lookup (m_root s') (loc @ [c]) = Some d'" "isdir d'" "children d' = []"
    "\<And>ds. kind_at (m_root s') ds = (if ds = loc @ [c] then Some (KDir (abs_path ds)) else kind_at (m_root s) ds)"
    "m_files s' = m_files s" "m_next s' = m_next s" "m_now s' = m_now s"
proof -
  let ?p = "abs_path (loc @ [c])"
  let ?d = "NDir ?p (m_now s) []"
  let ?s = "s\<lparr>m_root := update_at (dir_add (m_now s) c ?d) loc (m_root s)\<rparr>"
  have pl: "plain c" "\<forall>c \<in> set loc. plain c" using mem_ok_plain [OF ok] by auto
  have nc: "map_of (children d) c = None" using new d(1) by (simp add: kind_at_def lookup_append split: option.splits)
  have p: "path_join [node_path s d, c] = ?p" using path_join_abs pl lookup_path(1) [OF inv d(1)] by simp
  have k: "kind_at (m_root ?s) ds = (if ds = loc @ [c] then Some (KDir (abs_path ds)) else kind_at (m_root s) ds)" for ds
    using kind_add_leaf [OF d new, of ?d "m_now s" ds] by simp
  have "keys_ok (m_root ?s)"
    using mem_invD(1) [OF inv] by (simp add: keys_ok_update_at keys_ok_add)
  moreover have "isdir (m_root ?s)" using k [of "[]"] mem_invD(2) [OF inv] by (auto simp: isdir_kind)
  ultimately have "mem_inv ?s"
    using mem_invD(3-6) [OF inv] ok unfolding mem_inv_def k by (auto split: if_splits)
  moreover have "lookup (m_root ?s) (loc @ [c]) = Some ?d"
    using lookup_update_at [OF d(1), of "dir_add (m_now s) c ?d"] d(2)
    by (cases d) (auto simp: lookup_append update_conv)
  moreover have "mkdir s loc d c = (?s, Inr (loc @ [c], ?d))"
    using pl(1) nc p common_name_abs [OF pl(1), of loc] by (simp add: mkdir_def plain_def Let_def)
  ultimately show thesis using that [of ?s ?d] k by simp
qed

text \<open>The paths below \<open>loc\<close> on the way to \<open>loc @ cs\<close>, the end included.\<close>

definition between :: "string list \<Rightarrow> string list \<Rightarrow> string list \<Rightarrow> bool" where
  "between loc cs ds \<longleftrightarrow> (\<exists>k. 0 < k \<and> k \<le> length cs \<and> ds = loc @ take k cs)"

lemma between_Nil [simp]: "\<not> between loc [] ds"
  by (simp add: between_def)

lemma between_Cons: "between loc (c # cs) ds \<longleftrightarrow> ds = loc @ [c] \<or> between (loc @ [c]) cs ds" (is "?L = ?R")
proof
  assume ?L
  then obtain k where k: "0 < k" "k \<le> length (c # cs)" "ds = loc @ take k (c # cs)"
    by (auto simp: between_def)
  then obtain j where j: "k = Suc j" by (cases k) auto
  show ?R
  proof (cases "j = 0")
    case True
    with k j show ?thesis by simp
  next
    case False
    with k j have "between (loc @ [c]) cs ds" unfolding between_def by (intro exI [of _ j]) simp
    then show ?thesis ..
  qed
next
  assume ?R
  then show ?L
  proof
    assume "ds = loc @ [c]"
    then show ?thesis unfolding between_def by (intro exI [of _ 1]) simp
  next
    assume "between (loc @ [c]) cs ds"
    then obtain k where "0 < k" "k \<le> length cs" "ds = (loc @ [c]) @ take k cs" by (auto simp: between_def)
    then show ?thesis unfolding between_def by (intro exI [of _ "Suc k"]) simp
  qed
qed

lemma mkdir_all_spec:
  assumes "mem_inv s" "lookup (m_root s) loc = Some d" "isdir d" "loc @ cs = [] \<or> mem_ok (loc @ cs)"
    and "cs = [] \<or> kind_at (m_root s) (loc @ [hd cs]) = None"
  shows "\<exists>s' d'. mkdir_all s loc d cs = (s', Inr (loc @ cs, d')) \<and> mem_inv s'
    \<and> lookup (m_root s') (loc @ cs) = Some d' \<and> isdir d'
    \<and> (\<forall>ds. kind_at (m_root s') ds =
          (if between loc cs ds
           then Some (KDir (abs_path ds)) else kind_at (m_root s) ds))
    \<and> m_files s' = m_files s \<and> m_next s' = m_next s \<and> m_now s' = m_now s"
  using assms
proof (induction cs arbitrary: s loc d)
  case Nil
  then show ?case by auto
next
  case (Cons c cs)
  have ok1: "mem_ok (loc @ [c])"
    using Cons.prems(4) mem_ok_prefix [of "loc @ [c]" cs] by simp
  obtain s1 d1 where m: "mkdir s loc d c = (s1, Inr (loc @ [c], d1))" "mem_inv s1"
    "lookup (m_root s1) (loc @ [c]) = Some d1" "isdir d1" "children d1 = []"
    "\<And>ds. kind_at (m_root s1) ds = (if ds = loc @ [c] then Some (KDir (abs_path ds)) else kind_at (m_root s) ds)"
    "m_files s1 = m_files s" "m_next s1 = m_next s" "m_now s1 = m_now s"
    using mkdir_spec [OF Cons.prems(1-3) ok1] Cons.prems(5) by auto
  have "cs = [] \<or> kind_at (m_root s1) ((loc @ [c]) @ [hd cs]) = None"
    using m(5) kind_at_append [OF m(3), of "[hd cs]"] by simp
  from Cons.IH [OF m(2-4) _ this] Cons.prems(4)
  obtain s' d' where r: "mkdir_all s1 (loc @ [c]) d1 cs = (s', Inr (loc @ c # cs, d'))" "mem_inv s'"
    "lookup (m_root s') (loc @ c # cs) = Some d'" "isdir d'"
    "m_files s' = m_files s1" "m_next s' = m_next s1" "m_now s' = m_now s1"
    and k: "\<And>ds. kind_at (m_root s') ds =
          (if between (loc @ [c]) cs ds
           then Some (KDir (abs_path ds)) else kind_at (m_root s1) ds)"
    by auto
  have "kind_at (m_root s') ds =
      (if between loc (c # cs) ds then Some (KDir (abs_path ds)) else kind_at (m_root s) ds)" for ds
    by (simp add: between_Cons k m(6))
  then show ?case using r m(1,7-9) by (intro exI [of _ s'] exI [of _ d']) simp
qed

lemma prefix_is_dir:
  assumes inv: "mem_inv s" and ex: "kind_at (m_root s) cs \<noteq> None" and k: "k < length cs"
  shows "kind_at (m_root s) (take k cs) = Some (KDir (abs_path (take k cs)))"
proof -
  have "kind_at (m_root s) (take (Suc k) cs) \<noteq> None"
    using ex kind_at_None_append [of "m_root s" "take (Suc k) cs" "drop (Suc k) cs"] by (metis append_take_drop_id)
  then have "kind_at (m_root s) (take k cs @ [cs ! k]) \<noteq> None" using k by (simp add: take_Suc_conv_app_nth)
  then obtain p where "kind_at (m_root s) (take k cs) = Some (KDir p)" using kind_at_parent by blast
  then show ?thesis using mem_invD(4) [OF inv, of "take k cs" "KDir p"] by simp
qed

lemma relative_path:
  assumes "\<forall>c \<in> set cs. plain c" "k < length cs"
  shows "trim slash (trim_prefix (abs_path cs) (abs_path (take k cs))) = join_with slash (drop k cs)"
proof (cases "k = 0")
  case True
  then show ?thesis
    using trim_join(1) [OF assms(1)] by (simp add: abs_path_slash_join trim_prefix_def has_prefix_def)
next
  case False
  then have "abs_path cs = abs_path (take k cs) @ abs_path (drop k cs)"
    using abs_path_append [of "take k cs" "drop k cs"] assms(2) by (cases cs) auto
  then have "trim_prefix (abs_path cs) (abs_path (take k cs)) = abs_path (drop k cs)"
    by (simp add: trim_prefix_def has_prefix_def)
  moreover have "\<forall>c \<in> set (drop k cs). plain c" using assms(1) by (meson in_set_dropD)
  ultimately show ?thesis using trim_abs_path by simp
qed

lemma between_take:
  assumes "k < length cs"
  shows "between (take k cs) (drop k cs) ds \<or> (\<exists>j \<le> k. ds = take j cs) \<longleftrightarrow> (\<exists>j \<le> length cs. ds = take j cs)"
    (is "?L = ?R")
proof
  assume ?L
  then show ?R
  proof
    assume "between (take k cs) (drop k cs) ds"
    then obtain j where "0 < j" "j \<le> length (drop k cs)" "ds = take k cs @ take j (drop k cs)"
      by (auto simp: between_def)
    then show ?R by (intro exI [of _ "k + j"]) (auto simp: take_add)
  next
    assume "\<exists>j \<le> k. ds = take j cs"
    then obtain j where "j \<le> k" "ds = take j cs" by blast
    then show ?R using assms by (intro exI [of _ j]) simp
  qed
next
  assume ?R
  then obtain j where j: "j \<le> length cs" "ds = take j cs" by blast
  show ?L
  proof (cases "j \<le> k")
    case True
    with j show ?thesis by blast
  next
    case False
    with j have "between (take k cs) (drop k cs) ds"
      unfolding between_def by (intro exI [of _ "j - k"]) (auto simp: take_add [symmetric])
    then show ?thesis ..
  qed
qed

lemma mkdirs_spec:
  assumes inv: "mem_inv s" and ok: "cs = [] \<or> mem_ok cs" and p: "normalize p = abs_path cs"
    and nofile: "\<And>k i. k \<le> length cs \<Longrightarrow> kind_at (m_root s) (take k cs) \<noteq> Some (KFile i)"
  shows "\<exists>s' d. mkdirs s p = (s', Inr (cs, d)) \<and> mem_inv s' \<and> lookup (m_root s') cs = Some d \<and> isdir d
    \<and> (\<forall>ds. kind_at (m_root s') ds =
         (if \<exists>j \<le> length cs. ds = take j cs then Some (KDir (abs_path ds)) else kind_at (m_root s) ds))
    \<and> m_files s' = m_files s \<and> m_next s' = m_next s \<and> m_now s' = m_now s"
proof -
  have pl: "\<forall>c \<in> set cs. plain c" using ok mem_ok_plain by auto
  have tr: "trim slash (abs_path cs) = join_with slash cs" by (rule trim_abs_path [OF pl])
  have dir: "isdir n" if "lookup (m_root s) (take k cs) = Some n" "k \<le> length cs" for n k
    using nofile [OF that(2)] that(1) by (cases n) (auto simp: kind_at_def)
  show ?thesis
  proof (cases "lookup (m_root s) cs")
    case (Some n)
    have "find_from (m_root s) (abs_path cs) = (cs, n)" by (rule find_ok(1) [OF inv ok tr Some])
    moreover have "isdir n" using dir [of "length cs" n] Some by simp
    moreover have "node_path s n = abs_path cs" by (rule lookup_path(1) [OF inv Some])
    ultimately have "mkdirs s p = (s, Inr (cs, n))" by (simp add: mkdirs_def p)
    moreover have "kind_at (m_root s) (take j cs) = Some (KDir (abs_path (take j cs)))" if "j \<le> length cs" for j
    proof (cases "j = length cs")
      case True
      then show ?thesis using Some \<open>isdir n\<close> \<open>node_path s n = abs_path cs\<close>
        by (cases n) (auto simp: kind_at_def)
    next
      case False
      then show ?thesis using prefix_is_dir [OF inv, of cs j] Some that by (simp add: kind_at_def)
    qed
    ultimately show ?thesis using inv Some \<open>isdir n\<close> by (intro exI [of _ s] exI [of _ n]) auto
  next
    case None
    then have mok: "mem_ok cs" using ok by auto
    obtain k n where f: "k < length cs" "find_from (m_root s) (abs_path cs) = (take k cs, n)"
      "lookup (m_root s) (take k cs) = Some n" "isdir n \<Longrightarrow> lookup (m_root s) (take (Suc k) cs) = None"
      "node_path s n = abs_path (take k cs)" "abs_path (take k cs) \<noteq> abs_path cs"
      using find_other [OF inv mok tr None] by blast
    have n: "isdir n" using dir f(1,3) by simp
    have dk: "drop k cs \<noteq> []" "\<forall>c \<in> set (drop k cs). plain c" using f(1) pl by (auto dest: in_set_dropD)
    have rel: "trim slash (trim_prefix (abs_path cs) (abs_path (take k cs))) = join_with slash (drop k cs)"
      by (rule relative_path [OF pl f(1)])
    have "split_on slash (join_with slash (drop k cs)) = drop k cs"
      using dk by (intro split_join) (auto simp: plain_def)
    then have mk: "mkdirs s p = mkdir_all s (take k cs) n (drop k cs)"
      using f n rel join_ends(1) [OF dk(2,1)] by (simp add: mkdirs_def p)
    have "kind_at (m_root s) (take k cs @ [hd (drop k cs)]) = None"
      using f(1) f(4) [OF n] by (simp add: kind_at_def take_Suc_conv_app_nth hd_drop_conv_nth)
    then have "\<exists>s' d'. mkdir_all s (take k cs) n (drop k cs) = (s', Inr (take k cs @ drop k cs, d')) \<and> mem_inv s'
      \<and> lookup (m_root s') (take k cs @ drop k cs) = Some d' \<and> isdir d'
      \<and> (\<forall>ds. kind_at (m_root s') ds =
          (if between (take k cs) (drop k cs) ds then Some (KDir (abs_path ds)) else kind_at (m_root s) ds))
      \<and> m_files s' = m_files s \<and> m_next s' = m_next s \<and> m_now s' = m_now s"
      using mok by (intro mkdir_all_spec [OF inv f(3) n]) auto
    then obtain s' d' where r: "mkdirs s p = (s', Inr (cs, d'))" "mem_inv s'"
      "lookup (m_root s') cs = Some d'" "isdir d'"
      "m_files s' = m_files s" "m_next s' = m_next s" "m_now s' = m_now s"
      and kd: "\<And>ds. kind_at (m_root s') ds =
          (if between (take k cs) (drop k cs) ds then Some (KDir (abs_path ds)) else kind_at (m_root s) ds)"
      unfolding mk by (auto simp: append_take_drop_id)
    have old: "kind_at (m_root s) (take j cs) = Some (KDir (abs_path (take j cs)))" if "j \<le> k" for j
    proof (cases "j = k")
      case True
      then show ?thesis using f(3,5) n by (cases n) (auto simp: kind_at_def)
    next
      case False
      then show ?thesis using prefix_is_dir [OF inv, of "take k cs" j] f(1,3) that by (simp add: kind_at_def min_def)
    qed
    have "kind_at (m_root s') ds =
        (if \<exists>j \<le> length cs. ds = take j cs then Some (KDir (abs_path ds)) else kind_at (m_root s) ds)" for ds
      using between_take [OF f(1), of ds] kd [of ds] old by auto
    then show ?thesis using r by (intro exI [of _ s'] exI [of _ d']) simp
  qed
qed

lemma file_kind: "mem_file_at s cs = Some b \<longleftrightarrow> (\<exists>i. kind_at (m_root s) cs = Some (KFile i) \<and> b = f_data (m_files s i))"
  by (auto simp: mem_file_at_def split: option.split node_kind.split)

lemma no_file_kind: "mem_file_at s cs = None \<longleftrightarrow> (\<forall>i. kind_at (m_root s) cs \<noteq> Some (KFile i))"
  by (auto simp: mem_file_at_def split: option.split node_kind.split)

lemma dir_kind: "mem_dir_at s cs \<longleftrightarrow> (\<exists>p. kind_at (m_root s) cs = Some (KDir p))"
  by (auto simp: mem_dir_at_def split: option.split node_kind.split)

text \<open>Writing to file objects leaves the tree alone.\<close>

lemma mem_inv_files:
  assumes "mem_inv s" "m_root s' = m_root s" "m_next s' = m_next s" "\<And>i. f_p (m_files s' i) = f_p (m_files s i)"
  shows "mem_inv s'"
proof -
  have "kind_path s' k = kind_path s k" for k by (cases k) (simp_all add: assms(4))
  then show ?thesis using assms(1) unfolding mem_inv_def assms(2,3) by simp
qed

lemma mkfile_spec:
  assumes inv: "mem_inv s" and ok: "mem_ok cs" and can: "can_put mem_file_at mem_dir_at s cs"
  shows "\<exists>s' i. mkfile s (abs_path cs) = (s', Inr i) \<and> mem_inv s' \<and> m_now s' = m_now s
    \<and> (\<forall>ds. kind_at (m_root s') ds =
         (if ds = cs then Some (KFile i)
          else if \<exists>j < length cs. ds = take j cs then Some (KDir (abs_path ds)) else kind_at (m_root s) ds))
    \<and> (\<forall>ds j. kind_at (m_root s) ds = Some (KFile j) \<longrightarrow> m_files s' j = m_files s j)"
proof -
  have ne: "cs \<noteq> []" using ok by (auto simp: mem_ok_def comps_ok_def)
  have pl: "\<forall>c \<in> set cs. plain c" by (rule mem_ok_plain [OF ok])
  have tr: "trim slash (abs_path cs) = join_with slash cs" by (rule trim_abs_path [OF pl])
  from can have nodir: "\<not> mem_dir_at s cs" and nofile: "\<And>k i. k < length cs \<Longrightarrow> kind_at (m_root s) (take k cs) \<noteq> Some (KFile i)"
    by (auto simp: can_put_def no_file_kind)
  show ?thesis
  proof (cases "lookup (m_root s) cs")
    case (Some n)
    then obtain i where n: "n = NFile i" using nodir by (cases n) (auto simp: dir_kind kind_at_def)
    have "find_from (m_root s) (abs_path cs) = (cs, n)" by (rule find_ok(1) [OF inv disjI2 [OF ok] tr Some])
    moreover have "node_path s n = abs_path cs" by (rule lookup_path(1) [OF inv Some])
    ultimately have "mkfile s (abs_path cs) = (s, Inr i)" using n by (simp add: mkfile_def)
    moreover have "kind_at (m_root s) cs = Some (KFile i)" using Some n by (simp add: kind_at_def)
    ultimately show ?thesis
      using inv prefix_is_dir [OF inv, of cs] by (intro exI [of _ s] exI [of _ i]) auto
  next
    case None
    obtain ds c where cs: "cs = ds @ [c]" using ne by (cases cs rule: rev_cases) auto
    obtain k n where f: "find_from (m_root s) (abs_path cs) = (take k cs, n)"
      "node_path s n = abs_path (take k cs)" "abs_path (take k cs) \<noteq> abs_path cs"
      using find_other [OF inv ok tr None] by blast
    have pc: "plain c" "\<forall>c \<in> set ds. plain c" using pl cs by auto
    have dok: "ds = [] \<or> mem_ok ds" using ok cs mem_ok_prefix by blast
    have "kind_at (m_root s) (take k ds) \<noteq> Some (KFile i)" if "k \<le> length ds" for k i
      using nofile [of k] cs that by simp
    from mkdirs_spec [OF inv dok normalize_dir_str [OF pc(2)] this]
    obtain s1 d where m: "mkdirs s (dir_str ds) = (s1, Inr (ds, d))" "mem_inv s1" "lookup (m_root s1) ds = Some d" "isdir d"
      "m_files s1 = m_files s" "m_next s1 = m_next s" "m_now s1 = m_now s"
      and k1: "\<And>es. kind_at (m_root s1) es =
         (if \<exists>j \<le> length ds. es = take j ds then Some (KDir (abs_path es)) else kind_at (m_root s) es)"
      by blast
    let ?i = "m_next s"
    let ?s = "s1\<lparr>m_root := update_at (dir_add (m_now s1) c (NFile ?i)) ds (m_root s1),
                m_files := (m_files s1)(?i := \<lparr>f_p = abs_path cs, f_mod = m_now s1, f_data = []\<rparr>), m_next := Suc ?i\<rparr>"
    have "path_join [node_path s1 d, c] = abs_path cs"
      using path_join_abs [OF pc(2,1)] lookup_path(1) [OF m(2,3)] cs by simp
    then have mk: "mkfile s (abs_path cs) = (?s, Inr ?i)"
      using f m path_split_abs [OF pc(1), of ds] common_name_abs [OF pc(1), of ds]
      unfolding mkfile_def cs by (simp add: Let_def)
    have new: "kind_at (m_root s1) cs = None"
      using k1 [of cs] None cs by (auto simp: kind_at_def dest: arg_cong [of _ _ length])
    have k2: "kind_at (m_root ?s) es = (if es = cs then Some (KFile ?i) else kind_at (m_root s1) es)" for es
      using kind_add_leaf [OF m(3,4) new [unfolded cs], of "NFile ?i" "m_now s1" es] cs by simp
    have old: "j < ?i" if "kind_at (m_root s1) es = Some (KFile j)" for es j
      using mem_invD(5) [OF m(2) that] m(6) by simp
    have kp: "kind_path ?s k = kind_path s1 k" if "kind_at (m_root s1) es = Some k" for es k
      using old [of es] that by (cases k) auto
    have "keys_ok (m_root ?s)" using mem_invD(1) [OF m(2)] by (simp add: keys_ok_update_at keys_ok_add)
    moreover have "isdir (m_root ?s)" using k2 [of "[]"] mem_invD(2) [OF m(2)] ne by (auto simp: isdir_kind)
    ultimately have "mem_inv ?s"
    proof (rule mem_invI)
      fix es k
      assume "kind_at (m_root ?s) es = Some k"
      then consider "es = cs" "k = KFile ?i" | "kind_at (m_root s1) es = Some k"
        unfolding k2 by (cases "es = cs") auto
      then have "(es = [] \<or> mem_ok es) \<and> kind_path ?s k = abs_path es"
      proof cases
        case 1
        then show ?thesis using ok by simp
      next
        case 2
        then show ?thesis using mem_invD(3,4) [OF m(2) 2] kp [OF 2] by simp
      qed
      then show "es = [] \<or> mem_ok es" "kind_path ?s k = abs_path es" by simp_all
    next
      fix es i
      assume "kind_at (m_root ?s) es = Some (KFile i)"
      then show "i < m_next ?s" using old [of es i] unfolding k2 by (cases "es = cs") auto
    next
      fix es es' i
      assume "kind_at (m_root ?s) es = Some (KFile i)" "kind_at (m_root ?s) es' = Some (KFile i)"
      then show "es = es'"
        using old [of es i] old [of es' i] mem_invD(6) [OF m(2), of es i es'] unfolding k2
        by (cases "es = cs"; cases "es' = cs") auto
    qed
    moreover have "kind_at (m_root ?s) es =
         (if es = cs then Some (KFile ?i)
          else if \<exists>j < length cs. es = take j cs then Some (KDir (abs_path es)) else kind_at (m_root s) es)" for es
      unfolding k2 k1 using cs by (auto simp: less_Suc_eq_le)
    moreover have "m_files ?s j = m_files s j" if "kind_at (m_root s) es = Some (KFile j)" for es j
      using mem_invD(5) [OF inv that] m(5) by simp
    ultimately show ?thesis using mk m(7) by (intro exI [of _ ?s] exI [of _ ?i]) simp
  qed
qed

section \<open>The tree is finite\<close>

lemma finite_lookup: "finite {cs. lookup n cs \<noteq> None}"
proof (induction n rule: measure_induct_rule [of size])
  case (less n)
  have "{cs. lookup n cs \<noteq> None} \<subseteq>
    insert [] (\<Union>(k, m) \<in> set (children n). if map_of (children n) k = Some m then (#) k ` {cs. lookup m cs \<noteq> None} else {})"
    (is "_ \<subseteq> insert [] (\<Union>(k, m) \<in> _. ?B k m)")
  proof
    fix cs assume "cs \<in> {cs. lookup n cs \<noteq> None}"
    then show "cs \<in> insert [] (\<Union>(k, m) \<in> set (children n). ?B k m)"
    proof (cases cs)
      case (Cons c ds)
      then obtain m where m: "map_of (children n) c = Some m" "lookup m ds \<noteq> None"
        using \<open>cs \<in> _\<close> by (auto split: option.splits)
      then have "cs \<in> ?B c m" using Cons by simp
      with map_of_SomeD [OF m(1)] show ?thesis by blast
    qed simp
  qed
  moreover have "finite (?B k m)" for k m
  proof (cases "map_of (children n) k = Some m")
    case True
    then have "size m < size n" by (cases n) (auto dest: child_smaller)
    with less show ?thesis by simp
  qed simp
  then have "finite (insert [] (\<Union>(k, m) \<in> set (children n). ?B k m))" by (auto simp del: finite_imageI)
  ultimately show ?case by (rule finite_subset)
qed

lemma finite_kinds: "finite {cs. kind_at n cs \<noteq> None}"
  using finite_lookup [of n] by (simp add: kind_at_def)

end
