(* ===== verification/InMemory_Laws.thy ===== *)
theory InMemory_Laws
  imports InMemory_Tree
begin

text \<open>
  The in-memory driver keeps the contract \<open>lawful_driver\<close> on the paths whose components are pairwise
  different, and runs of requests on such paths implement an abstract file system. On other paths it
  does not: the last section has the cases where it loses or misplaces files.
\<close>

section \<open>The operations of the driver on usable paths\<close>

lemma find_kind:
  assumes inv: "mem_inv s" and ok: "mem_ok cs" and k: "kind_at (m_root s) cs = Some k"
  obtains n where "find_from (m_root s) (normalize (abs_path cs)) = (cs, n)" "kind n = k"
    "lookup (m_root s) cs = Some n" "node_path s n = normalize (abs_path cs)" "normalize (abs_path cs) = abs_path cs"
proof -
  have pl: "\<forall>c \<in> set cs. plain c" by (rule mem_ok_plain [OF ok])
  obtain n where n: "lookup (m_root s) cs = Some n" "kind n = k" using k by (auto simp: kind_at_def)
  show thesis
    using that [OF _ n(2,1)] find_ok(1) [OF inv disjI2 [OF ok] trim_abs_path [OF pl] n(1)]
      lookup_path(1) [OF inv n(1)] normalize_abs_path [OF pl] by simp
qed

lemma find_none:
  assumes inv: "mem_inv s" and ok: "mem_ok cs" and k: "kind_at (m_root s) cs = None"
  obtains j n where "find_from (m_root s) (normalize (abs_path cs)) = (take j cs, n)" "j < length cs"
    "lookup (m_root s) (take j cs) = Some n"
    "node_path s n \<noteq> normalize (abs_path cs)" "normalize (abs_path cs) = abs_path cs"
proof -
  have pl: "\<forall>c \<in> set cs. plain c" by (rule mem_ok_plain [OF ok])
  have "lookup (m_root s) cs = None" using k by (simp add: kind_at_def)
  from find_other [OF inv ok trim_abs_path [OF pl] this] show thesis
    using that normalize_abs_path [OF pl] by metis
qed

lemma mem_Reader_file:
  assumes "mem_inv s" "mem_ok cs" "mem_file_at s cs = Some b"
  shows "mem_Reader s (abs_path cs) (int n) = Inr (drop n b)"
proof -
  from assms(3) obtain i where i: "kind_at (m_root s) cs = Some (KFile i)" "b = f_data (m_files s i)"
    by (auto simp: file_kind)
  obtain n where "find_from (m_root s) (normalize (abs_path cs)) = (cs, n)" "kind n = KFile i"
    "node_path s n = normalize (abs_path cs)" using find_kind [OF assms(1,2) i(1)] by blast
  with i show ?thesis by (cases n) (auto simp: mem_Reader_def Let_def)
qed

lemma mem_Reader_dir:
  assumes "mem_inv s" "mem_ok cs" "mem_dir_at s cs"
  shows "mem_Reader s (abs_path cs) (int n) = Inl (Errorf (abs_path cs @ '' is a directory''))"
proof -
  from assms(3) obtain p where p: "kind_at (m_root s) cs = Some (KDir p)" by (auto simp: dir_kind)
  obtain n where "find_from (m_root s) (normalize (abs_path cs)) = (cs, n)" "kind n = KDir p"
    "node_path s n = normalize (abs_path cs)" using find_kind [OF assms(1,2) p] by blast
  then show ?thesis by (cases n) (auto simp: mem_Reader_def Let_def)
qed

lemma mem_Reader_absent:
  assumes "mem_inv s" "mem_ok cs" "\<not> mem_entry_at s cs"
  shows "mem_Reader s (abs_path cs) (int n) = Inl (PathNotFoundError (abs_path cs) [])"
proof -
  from assms(3) have "kind_at (m_root s) cs = None" by (simp add: mem_entry_kind)
  then obtain j n where "find_from (m_root s) (normalize (abs_path cs)) = (take j cs, n)"
    "node_path s n \<noteq> normalize (abs_path cs)" using find_none [OF assms(1,2)] by blast
  then show ?thesis by (simp add: mem_Reader_def Let_def)
qed

lemma mem_Stat_entry:
  assumes "mem_inv s" "mem_ok cs" "kind_at (m_root s) cs = Some k"
  shows "\<exists>m. mem_Stat s (abs_path cs) = Inr \<lparr>fi_path = abs_path cs,
     fi_size = (case k of KDir _ \<Rightarrow> 0 | KFile i \<Rightarrow> length (f_data (m_files s i))), fi_modtime = m,
     fi_isdir = (case k of KDir _ \<Rightarrow> True | KFile _ \<Rightarrow> False)\<rparr>"
proof -
  obtain n where "find_from (m_root s) (normalize (abs_path cs)) = (cs, n)" "kind n = k"
    "node_path s n = normalize (abs_path cs)" using find_kind [OF assms] by blast
  then show ?thesis by (cases n) (auto simp: mem_Stat_def Let_def)
qed

lemma mem_Stat_absent:
  assumes "mem_inv s" "mem_ok cs" "\<not> mem_entry_at s cs"
  shows "mem_Stat s (abs_path cs) = Inl (PathNotFoundError (abs_path cs) [])"
proof -
  from assms(3) have "kind_at (m_root s) cs = None" by (simp add: mem_entry_kind)
  then obtain j n where "find_from (m_root s) (normalize (abs_path cs)) = (take j cs, n)"
    "node_path s n \<noteq> normalize (abs_path cs)" using find_none [OF assms(1,2)] by blast
  then show ?thesis by (simp add: mem_Stat_def Let_def)
qed

lemma find_from_lookup: "find_from n q = (l, m) \<Longrightarrow> lookup n l = Some m"
proof (induction n q arbitrary: l m rule: find_from.induct)
  case (1 i q)
  then show ?case by auto
next
  case (2 p t ch q)
  show ?case
  proof (cases "trim slash q = []")
    case True
    then show ?thesis using 2(2) by (auto simp: Let_def)
  next
    case False
    obtain c r where fc: "first_comp (trim slash q) = (c, r)" by fastforce
    show ?thesis
    proof (cases "map_of ch c")
      case None
      then show ?thesis using 2(2) False fc by (auto simp: Let_def)
    next
      case (Some child)
      show ?thesis
      proof (cases "isdir child")
        case True
        obtain l' m' where f: "find_from child r = (l', m')" by fastforce
        have "lookup child l' = Some m'"
          using 2(1) [OF refl False fc [symmetric] Some True] f by blast
        then show ?thesis using 2(2) False fc Some True f by (auto simp: Let_def)
      next
        case nd: False
        then show ?thesis using 2(2) False fc Some by (auto simp: Let_def)
      qed
    qed
  qed
qed

lemma find_no_child:
  "isdir n \<Longrightarrow> trim slash q = join_with slash (c # cs) \<Longrightarrow> \<forall>c \<in> set (c # cs). plain c \<Longrightarrow>
     map_of (children n) c = None \<Longrightarrow> find_from n q = ([], n)"
  using join_ends(1) [of "c # cs"] first_comp_join [of c cs] by (cases n) (auto simp: Let_def)

lemma children_paths:
  assumes inv: "mem_inv s" and n: "lookup (m_root s) cs = Some n"
  shows "distinct (map (\<lambda>(_, child). node_path s child) (children n))"
    and "set (map (\<lambda>(_, child). node_path s child) (children n)) =
      {abs_path (cs @ [c]) |c. kind_at (m_root s) (cs @ [c]) \<noteq> None}"
proof -
  have ko: "keys_ok n" by (rule keys_ok_lookup [OF mem_invD(1) [OF inv] n])
  then have dist: "distinct (map fst (children n))" by (cases n) auto
  have at: "lookup (m_root s) (cs @ [k]) = map_of (children n) k" for k
    using n by (simp add: lookup_append split: option.split)
  have path: "node_path s child = abs_path (cs @ [k]) \<and> mem_ok (cs @ [k])" if "(k, child) \<in> set (children n)" for k child
    using lookup_path [OF inv, of "cs @ [k]" child] at [of k] map_of_is_SomeI [OF dist that] by simp
  have eq: "map (\<lambda>(_, child). node_path s child) (children n) = map (\<lambda>k. abs_path (cs @ [k])) (map fst (children n))"
    using path by auto
  have "inj_on (\<lambda>k. abs_path (cs @ [k])) (fst ` set (children n))"
  proof (rule inj_onI)
    fix x y
    assume "x \<in> fst ` set (children n)" "y \<in> fst ` set (children n)" and e: "abs_path (cs @ [x]) = abs_path (cs @ [y])"
    then have "mem_ok (cs @ [x])" "mem_ok (cs @ [y])" using path by auto
    then show "x = y" using abs_path_eq_iff [OF mem_ok_plain mem_ok_plain] e by blast
  qed
  with dist show "distinct (map (\<lambda>(_, child). node_path s child) (children n))"
    unfolding eq by (simp add: distinct_map comp_inj_on)
  have "kind_at (m_root s) (cs @ [c]) \<noteq> None \<longleftrightarrow> c \<in> fst ` set (children n)" for c
    using at [of c] by (simp add: kind_at_def map_of_eq_None_iff)
  then show "set (map (\<lambda>(_, child). node_path s child) (children n)) =
      {abs_path (cs @ [c]) |c. kind_at (m_root s) (cs @ [c]) \<noteq> None}"
    unfolding eq by auto
qed

lemma mem_List_dir:
  assumes inv: "mem_inv s" and ok: "mem_ok cs" and dir: "mem_dir_at s cs"
  obtains xs where "mem_List s (abs_path cs) = Inr xs" "distinct xs" "sorted xs"
    "set xs = {abs_path (cs @ [c]) |c. mem_entry_at s (cs @ [c])}"
proof -
  from dir obtain p where p: "kind_at (m_root s) cs = Some (KDir p)" by (auto simp: dir_kind)
  obtain n where f: "find_from (m_root s) (normalize (abs_path cs)) = (cs, n)" "kind n = KDir p"
    "lookup (m_root s) cs = Some n" "node_path s n = normalize (abs_path cs)" "normalize (abs_path cs) = abs_path cs"
    using find_kind [OF inv ok p] by blast
  have dn: "isdir n" using f(2) by (auto simp: isdir_kind)
  have pl: "\<forall>c \<in> set cs. plain c" by (rule mem_ok_plain [OF ok])
  obtain c cs' where cs: "cs = c # cs'" using ok by (cases cs) (auto simp: mem_ok_def comps_ok_def)
  have "map_of (children n) c = None"
  proof (rule ccontr)
    assume "map_of (children n) c \<noteq> None"
    then obtain m where "lookup (m_root s) (cs @ [c]) = Some m" using f(3) by (auto simp: lookup_append)
    then have "mem_ok (cs @ [c])" using lookup_path(2) [OF inv] by blast
    with cs show False by (simp add: mem_ok_def)
  qed
  then have "find_from n (normalize (abs_path cs)) = ([], n)"
    using find_no_child [OF dn _ _ , of "normalize (abs_path cs)" c cs'] trim_abs_path [OF pl] pl f(5) cs by simp
  then have "list_from s n (normalize (abs_path cs)) = Inr (sort (map (\<lambda>(_, child). node_path s child) (children n)))"
    using f(4) dn by (simp add: list_from_def)
  then have "mem_List s (abs_path cs) = Inr (sort (map (\<lambda>(_, child). node_path s child) (children n)))"
    using f(1) dn by (simp add: mem_List_def)
  then show thesis using that children_paths [OF inv f(3)] by (simp add: mem_entry_kind)
qed

lemma mem_List_absent:
  assumes inv: "mem_inv s" and ok: "mem_ok cs" and abs: "\<not> mem_entry_at s cs"
    and nofile: "\<forall>k < length cs. mem_file_at s (take k cs) = None"
  shows "mem_List s (abs_path cs) = Inl (PathNotFoundError (abs_path cs) [])"
proof -
  from abs have k: "kind_at (m_root s) cs = None" by (simp add: mem_entry_kind)
  obtain j n where f: "find_from (m_root s) (normalize (abs_path cs)) = (take j cs, n)" "j < length cs"
    "lookup (m_root s) (take j cs) = Some n" "normalize (abs_path cs) = abs_path cs"
    using find_none [OF inv ok k] by blast
  have dn: "isdir n" using nofile f(2,3) by (cases n) (auto simp: no_file_kind kind_at_def)
  obtain l m where g: "find_from n (abs_path cs) = (l, m)" by fastforce
  have lk: "lookup (m_root s) (take j cs @ l) = Some m"
    using find_from_lookup [OF g] f(3) by (simp add: lookup_append)
  have "node_path s m \<noteq> abs_path cs"
  proof
    assume "node_path s m = abs_path cs"
    then have "abs_path (take j cs @ l) = abs_path cs" using lookup_path(1) [OF inv lk] by simp
    moreover have "\<forall>c \<in> set (take j cs @ l). plain c"
      using lookup_path(2) [OF inv lk] mem_ok_plain by (metis empty_iff list.set(1))
    ultimately have "take j cs @ l = cs" using abs_path_eq_iff [OF _ mem_ok_plain [OF ok]] by blast
    with lk k show False by (simp add: kind_at_def)
  qed
  then have "list_from s n (abs_path cs) = Inl errNotExists" using g by (simp add: list_from_def)
  then show ?thesis using f(1,4) dn by (simp add: mem_List_def)
qed

lemma mem_PutContent_spec:
  assumes inv: "mem_inv s" and ok: "mem_ok cs" and can: "can_put mem_file_at mem_dir_at s cs"
  obtains s' where "mem_PutContent s (abs_path cs) b = (s', None)" "mem_inv s'"
    "mem_file_at s' = (mem_file_at s)(cs \<mapsto> b)"
    "\<And>ds. mem_dir_at s' ds \<longleftrightarrow> mem_dir_at s ds \<or> (\<exists>n < length cs. ds = take n cs)"
proof -
  obtain s1 i where m: "mkfile s (abs_path cs) = (s1, Inr i)" "mem_inv s1"
    and k: "\<And>ds. kind_at (m_root s1) ds =
         (if ds = cs then Some (KFile i)
          else if \<exists>j < length cs. ds = take j cs then Some (KDir (abs_path ds)) else kind_at (m_root s) ds)"
    and fl: "\<And>ds j. kind_at (m_root s) ds = Some (KFile j) \<Longrightarrow> m_files s1 j = m_files s j"
    using mkfile_spec [OF inv ok can] by blast
  let ?s = "WriteAt (truncate_file s1 i) i b 0"
  have put: "mem_PutContent s (abs_path cs) b = (?s, None)"
    using m(1) normalize_abs_path [OF mem_ok_plain [OF ok]] by (simp add: mem_PutContent_def)
  have root: "m_root ?s = m_root s1" "m_next ?s = m_next s1" by (simp_all add: WriteAt_def truncate_file_def)
  have inv': "mem_inv ?s" by (rule mem_inv_files [OF m(2) root]) (simp add: WriteAt_def truncate_file_def)
  have neg: "mem_file_at s (take j cs) = None" if "j < length cs" for j using can that by (simp add: can_put_def)
  have "mem_file_at ?s ds = ((mem_file_at s)(cs \<mapsto> b)) ds" for ds
  proof (cases "ds = cs")
    case True
    then show ?thesis using k [of cs] by (simp add: mem_file_at_def root WriteAt_def truncate_file_def)
  next
    case False
    show ?thesis
    proof (cases "\<exists>j < length cs. ds = take j cs")
      case True
      then show ?thesis using k [of ds] False neg by (auto simp: mem_file_at_def root)
    next
      case nt: False
      have kd: "kind_at (m_root s1) ds = kind_at (m_root s) ds" unfolding k using nt False by auto
      have "j \<noteq> i" if "kind_at (m_root s) ds = Some (KFile j)" for j
        using mem_invD(6) [OF m(2), of ds j cs] k [of cs] kd that False by auto
      then show ?thesis
        using kd False fl [of ds]
        by (auto simp: mem_file_at_def root WriteAt_def truncate_file_def split: option.split node_kind.split)
    qed
  qed
  then have "mem_file_at ?s = (mem_file_at s)(cs \<mapsto> b)" by blast
  moreover have "mem_dir_at ?s ds \<longleftrightarrow> mem_dir_at s ds \<or> (\<exists>n < length cs. ds = take n cs)" for ds
    using can unfolding dir_kind root k by (auto simp: can_put_def dir_kind)
  ultimately show thesis using that put inv' by blast
qed

lemma find_dir:
  assumes inv: "mem_inv s" and ok: "ds = [] \<or> mem_ok ds" and n: "lookup (m_root s) ds = Some n"
  shows "find_from (m_root s) (dir_str ds) = (ds, n)" "normalize (dir_str ds) = abs_path ds"
    "normalize (node_path s n) = abs_path ds"
proof -
  have pl: "\<forall>c \<in> set ds. plain c" using ok mem_ok_plain by auto
  show "find_from (m_root s) (dir_str ds) = (ds, n)" by (rule find_ok(1) [OF inv ok trim_dir_str [OF pl] n])
  show "normalize (dir_str ds) = abs_path ds" by (rule normalize_dir_str [OF pl])
  show "normalize (node_path s n) = abs_path ds"
    using lookup_path(1) [OF inv n] normalize_abs_path [OF pl] by simp
qed

lemma mem_Delete_entry:
  assumes inv: "mem_inv s" and ok: "mem_ok cs" and ex: "mem_entry_at s cs"
  obtains s' where "mem_Delete s (abs_path cs) = (s', None)" "mem_inv s'"
    "\<And>ds. mem_file_at s' ds = (if take (length cs) ds = cs then None else mem_file_at s ds)"
    "\<And>ds. mem_dir_at s' ds \<longleftrightarrow> mem_dir_at s ds \<and> take (length cs) ds \<noteq> cs"
proof -
  obtain ds c where cs: "cs = ds @ [c]" using ok by (cases cs rule: rev_cases) (auto simp: mem_ok_def comps_ok_def)
  have pl: "\<forall>c \<in> set cs. plain c" by (rule mem_ok_plain [OF ok])
  have dok: "ds = [] \<or> mem_ok ds" using ok cs mem_ok_prefix by blast
  from ex have k: "kind_at (m_root s) (ds @ [c]) \<noteq> None" by (simp add: mem_entry_kind cs)
  obtain n where n: "lookup (m_root s) ds = Some n" "isdir n"
    using kind_at_parent [OF k] by (auto simp: kind_at_def isdir_kind)
  have ch: "map_of (children n) c \<noteq> None" using k n(1) by (auto simp: kind_at_def lookup_append split: option.splits)
  let ?s = "s\<lparr>m_root := update_at (dir_remove c) ds (m_root s)\<rparr>"
  have ps: "path_split (abs_path cs) = (dir_str ds, c)" using path_split_abs [of c ds] pl cs by simp
  have del: "mem_Delete s (abs_path cs) = (?s, None)"
    using find_dir [OF inv dok n(1)] n(2) ch ps normalize_abs_path [OF pl] by (simp add: mem_Delete_def fs_delete_def)
  have k': "kind_at (m_root ?s) es = (if take (length cs) es = cs then None else kind_at (m_root s) es)" for es
    using kind_remove [OF n, of c es] cs by simp
  have "cs \<noteq> []" using cs by simp
  have "mem_inv ?s"
  proof (rule mem_invI)
    show "keys_ok (m_root ?s)" using mem_invD(1) [OF inv] by (simp add: keys_ok_update_at keys_ok_remove)
    show "isdir (m_root ?s)" using k' [of "[]"] mem_invD(2) [OF inv] \<open>cs \<noteq> []\<close> by (auto simp: isdir_kind)
    show "es = [] \<or> mem_ok es" "kind_path ?s k = abs_path es" if "kind_at (m_root ?s) es = Some k" for es k
      using that mem_invD(3,4) [OF inv, of es k] unfolding k' by (auto split: if_splits)
    show "i < m_next ?s" if "kind_at (m_root ?s) es = Some (KFile i)" for es i
      using that mem_invD(5) [OF inv, of es i] unfolding k' by (auto split: if_splits)
    show "es = es'" if "kind_at (m_root ?s) es = Some (KFile i)" "kind_at (m_root ?s) es' = Some (KFile i)" for es es' i
      using that mem_invD(6) [OF inv, of es i es'] unfolding k' by (auto split: if_splits)
  qed
  moreover have "mem_file_at ?s es = (if take (length cs) es = cs then None else mem_file_at s es)" for es
    unfolding mem_file_at_def k' by (simp split: option.split node_kind.split)
  moreover have "mem_dir_at ?s es \<longleftrightarrow> mem_dir_at s es \<and> take (length cs) es \<noteq> cs" for es
    unfolding dir_kind k' by simp
  ultimately show thesis using that del by blast
qed

lemma mem_Delete_absent:
  assumes inv: "mem_inv s" and ok: "mem_ok cs" and abs: "\<not> mem_entry_at s cs"
    and par: "mem_file_at s (butlast cs) = None"
  shows "mem_Delete s (abs_path cs) = (s, Some (PathNotFoundError (abs_path cs) []))"
proof -
  obtain ds c where cs: "cs = ds @ [c]" using ok by (cases cs rule: rev_cases) (auto simp: mem_ok_def comps_ok_def)
  have pl: "\<forall>c \<in> set cs. plain c" by (rule mem_ok_plain [OF ok])
  have dok: "ds = [] \<or> mem_ok ds" using ok cs mem_ok_prefix by blast
  have ps: "path_split (abs_path cs) = (dir_str ds, c)" using path_split_abs [of c ds] pl cs by simp
  have pd: "\<forall>c \<in> set ds. plain c" using pl cs by simp
  have "fs_delete s (abs_path cs) = (s, Some errNotExists)"
  proof (cases "lookup (m_root s) ds")
    case (Some n)
    then have "isdir n" using par cs by (cases n) (auto simp: no_file_kind kind_at_def)
    moreover have "map_of (children n) c = None"
      using abs Some by (auto simp: mem_entry_kind cs kind_at_def lookup_append split: option.splits)
    ultimately show ?thesis using find_dir [OF inv dok Some] ps by (simp add: fs_delete_def)
  next
    case None
    then have "mem_ok ds" using dok by auto
    from find_other [OF inv this trim_dir_str [OF pd] None]
    obtain k n where f: "find_from (m_root s) (dir_str ds) = (take k ds, n)" "node_path s n = abs_path (take k ds)"
      "abs_path (take k ds) \<noteq> abs_path ds" by blast
    have "normalize (node_path s n) = abs_path (take k ds)"
      unfolding f(2) by (rule normalize_abs_path [OF take_plain [OF pd]])
    then show ?thesis using f ps normalize_dir_str [OF pd] by (simp add: fs_delete_def)
  qed
  then show ?thesis using normalize_abs_path [OF pl] by (simp add: mem_Delete_def)
qed

section \<open>The driver keeps the contract\<close>

lemma mem_driver_sel [simp]:
  "Name mem_driver = driverName" "GetContent mem_driver = mem_GetContent" "PutContent mem_driver = mem_PutContent"
  "Reader mem_driver = mem_Reader" "Writer mem_driver = mem_Writer" "Stat mem_driver = mem_Stat"
  "ListDir mem_driver = mem_List" "Move mem_driver = mem_Move" "Delete mem_driver = mem_Delete"
  "DeleteFiles mem_driver = (\<lambda>s ps. mem_DeleteFiles s 0 ps)"
  by (simp_all add: mem_driver_def)

lemma mem_ok_regexp: "mem_ok cs \<Longrightarrow> match_string PathRegexp (abs_path cs)"
  by (auto simp: mem_ok_def intro: PathRegexp_abs)

lemma inmemory_sel [simp]:
  "Name inmemory_Driver = driverName" "GetContent inmemory_Driver = base_GetContent mem_driver"
  "PutContent inmemory_Driver = base_PutContent mem_driver" "Reader inmemory_Driver = base_Reader mem_driver"
  "Stat inmemory_Driver = base_Stat mem_driver" "ListDir inmemory_Driver = base_List mem_driver"
  "Delete inmemory_Driver = base_Delete mem_driver"
  by (simp_all add: inmemory_Driver_def)

lemmas base_defs = base_GetContent_def base_PutContent_def base_Reader_def base_Stat_def base_List_def
  base_Delete_def named_result_def

interpretation inmem: lawful_driver inmemory_Driver mem_inv mem_ok mem_file_at mem_dir_at
proof
  show "comps_ok cs" if "mem_ok cs" for cs using that by (simp add: mem_ok_def)
  show "mem_ok cs" if "mem_ok (cs @ ds)" "cs \<noteq> []" for cs ds using that by (rule mem_ok_prefix)
  show "cs = [] \<or> mem_ok cs" if "mem_inv s" "mem_entry_at s cs" for s cs
    using that mem_invD(3) by (auto simp: mem_entry_kind)
  show "mem_dir_at s cs" if "mem_inv s" "mem_entry_at s (cs @ [c])" for s cs c
    using that kind_at_parent by (auto simp: mem_entry_kind dir_kind)
  show "finite {cs. mem_entry_at s cs}" for s
    using finite_kinds [of "m_root s"] by (simp add: mem_entry_kind)
  show "\<not> mem_dir_at s cs" if "mem_inv s" "mem_file_at s cs \<noteq> None" for s cs
    using that by (auto simp: file_kind dir_kind)
  fix s :: mem and cs
  assume inv: "mem_inv s" and ok: "mem_ok cs"
  note re = mem_ok_regexp [OF ok]
  show "GetContent inmemory_Driver s (abs_path cs) = Inr b" if "mem_file_at s cs = Some b" for b
    using mem_Reader_file [OF inv ok that, of 0] re by (simp add: base_defs mem_GetContent_def)
  show "GetContent inmemory_Driver s (abs_path cs) = Inl (PathNotFoundError (abs_path cs) (Name inmemory_Driver))"
    if "\<not> mem_entry_at s cs"
    using mem_Reader_absent [OF inv ok that, of 0] re by (simp add: base_defs mem_GetContent_def)
  show "\<exists>e. GetContent inmemory_Driver s (abs_path cs) = Inl (StorageError (Name inmemory_Driver) e)"
    if "mem_dir_at s cs"
    using mem_Reader_dir [OF inv ok that, of 0] re by (simp add: base_defs mem_GetContent_def)
  show "Reader inmemory_Driver s (abs_path cs) (int n) = Inr (drop n b)" if "mem_file_at s cs = Some b" for b n
    using mem_Reader_file [OF inv ok that] re by (simp add: base_defs)
  show "\<exists>m. Stat inmemory_Driver s (abs_path cs) =
      Inr \<lparr>fi_path = abs_path cs, fi_size = length b, fi_modtime = m, fi_isdir = False\<rparr>"
    if "mem_file_at s cs = Some b" for b
    using mem_Stat_entry [OF inv ok] that re by (fastforce simp: base_defs file_kind)
  show "\<exists>m. Stat inmemory_Driver s (abs_path cs) =
      Inr \<lparr>fi_path = abs_path cs, fi_size = 0, fi_modtime = m, fi_isdir = True\<rparr>"
    if "mem_dir_at s cs"
    using mem_Stat_entry [OF inv ok] that re by (fastforce simp: base_defs dir_kind)
  show "Stat inmemory_Driver s (abs_path cs) = Inl (PathNotFoundError (abs_path cs) (Name inmemory_Driver))"
    if "\<not> mem_entry_at s cs"
    using mem_Stat_absent [OF inv ok that] re by (simp add: base_defs)
  show "\<exists>xs. ListDir inmemory_Driver s (abs_path cs) = Inr xs \<and> distinct xs \<and>
      set xs = {abs_path (cs @ [c]) |c. mem_entry_at s (cs @ [c])}"
    if "mem_dir_at s cs"
  proof -
    note h = that
    obtain xs where "mem_List s (abs_path cs) = Inr xs" "distinct xs" "sorted xs"
      "set xs = {abs_path (cs @ [c]) |c. mem_entry_at s (cs @ [c])}"
      by (rule mem_List_dir [OF inv ok h])
    then show ?thesis using re by (intro exI [of _ xs]) (simp add: base_defs)
  qed
  show "ListDir inmemory_Driver s (abs_path cs) = Inl (PathNotFoundError (abs_path cs) (Name inmemory_Driver))"
    if "\<not> mem_entry_at s cs" "\<forall>n < length cs. mem_file_at s (take n cs) = None"
    using mem_List_absent [OF inv ok that] re by (simp add: base_defs)
  show "\<exists>s'. PutContent inmemory_Driver s (abs_path cs) b = (s', None) \<and> mem_inv s'
      \<and> mem_file_at s' = (mem_file_at s)(cs \<mapsto> b)
      \<and> (\<forall>ds. mem_dir_at s' ds \<longleftrightarrow> mem_dir_at s ds \<or> (\<exists>n < length cs. ds = take n cs))"
    if "can_put mem_file_at mem_dir_at s cs" for b
  proof -
    note h = that
    obtain s' where "mem_PutContent s (abs_path cs) b = (s', None)" "mem_inv s'"
      "mem_file_at s' = (mem_file_at s)(cs \<mapsto> b)"
      "\<forall>ds. mem_dir_at s' ds \<longleftrightarrow> mem_dir_at s ds \<or> (\<exists>n < length cs. ds = take n cs)"
      by (rule mem_PutContent_spec [OF inv ok h, of b]) blast
    then show ?thesis using re by (intro exI [of _ s']) (simp add: base_defs)
  qed
  show "\<exists>s'. Delete inmemory_Driver s (abs_path cs) = (s', None) \<and> mem_inv s'
      \<and> (\<forall>ds. mem_file_at s' ds = (if take (length cs) ds = cs then None else mem_file_at s ds))
      \<and> (\<forall>ds. mem_dir_at s' ds \<longleftrightarrow> mem_dir_at s ds \<and> take (length cs) ds \<noteq> cs)"
    if "mem_entry_at s cs"
  proof -
    note h = that
    obtain s' where "mem_Delete s (abs_path cs) = (s', None)" "mem_inv s'"
      "\<forall>ds. mem_file_at s' ds = (if take (length cs) ds = cs then None else mem_file_at s ds)"
      "\<forall>ds. mem_dir_at s' ds \<longleftrightarrow> mem_dir_at s ds \<and> take (length cs) ds \<noteq> cs"
      by (rule mem_Delete_entry [OF inv ok h]) blast
    then show ?thesis using re by (intro exI [of _ s']) (simp add: base_defs)
  qed
  show "Delete inmemory_Driver s (abs_path cs) = (s, Some (PathNotFoundError (abs_path cs) (Name inmemory_Driver)))"
    if "\<not> mem_entry_at s cs" "mem_file_at s (butlast cs) = None"
    using mem_Delete_absent [OF inv ok that] re by (simp add: base_defs)
qed

text \<open>The walks run on the driver without its wrapper, which reads the same tree.\<close>

lemma named_result_ok: "named_result nm r = Inr x \<longleftrightarrow> r = Inr x"
  by (simp add: named_result_def split: sum.split)

interpretation raw_mem: readable_driver mem_driver mem_inv mem_ok mem_file_at mem_dir_at
proof
  show "comps_ok cs" if "mem_ok cs" for cs using that by (rule inmem.ok_comps)
  show "mem_ok cs" if "mem_ok (cs @ ds)" "cs \<noteq> []" for cs ds using that by (rule inmem.ok_prefix)
  fix s cs
  assume inv: "mem_inv s"
  show "cs = [] \<or> mem_ok cs" if "mem_entry_at s cs" using inv that by (rule inmem.entry_ok)
  show "mem_dir_at s cs" if "mem_entry_at s (cs @ [c])" for c using inv that by (rule inmem.entry_parent)
  show "finite {cs. mem_entry_at s cs}" using inv by (rule inmem.finite_entries)
  show "\<not> mem_dir_at s cs" if "mem_file_at s cs \<noteq> None" using inv that by (rule inmem.file_not_dir)
  assume ok: "mem_ok cs"
  note re = mem_ok_regexp [OF ok]
  show "\<exists>m. Stat mem_driver s (abs_path cs) = Inr \<lparr>fi_path = abs_path cs, fi_size = length b, fi_modtime = m, fi_isdir = False\<rparr>"
    if "mem_file_at s cs = Some b" for b
    using inmem.stat_file [OF inv ok that] re by (simp add: base_Stat_def base_List_def named_result_ok)
  show "\<exists>m. Stat mem_driver s (abs_path cs) = Inr \<lparr>fi_path = abs_path cs, fi_size = 0, fi_modtime = m, fi_isdir = True\<rparr>"
    if "mem_dir_at s cs"
    using inmem.stat_dir [OF inv ok that] re by (simp add: base_Stat_def base_List_def named_result_ok)
  show "\<exists>xs. ListDir mem_driver s (abs_path cs) = Inr xs \<and> distinct xs \<and>
      set xs = {abs_path (cs @ [c]) |c. mem_entry_at s (cs @ [c])}"
    if "mem_dir_at s cs"
    using inmem.list_dir [OF inv ok that] re by (simp add: base_Stat_def base_List_def named_result_ok)
qed

section \<open>Failures, moves and writers\<close>

text \<open>A file that cannot be put leaves the state as it was.\<close>

lemma mkfile_fail:
  assumes inv: "mem_inv s" and ok: "mem_ok cs" and can: "\<not> can_put mem_file_at mem_dir_at s cs"
  obtains e where "mkfile s (abs_path cs) = (s, Inl e)"
proof (cases "mem_dir_at s cs")
  case True
  then obtain p where p: "kind_at (m_root s) cs = Some (KDir p)" by (auto simp: dir_kind)
  obtain n where "find_from (m_root s) (normalize (abs_path cs)) = (cs, n)" "kind n = KDir p"
    "node_path s n = normalize (abs_path cs)" "normalize (abs_path cs) = abs_path cs"
    using find_kind [OF inv ok p] by blast
  then show thesis using that by (cases n) (auto simp: mkfile_def)
next
  case False
  then obtain k i where k: "k < length cs" "kind_at (m_root s) (take k cs) = Some (KFile i)"
    using can by (auto simp: can_put_def file_kind)
  obtain ds c where cs: "cs = ds @ [c]" using ok by (cases cs rule: rev_cases) (auto simp: mem_ok_def comps_ok_def)
  have pl: "\<forall>c \<in> set cs. plain c" by (rule mem_ok_plain [OF ok])
  have pd: "\<forall>c \<in> set ds. plain c" "plain c" using pl cs by auto
  have none: "kind_at (m_root s) es = None" if "take (length es) cs = es" "k < length es" for es
  proof (rule ccontr)
    assume "kind_at (m_root s) es \<noteq> None"
    from prefix_is_dir [OF inv this that(2)] that k show False
      by (metis (no_types, lifting) length_take less_imp_le_nat min.absorb1 node_kind.distinct(1) option.inject take_take min.absorb3)
  qed
  have ncs: "kind_at (m_root s) cs = None" using none [of cs] k(1) by simp
  obtain j n where f: "find_from (m_root s) (normalize (abs_path cs)) = (take j cs, n)"
    "node_path s n \<noteq> normalize (abs_path cs)" "normalize (abs_path cs) = abs_path cs"
    using find_none [OF inv ok ncs] by blast
  have "fst (mkdirs s (dir_str ds)) = s \<and> snd (mkdirs s (dir_str ds)) = Inl errIsNotDir"
  proof (cases "lookup (m_root s) ds")
    case (Some d)
    then have "ds = take k cs" using none [of ds] k(1) cs
      by (metis append_eq_conv_conj butlast_snoc kind_at_def length_butlast linorder_neqE_nat
          not_less_eq length_append_singleton option.map_disc_iff option.distinct(1) take_all_iff)
    then have "d = NFile i" using k(2) Some by (cases d) (auto simp: kind_at_def)
    moreover have "ds = [] \<or> mem_ok ds" using ok cs mem_ok_prefix by blast
    ultimately show ?thesis
      using find_ok(1) [OF inv _ trim_abs_path [OF pd(1)] Some] normalize_dir_str [OF pd(1)]
      by (auto simp: mkdirs_def)
  next
    case None
    then have dok: "mem_ok ds" using ok cs mem_ok_prefix mem_invD(2) [OF inv] by (cases "ds = []") auto
    obtain l m where g: "l < length ds" "find_from (m_root s) (abs_path ds) = (take l ds, m)"
      "lookup (m_root s) (take l ds) = Some m" "isdir m \<Longrightarrow> lookup (m_root s) (take (Suc l) ds) = None"
      using find_other [OF inv dok trim_abs_path [OF pd(1)] None] by blast
    have "l = k"
    proof (rule ccontr)
      assume "l \<noteq> k"
      then consider "k < l" | "l < k" by linarith
      then show False
      proof cases
        case 1
        then show ?thesis using none [of "take l ds"] g(1,3) cs by (simp add: kind_at_def min_def)
      next
        case 2
        then have "k < length cs" "take (Suc l) ds = take (Suc l) cs" using k(1) g(1) cs by auto
        moreover have "kind_at (m_root s) (take (Suc l) cs) \<noteq> None"
          using kind_at_None_append [of "m_root s" "take (Suc l) cs" "drop (Suc l) (take k cs)"] k(2) 2
          by (metis Suc_leI append_take_drop_id min.absorb1 option.distinct(1) take_take)
        moreover have "isdir m"
          using prefix_is_dir [OF inv, of "take k cs" l] k g(1,3) 2 cs by (auto simp: kind_at_def isdir_kind min_def)
        ultimately show ?thesis using g(4) by (simp add: kind_at_def)
      qed
    qed
    then have "\<not> isdir m" using g k cs by (cases m) (auto simp: kind_at_def)
    then show ?thesis using g(2) normalize_dir_str [OF pd(1)] by (simp add: mkdirs_def)
  qed
  then have "mkdirs s (dir_str ds) = (s, Inl errIsNotDir)" by (metis prod.collapse)
  then show thesis
    using that f path_split_abs [OF pd(2), of ds] cs by (simp add: mkfile_def)
qed

text \<open>Moving a file.\<close>

lemma file_below:
  assumes "kind_at n cs = Some (KFile i)"
  shows "kind_at n (cs @ e # es) = None"
  using assms by (cases "lookup n cs"; cases "the (lookup n cs)") (auto simp: kind_at_def lookup_append)

lemma take_proper: "k < length dst \<Longrightarrow> take k dst \<noteq> dst"
  by (metis length_take less_irrefl min.absorb4)

lemma can_put_below:
  assumes inv: "mem_inv s" and can: "\<not> mem_dir_at s cs"
  shows "kind_at (m_root s) (cs @ e # es) = None"
proof (rule ccontr)
  assume "kind_at (m_root s) (cs @ e # es) \<noteq> None"
  from prefix_is_dir [OF inv this, of "length cs"] can show False by (simp add: dir_kind)
qed

text \<open>The tree after \<open>move\<close> of a file: first the directories, then the entry itself.\<close>

lemma fs_move_file:
  assumes inv: "mem_inv s" and oks: "mem_ok src" and okd: "mem_ok dst"
    and i: "kind_at (m_root s) src = Some (KFile i)"
    and can: "can_put mem_file_at mem_dir_at s dst" and ne: "src \<noteq> dst"
  shows "\<exists>s' s1. mem_Move s (abs_path src) (abs_path dst) = (s', None) \<and> mem_inv s1
    \<and> keys_ok (m_root s') \<and> m_next s' = m_next s1
    \<and> m_files s' = (m_files s)(i := (m_files s i)\<lparr>f_p := abs_path dst\<rparr>) \<and> m_files s1 = m_files s
    \<and> kind_at (m_root s1) src = Some (KFile i)
    \<and> (\<forall>es. kind_at (m_root s1) es =
         (if \<exists>j < length dst. es = take j dst then Some (KDir (abs_path es)) else kind_at (m_root s) es))
    \<and> (\<forall>es. kind_at (m_root s') es =
         (if es = dst then Some (KFile i) else if es = src then None else kind_at (m_root s1) es))"
proof -
  obtain sd sc where src: "src = sd @ [sc]" using oks by (cases src rule: rev_cases) (auto simp: mem_ok_def comps_ok_def)
  obtain dd dc where dst: "dst = dd @ [dc]" using okd by (cases dst rule: rev_cases) (auto simp: mem_ok_def comps_ok_def)
  have pl: "\<forall>c \<in> set src. plain c" "\<forall>c \<in> set dst. plain c" by (rule mem_ok_plain, fact)+
  have pd: "\<forall>c \<in> set sd. plain c" "plain sc" "\<forall>c \<in> set dd. plain c" "plain dc" using pl src dst by auto
  have okp: "sd = [] \<or> mem_ok sd" "dd = [] \<or> mem_ok dd" using oks okd src dst mem_ok_prefix by blast+
  have nofile: "kind_at (m_root s) (take k dd) \<noteq> Some (KFile j)" if "k \<le> length dd" for k j
    using can that dst by (auto simp: can_put_def no_file_kind)
  have srcdst: "src \<noteq> take k dst" if "k < length dst" for k
    using nofile [of k i] i that dst by auto
  from mkdirs_spec [OF inv okp(2) normalize_dir_str [OF pd(3)] nofile]
  obtain s1 d where m: "mkdirs s (dir_str dd) = (s1, Inr (dd, d))" "mem_inv s1" "lookup (m_root s1) dd = Some d" "isdir d"
      "m_files s1 = m_files s" "m_next s1 = m_next s"
    and k1: "\<And>es. kind_at (m_root s1) es =
         (if \<exists>j \<le> length dd. es = take j dd then Some (KDir (abs_path es)) else kind_at (m_root s) es)"
    by blast
  have k1': "kind_at (m_root s1) es =
         (if \<exists>j < length dst. es = take j dst then Some (KDir (abs_path es)) else kind_at (m_root s) es)" for es
    unfolding k1 using dst by (auto simp: less_Suc_eq_le)
  have ksrc: "kind_at (m_root s1) src = Some (KFile i)" unfolding k1' using srcdst i by auto
  obtain sp where sp: "lookup (m_root s1) sd = Some sp" "isdir sp"
    using kind_at_parent [of "m_root s1" sd sc] ksrc src by (auto simp: kind_at_def isdir_kind)
  have ch: "map_of (children sp) sc = Some (NFile i)"
    using ksrc sp(1) src by (auto simp: kind_at_def lookup_append split: option.splits elim: kind.elims)
  let ?r = "update_at (dir_remove sc) sd (m_root s1)"
  let ?s = "s1\<lparr>m_root := update_at (dir_add (m_now s1) dc (NFile i)) dd ?r,
              m_files := (m_files s1)(i := (m_files s1 i)\<lparr>f_p := abs_path dst\<rparr>)\<rparr>"
  have kr: "kind_at ?r es = (if es = src then None else kind_at (m_root s1) es)" for es
  proof (cases "take (length src) es = src")
    case True
    then obtain es' where "es = src @ es'" by (metis append_take_drop_id)
    then show ?thesis
      using kind_remove [OF sp, of sc es] src file_below [OF ksrc] by (cases es') auto
  next
    case False
    then show ?thesis using kind_remove [OF sp, of sc es] src by auto
  qed
  have "dd \<noteq> src" using srcdst [of "length dd"] dst by auto
  then have "kind_at ?r dd = kind_at (m_root s1) dd" using kr by simp
  then obtain d' where d': "lookup ?r dd = Some d'" "isdir d'" using m(3,4) by (auto simp: kind_at_def isdir_kind)
  have nd: "\<not> mem_dir_at s1 dst"
  proof -
    have "\<nexists>j. j < length dst \<and> dst = take j dst" using take_proper by metis
    then show ?thesis using can unfolding dir_kind k1' by (auto simp: can_put_def dir_kind)
  qed
  have "kind_at ?r (dd @ dc # e # es) = None" for e es
    using can_put_below [OF m(2) nd, of e es] kr [of "dd @ dc # e # es"] dst by auto
  from kind_put_leaf [OF d', of "NFile i" dc "m_now s1"] this
  have "kind_at (m_root ?s) es = (if es = dst then Some (KFile i) else if es = src then None else kind_at (m_root s1) es)" for es
    using kr [of es] dst by simp
  moreover have "path_split (abs_path dst) = (dir_str dd, dc)" "path_split (abs_path src) = (dir_str sd, sc)"
    "common_name (abs_path dst) = dc"
    using path_split_abs common_name_abs pd src dst by simp_all
  then have "mem_Move s (abs_path src) (abs_path dst) = (?s, None)"
    using m(1) find_dir [OF m(2) okp(1) sp(1)] sp(2) ch normalize_abs_path [OF pl(1)] normalize_abs_path [OF pl(2)]
    by (simp add: mem_Move_def fs_move_def Let_def)
  moreover have "keys_ok (m_root ?s)"
    using mem_invD(1) [OF m(2)] by (simp add: keys_ok_update_at keys_ok_add keys_ok_remove)
  ultimately show ?thesis using m(2,5) ksrc k1' by (intro exI [of _ ?s] exI [of _ s1]) simp
qed

lemma mem_Move_file:
  assumes inv: "mem_inv s" and oks: "mem_ok src" and okd: "mem_ok dst" and b: "mem_file_at s src = Some b"
    and can: "can_put mem_file_at mem_dir_at s dst" and ne: "src \<noteq> dst"
  obtains s' where "mem_Move s (abs_path src) (abs_path dst) = (s', None)" "mem_inv s'"
    "mem_file_at s' = (mem_file_at s)(src := None, dst := Some b)"
    "\<And>ds. mem_dir_at s' ds \<longleftrightarrow> mem_dir_at s ds \<or> (\<exists>n < length dst. ds = take n dst)"
proof -
  from b obtain i where i: "kind_at (m_root s) src = Some (KFile i)" "b = f_data (m_files s i)" by (auto simp: file_kind)
  obtain s' s1 where move: "mem_Move s (abs_path src) (abs_path dst) = (s', None)" and s1: "mem_inv s1"
    and ko: "keys_ok (m_root s')" "m_next s' = m_next s1"
    and fl: "m_files s' = (m_files s)(i := (m_files s i)\<lparr>f_p := abs_path dst\<rparr>)" "m_files s1 = m_files s"
    and ksrc: "kind_at (m_root s1) src = Some (KFile i)"
    and k1: "\<And>es. kind_at (m_root s1) es =
         (if \<exists>j < length dst. es = take j dst then Some (KDir (abs_path es)) else kind_at (m_root s) es)"
    and k2: "\<And>es. kind_at (m_root s') es =
         (if es = dst then Some (KFile i) else if es = src then None else kind_at (m_root s1) es)"
    using fs_move_file [OF inv oks okd i(1) can ne] by blast
  have uniq: "es = src" if "kind_at (m_root s1) es = Some (KFile i)" for es
    by (rule mem_invD(6) [OF s1 that ksrc])
  have kp: "kind_path s' k = kind_path s1 k" if "k \<noteq> KFile i" for k using that fl by (cases k) auto
  have nonempty: "src \<noteq> []" "dst \<noteq> []" using oks okd by (auto simp: mem_ok_def comps_ok_def)
  have "mem_inv s'"
  proof (rule mem_invI [OF ko(1)])
    show "isdir (m_root s')" using k2 [of "[]"] mem_invD(2) [OF s1] nonempty by (auto simp: isdir_kind)
    show "es = [] \<or> mem_ok es" if "kind_at (m_root s') es = Some k" for es k
      using that okd mem_invD(3) [OF s1, of es k] unfolding k2 by (auto split: if_splits)
    show "kind_path s' k = abs_path es" if "kind_at (m_root s') es = Some k" for es k
      using that mem_invD(4) [OF s1, of es k] uniq [of es] kp [of k] fl(1) unfolding k2 by (auto split: if_splits)
    show "j < m_next s'" if "kind_at (m_root s') es = Some (KFile j)" for es j
      using that mem_invD(5) [OF s1, of es j] mem_invD(5) [OF s1 ksrc] ko(2) unfolding k2 by (auto split: if_splits)
    show "es = es'" if "kind_at (m_root s') es = Some (KFile j)" "kind_at (m_root s') es' = Some (KFile j)" for es es' j
    proof -
      have old: "es \<noteq> src \<and> kind_at (m_root s1) es = Some (KFile j)"
        if "kind_at (m_root s') es = Some (KFile j)" "es \<noteq> dst" for es
        using that unfolding k2 by (auto split: if_splits)
      have new: "j = i" if "kind_at (m_root s') dst = Some (KFile j)" using that unfolding k2 by simp
      show ?thesis using that old new uniq mem_invD(6) [OF s1, of es j es'] by metis
    qed
  qed
  moreover have "mem_file_at s' es = ((mem_file_at s)(src := None, dst := Some b)) es" for es
  proof -
    have "mem_file_at s es = None" if "\<exists>j < length dst. es = take j dst"
      using can that by (auto simp: can_put_def)
    moreover have "j \<noteq> i" if "kind_at (m_root s1) es = Some (KFile j)" "es \<noteq> src" for j using uniq that by blast
    ultimately show ?thesis
      using k2 [of es] k1 [of es] i(2) fl
      by (auto simp: mem_file_at_def split: option.split node_kind.split if_splits)
  qed
  then have "mem_file_at s' = (mem_file_at s)(src := None, dst := Some b)" by blast
  moreover have "mem_dir_at s' es \<longleftrightarrow> mem_dir_at s es \<or> (\<exists>n < length dst. es = take n dst)" for es
  proof -
    have "\<not> mem_dir_at s dst" using can by (simp add: can_put_def)
    moreover have "\<nexists>n. n < length dst \<and> dst = take n dst" using take_proper by metis
    moreover have "mem_dir_at s' es \<longleftrightarrow> es \<noteq> dst \<and> es \<noteq> src \<and> mem_dir_at s1 es" unfolding dir_kind k2 by auto
    moreover have "\<not> mem_dir_at s1 src" using ksrc by (simp add: dir_kind)
    moreover have "mem_dir_at s1 es \<longleftrightarrow> mem_dir_at s es \<or> (\<exists>n < length dst. es = take n dst)"
      unfolding dir_kind k1 by auto
    ultimately show ?thesis by metis
  qed
  ultimately show thesis using that move by blast
qed

text \<open>Writing through an open writer appends to the file it was opened on.\<close>

fun write_all :: "mem \<Rightarrow> mem_writer \<Rightarrow> bytes list \<Rightarrow> mem \<times> mem_writer" where
  "write_all s w [] = (s, w)"
| "write_all s w (b # bs) = (case writer_Write s w b of (s', w', _) \<Rightarrow> write_all s' w' bs)"

lemma write_all_open:
  assumes "\<not> w_closed w" "\<not> w_committed w" "\<not> w_canceled w"
  shows "snd (write_all s w bs) = w"
    and "m_root (fst (write_all s w bs)) = m_root s" "m_next (fst (write_all s w bs)) = m_next s"
    and "f_p (m_files (fst (write_all s w bs)) i) = f_p (m_files s i)"
    and "f_data (m_files (fst (write_all s w bs)) i) =
      (if i = w_file w then f_data (m_files s i) @ concat bs else f_data (m_files s i))"
  using assms by (induction bs arbitrary: s) (auto simp: writer_Write_def WriteAt_def)

lemma io_copy_open:
  assumes "\<not> w_closed w" "\<not> w_committed w" "\<not> w_canceled w"
  shows "\<exists>s'. io_copy inmemory_Driver s w b = (s', w, None) \<and> m_root s' = m_root s \<and> m_next s' = m_next s
    \<and> (\<forall>i. f_p (m_files s' i) = f_p (m_files s i))
    \<and> f_data (m_files s' (w_file w)) = f_data (m_files s (w_file w)) @ b"
proof (induction b arbitrary: s rule: length_induct)
  case (1 b)
  show ?case
  proof (cases "b = []")
    case True
    then show ?thesis by (subst io_copy.simps) simp
  next
    case False
    let ?s = "WriteAt s (w_file w) (take 32768 b) (length (f_data (m_files s (w_file w))))"
    have st: "io_copy inmemory_Driver s w b = io_copy inmemory_Driver ?s w (drop 32768 b)"
      using False assms
      by (subst io_copy.simps) (simp add: inmemory_Driver_def base_driver_def mem_driver_def writer_Write_def)
    have "length (drop 32768 b) < length b" using False by simp
    then obtain s' where "io_copy inmemory_Driver ?s w (drop 32768 b) = (s', w, None)" "m_root s' = m_root ?s"
      "m_next s' = m_next ?s" "\<forall>i. f_p (m_files s' i) = f_p (m_files ?s i)"
      "f_data (m_files s' (w_file w)) = f_data (m_files ?s (w_file w)) @ drop 32768 b"
      using "1.IH" by blast
    then show ?thesis unfolding st by (intro exI [of _ s']) (auto simp: WriteAt_def)
  qed
qed

lemma writer_spec:
  assumes inv: "mem_inv s" and ok: "mem_ok cs" and can: "can_put mem_file_at mem_dir_at s cs"
  obtains s1 i where "mem_Writer s (abs_path cs) False = (s1, Inr (newWriter i))" "mem_inv s1"
    "kind_at (m_root s1) cs = Some (KFile i)" "f_data (m_files s1 i) = []"
    "\<And>es. kind_at (m_root s1) es \<noteq> None \<Longrightarrow> kind_at (m_root s) es \<noteq> None \<or> take (length es) cs = es"
proof -
  obtain s1 i where m: "mkfile s (abs_path cs) = (s1, Inr i)" "mem_inv s1"
    and k: "\<forall>ds. kind_at (m_root s1) ds =
         (if ds = cs then Some (KFile i)
          else if \<exists>j < length cs. ds = take j cs then Some (KDir (abs_path ds)) else kind_at (m_root s) ds)"
    using mkfile_spec [OF inv ok can] by blast
  have kcs: "kind_at (m_root s1) cs = Some (KFile i)" using k by simp
  have ko: "kind_at (m_root s) es \<noteq> None \<or> take (length es) cs = es" if "kind_at (m_root s1) es \<noteq> None" for es
    using that k [rule_format, of es] by (auto split: if_splits)
  let ?s = "truncate_file s1 i"
  have "mem_Writer s (abs_path cs) False = (?s, Inr (newWriter i))"
    using m(1) normalize_abs_path [OF mem_ok_plain [OF ok]] by (simp add: mem_Writer_def)
  moreover have "mem_inv ?s" by (rule mem_inv_files [OF m(2)]) (simp_all add: truncate_file_def)
  ultimately show thesis using that kcs ko by (simp add: truncate_file_def)
qed

lemma kind_at_New: "kind_at (m_root (mem_New now)) cs = (if cs = [] then Some (KDir ''/'') else None)"
  by (cases cs) (simp_all add: mem_New_def)

lemma can_put_New: "cs \<noteq> [] \<Longrightarrow> can_put mem_file_at mem_dir_at (mem_New now) cs"
  by (simp add: can_put_def mem_file_at_def mem_dir_at_def kind_at_New)

lemma mem_inv_New: "mem_inv (mem_New now)"
proof (rule mem_invI)
  note k = kind_at_New
  show "keys_ok (m_root (mem_New now))" "isdir (m_root (mem_New now))" by (simp_all add: mem_New_def)
  show "cs = [] \<or> mem_ok cs" "kind_path (mem_New now) k = abs_path cs"
    if "kind_at (m_root (mem_New now)) cs = Some k" for cs k
    using that unfolding k by (auto split: if_splits simp: abs_path_def)
  show "i < m_next (mem_New now)" if "kind_at (m_root (mem_New now)) cs = Some (KFile i)" for cs i
    using that unfolding k by (auto split: if_splits)
  show "cs = ds" if "kind_at (m_root (mem_New now)) cs = Some (KFile i)" "kind_at (m_root (mem_New now)) ds = Some (KFile i)" for cs ds i
    using that unfolding k by (auto split: if_splits)
qed

section \<open>A store with given files\<close>

text \<open>The store that holds the listed files and the directories above them.\<close>

definition mem_with :: "(string list \<times> bytes) list \<Rightarrow> mem" where
  "mem_with fs = fold (\<lambda>(cs, b) s. fst (PutContent inmemory_Driver s (abs_path cs) b)) fs (mem_New 0)"

definition prefix_free :: "string list list \<Rightarrow> bool" where
  "prefix_free ps \<longleftrightarrow> list_all (\<lambda>a. list_all (\<lambda>b. a = b \<or> take (length a) b \<noteq> a) ps) ps"

lemma mem_with_spec:
  assumes "list_all mem_ok (map fst fs)" "prefix_free (map fst fs)"
  shows "mem_inv (mem_with fs) \<and> mem_file_at (mem_with fs) = map_of (rev fs) \<and>
    (\<forall>ds. mem_dir_at (mem_with fs) ds \<longleftrightarrow> ds = [] \<or> (\<exists>a \<in> set (map fst fs). \<exists>n < length a. ds = take n a))"
  using assms
proof (induction fs rule: rev_induct)
  case Nil
  have "mem_file_at (mem_New 0) cs = None" "mem_dir_at (mem_New 0) cs \<longleftrightarrow> cs = []" for cs
    by (simp_all add: mem_file_at_def mem_dir_at_def kind_at_New)
  then show ?case using mem_inv_New [of 0] by (simp add: mem_with_def fun_eq_iff)
next
  case (snoc f fs)
  obtain cs b where f: "f = (cs, b)" by (cases f)
  define s where "s = mem_with fs"
  have IH: "mem_inv s" "mem_file_at s = map_of (rev fs)"
    and dirs: "mem_dir_at s ds \<longleftrightarrow> ds = [] \<or> (\<exists>a \<in> set (map fst fs). \<exists>n < length a. ds = take n a)" for ds
    using snoc unfolding s_def by (auto simp: prefix_free_def list_all_iff)
  have ok: "mem_ok cs" using snoc.prems(1) f by simp
  have free: "a = cs \<or> take (length a) cs \<noteq> a \<and> take (length cs) a \<noteq> cs" if "a \<in> set (map fst fs)" for a
    using snoc.prems(2) that f by (auto simp: prefix_free_def list_all_iff)
  have "\<not> mem_dir_at s cs"
  proof
    assume "mem_dir_at s cs"
    then consider "cs = []" | a n where "a \<in> set (map fst fs)" "n < length a" "cs = take n a"
      using dirs by blast
    then show False
    proof cases
      case 1
      then show ?thesis using ok inmem.ok_comps by (auto simp: comps_ok_def)
    next
      case 2
      then have "take (length cs) a = cs" "length cs \<noteq> length a" by simp_all
      with free [OF 2(1)] show ?thesis by metis
    qed
  qed
  moreover have "mem_file_at s (take n cs) = None" if "n < length cs" for n
  proof (rule ccontr)
    assume "mem_file_at s (take n cs) \<noteq> None"
    then have "take n cs \<in> set (map fst fs)"
      using IH(2) by (metis map_of_eq_None_iff rev_map set_rev set_map)
    from free [OF this] that show False by (metis length_take less_irrefl min.absorb4 take_take min.idem)
  qed
  ultimately have "can_put mem_file_at mem_dir_at s cs" by (simp add: can_put_def)
  from inmem.put_file [OF IH(1) ok this, of b] obtain s' where s':
    "PutContent inmemory_Driver s (abs_path cs) b = (s', None)" "mem_inv s'"
    "mem_file_at s' = (mem_file_at s)(cs \<mapsto> b)"
    and d': "mem_dir_at s' ds \<longleftrightarrow> mem_dir_at s ds \<or> (\<exists>n < length cs. ds = take n cs)" for ds
    by blast
  have "mem_with (fs @ [f]) = s'" using s'(1) by (simp add: mem_with_def s_def f)
  then show ?case using s'(2,3) IH(2) d' dirs f by auto
qed

lemmas mem_with_inv = mem_with_spec [THEN conjunct1]
  and mem_with_files = mem_with_spec [THEN conjunct2, THEN conjunct1]

section \<open>The abstract file system\<close>

text \<open>
  Requests on component lists, their outcome, and the file system they act on. A request ends with
  success, with data, with an error, or, for a deletion below a file, with a panic.
\<close>

datatype fs_op = FsPut "string list" bytes | FsDelete "string list" | FsGet "string list"

datatype fs_out = Done | Failed | Crashed | Data bytes

record afs =
  a_file :: "string list \<Rightarrow> bytes option"
  a_dir :: "string list \<Rightarrow> bool"

definition afs_New :: afs where
  "afs_New = \<lparr>a_file = (\<lambda>_. None), a_dir = (\<lambda>cs. cs = [])\<rparr>"

fun fs_comps :: "fs_op \<Rightarrow> string list" where
  "fs_comps (FsPut cs b) = cs"
| "fs_comps (FsDelete cs) = cs"
| "fs_comps (FsGet cs) = cs"

fun afs_step :: "fs_op \<Rightarrow> afs \<Rightarrow> afs \<times> fs_out" where
  "afs_step (FsPut cs b) a =
     (if can_put a_file a_dir a cs then
        (a\<lparr>a_file := (a_file a)(cs \<mapsto> b), a_dir := (\<lambda>ds. a_dir a ds \<or> (\<exists>n < length cs. ds = take n cs))\<rparr>, Done)
      else (a, Failed))"
| "afs_step (FsDelete cs) a =
     (if a_file a cs \<noteq> None \<or> a_dir a cs then
        (a\<lparr>a_file := (\<lambda>ds. if take (length cs) ds = cs then None else a_file a ds),
           a_dir := (\<lambda>ds. a_dir a ds \<and> take (length cs) ds \<noteq> cs)\<rparr>, Done)
      else (a, if a_file a (butlast cs) \<noteq> None then Crashed else Failed))"
| "afs_step (FsGet cs) a = (a, case a_file a cs of Some b \<Rightarrow> Data b | None \<Rightarrow> Failed)"

fun fs_failure :: "driver_error \<Rightarrow> fs_out" where
  "fs_failure (GoPanic _) = Crashed"
| "fs_failure _ = Failed"

fun mem_step :: "fs_op \<Rightarrow> mem \<Rightarrow> mem \<times> fs_out" where
  "mem_step (FsPut cs b) s =
     (case PutContent inmemory_Driver s (abs_path cs) b of (s', None) \<Rightarrow> (s', Done) | (s', Some e) \<Rightarrow> (s', fs_failure e))"
| "mem_step (FsDelete cs) s =
     (case Delete inmemory_Driver s (abs_path cs) of (s', None) \<Rightarrow> (s', Done) | (s', Some e) \<Rightarrow> (s', fs_failure e))"
| "mem_step (FsGet cs) s =
     (s, case GetContent inmemory_Driver s (abs_path cs) of Inr b \<Rightarrow> Data b | Inl e \<Rightarrow> fs_failure e)"

fun run_steps :: "('op \<Rightarrow> 's \<Rightarrow> 's \<times> 'out) \<Rightarrow> 'op list \<Rightarrow> 's \<Rightarrow> 's \<times> 'out list" where
  "run_steps st [] s = (s, [])"
| "run_steps st (x # xs) s = (case st x s of (s', y) \<Rightarrow> case run_steps st xs s' of (s'', ys) \<Rightarrow> (s'', y # ys))"

definition mem_abs :: "mem \<Rightarrow> afs" where
  "mem_abs s = \<lparr>a_file = mem_file_at s, a_dir = mem_dir_at s\<rparr>"

lemma mem_abs_sel [simp]: "a_file (mem_abs s) = mem_file_at s" "a_dir (mem_abs s) = mem_dir_at s"
  by (simp_all add: mem_abs_def)

lemma can_put_abs: "can_put a_file a_dir (mem_abs s) cs = can_put mem_file_at mem_dir_at s cs"
  by (simp add: can_put_def)

lemma mem_Delete_below_file:
  assumes "mem_inv s" "mem_ok cs" "mem_file_at s (butlast cs) \<noteq> None"
  shows "mem_Delete s (abs_path cs) = (s, Some (GoPanic ''interface conversion''))"
proof -
  obtain i where i: "kind_at (m_root s) (butlast cs) = Some (KFile i)" using assms(3) by (auto simp: file_kind)
  obtain ds c where cs: "cs = ds @ [c]" using assms(2) by (cases cs rule: rev_cases) (auto simp: mem_ok_def comps_ok_def)
  have pl: "\<forall>c \<in> set cs. plain c" by (rule mem_ok_plain [OF assms(2)])
  have dok: "ds = [] \<or> mem_ok ds" using assms(2) cs mem_ok_prefix by blast
  obtain n where n: "lookup (m_root s) ds = Some n" "\<not> isdir n"
    using i cs by (auto simp: kind_at_def isdir_kind)
  have "path_split (abs_path cs) = (dir_str ds, c)" using path_split_abs [of c ds] pl cs by simp
  then show ?thesis
    using find_dir [OF assms(1) dok n(1)] n(2) normalize_abs_path [OF pl]
    by (simp add: mem_Delete_def fs_delete_def)
qed

lemma mem_step_refines:
  assumes inv: "mem_inv s" and ok: "mem_ok (fs_comps x)"
  shows "mem_inv (fst (mem_step x s)) \<and> afs_step x (mem_abs s) = apfst mem_abs (mem_step x s)"
proof (cases x)
  case (FsPut cs b)
  show ?thesis
  proof (cases "can_put mem_file_at mem_dir_at s cs")
    case True
    obtain s' where "PutContent inmemory_Driver s (abs_path cs) b = (s', None)" "mem_inv s'"
      "mem_file_at s' = (mem_file_at s)(cs \<mapsto> b)"
      "\<forall>ds. mem_dir_at s' ds \<longleftrightarrow> mem_dir_at s ds \<or> (\<exists>n < length cs. ds = take n cs)"
      using inmem.put_file [OF inv _ True, of b] ok FsPut by auto
    then show ?thesis using FsPut True by (auto simp: can_put_abs fun_eq_iff intro!: afs.equality)
  next
    case False
    obtain e where "mkfile s (abs_path cs) = (s, Inl e)" using mkfile_fail [OF inv _ False] ok FsPut by auto
    then have "PutContent inmemory_Driver s (abs_path cs) b = (s, Some (StorageError driverName (Errorf ''not a file'')))"
      using mem_ok_regexp [of cs] normalize_abs_path [OF mem_ok_plain [of cs]] ok FsPut
      by (simp add: base_defs mem_PutContent_def)
    then show ?thesis using FsPut False inv by (simp add: can_put_abs)
  qed
next
  case (FsDelete cs)
  show ?thesis
  proof (cases "mem_entry_at s cs")
    case True
    obtain s' where "Delete inmemory_Driver s (abs_path cs) = (s', None)" "mem_inv s'"
      "\<forall>ds. mem_file_at s' ds = (if take (length cs) ds = cs then None else mem_file_at s ds)"
      "\<forall>ds. mem_dir_at s' ds \<longleftrightarrow> mem_dir_at s ds \<and> take (length cs) ds \<noteq> cs"
      using inmem.delete_entry [OF inv _ True] ok FsDelete by auto
    then show ?thesis using FsDelete True by (auto simp: fun_eq_iff entry_at_def intro!: afs.equality)
  next
    case False
    have cs: "mem_ok cs" using ok FsDelete by simp
    have "\<exists>e. Delete inmemory_Driver s (abs_path cs) = (s, Some e) \<and>
        fs_failure e = (if mem_file_at s (butlast cs) \<noteq> None then Crashed else Failed)"
      using mem_Delete_below_file [OF inv cs] mem_Delete_absent [OF inv cs False] mem_ok_regexp [OF cs]
      by (cases "mem_file_at s (butlast cs) = None") (auto simp: base_defs)
    then show ?thesis using FsDelete False inv by (auto simp: entry_at_def)
  qed
next
  case (FsGet cs)
  have cs: "mem_ok cs" using ok FsGet by simp
  consider b where "mem_file_at s cs = Some b" | "mem_file_at s cs = None" "mem_dir_at s cs"
    | "mem_file_at s cs = None" "\<not> mem_entry_at s cs" by (auto simp: entry_at_def)
  then show ?thesis
  proof cases
    case 1
    then show ?thesis using inmem.get_file [OF inv cs] inv FsGet by simp
  next
    case 2
    then show ?thesis using inmem.get_dir [OF inv cs] inv FsGet by auto
  next
    case 3
    then show ?thesis using inmem.get_absent [OF inv cs] inv FsGet by simp
  qed
qed

lemma mem_run_refines:
  assumes "mem_inv s" "\<forall>x \<in> set xs. mem_ok (fs_comps x)"
  shows "mem_inv (fst (run_steps mem_step xs s)) \<and> run_steps afs_step xs (mem_abs s) = apfst mem_abs (run_steps mem_step xs s)"
  using assms
proof (induction xs arbitrary: s)
  case (Cons x xs)
  obtain s' y where y: "mem_step x s = (s', y)" by fastforce
  with mem_step_refines [OF Cons.prems(1), of x] Cons.prems(2)
  have st: "mem_inv s'" "afs_step x (mem_abs s) = (mem_abs s', y)" by auto
  obtain s'' ys where "run_steps mem_step xs s' = (s'', ys)" by fastforce
  with Cons.IH [OF st(1)] Cons.prems(2) st(2) y show ?case by simp
qed simp

section \<open>Properties\<close>


definition sample_requests :: "fs_op list" where
  "sample_requests = [FsPut [''a'', ''b''] ''x'', FsGet [''a'', ''b''], FsPut [''a'', ''b'', ''c''] ''y'',
     FsDelete [''a'', ''b'', ''c''], FsDelete [''a'', ''d''], FsDelete [''a''], FsGet [''a'', ''b'']]"





definition sample_mem :: mem where
  "sample_mem = fst (mem_PutContent (mem_New 0) ''/a/b'' ''x'')"

lemma sample_mem_inv: "mem_inv sample_mem"
proof -
  have "mem_ok [''a'', ''b'']" by code_simp
  then obtain s where "mem_PutContent (mem_New 0) (abs_path [''a'', ''b'']) ''x'' = (s, None)" "mem_inv s"
    using mem_PutContent_spec [OF mem_inv_New _ can_put_New] by blast
  then show ?thesis by (simp add: sample_mem_def abs_path_def)
qed


text \<open>
  C19. A transfer to a second in-memory driver that has nothing at the source path arrives, and is
  still reported as a partial transfer: the check at the end looks up the source path in the
  destination.
\<close>

theorem transfer_reports_failure:
  assumes "mem_inv s" and "mem_inv ds" and "mem_ok src" and "mem_ok dst" and "mem_file_at s src = Some b"
    and "can_put mem_file_at mem_dir_at ds dst" and "\<not> mem_entry_at ds src" and "take (length src) dst \<noteq> src"
  shows "\<exists>ds'. mem_TransferTo s inmemory_Driver ds (abs_path src) (abs_path dst) =
      (ds', Some (PartialTransferError (abs_path src) (abs_path dst) (PathNotFoundError (abs_path src) driverName)))
    \<and> mem_file_at ds' dst = Some b"
proof -
  obtain d1 i where w: "mem_Writer ds (abs_path dst) False = (d1, Inr (newWriter i))" "mem_inv d1"
    "kind_at (m_root d1) dst = Some (KFile i)" "f_data (m_files d1 i) = []"
    and k: "\<And>es. kind_at (m_root d1) es \<noteq> None \<Longrightarrow>
      kind_at (m_root ds) es \<noteq> None \<or> take (length es) dst = es"
    by (rule writer_spec [OF assms(2,4,6)]) blast
  obtain d2 where c: "io_copy inmemory_Driver d1 (newWriter i) b = (d2, newWriter i, None)"
    "m_root d2 = m_root d1" "m_next d2 = m_next d1" "\<And>j. f_p (m_files d2 j) = f_p (m_files d1 j)"
    "f_data (m_files d2 i) = b"
    using io_copy_open [of "newWriter i" d1 b] w(4) by (auto simp: newWriter_def)
  have inv: "mem_inv d2" by (rule mem_inv_files [OF w(2) c(2-4)])
  have "\<not> mem_entry_at d2 src"
    using k [of src] assms(7,8) unfolding mem_entry_kind c(2) by blast
  then have st: "Stat inmemory_Driver d2 (abs_path src) = Inl (PathNotFoundError (abs_path src) driverName)"
    using inmem.stat_absent [OF inv assms(3)] by simp
  have "mem_Reader s (abs_path src) 0 = Inr b" using mem_Reader_file [OF assms(1,3,5), of 0] by simp
  moreover have "Writer inmemory_Driver ds (abs_path dst) False = (d1, Inr (newWriter i))"
    using w(1) mem_ok_regexp [OF assms(4)] by (simp add: inmemory_Driver_def base_Writer_def named_result_def)
  moreover have "WriterCommit inmemory_Driver d2 (newWriter i) = (d2, (newWriter i)\<lparr>w_committed := True\<rparr>, None)"
    by (simp add: inmemory_Driver_def base_driver_def mem_driver_def writer_Commit_def newWriter_def)
  ultimately have "mem_TransferTo s inmemory_Driver ds (abs_path src) (abs_path dst) =
      (d2, Some (PartialTransferError (abs_path src) (abs_path dst) (PathNotFoundError (abs_path src) driverName)))"
    using c(1) st unfolding mem_TransferTo_def by (simp del: inmemory_sel(2-7))
  moreover have "mem_file_at d2 dst = Some b" using w(3) c(2,5) by (simp add: file_kind)
  ultimately show ?thesis by blast
qed

theorem transfer_reports_failure_witness:
  "\<exists>ds'. mem_TransferTo sample_mem inmemory_Driver (mem_New 0) ''/a/b'' ''/c'' =
      (ds', Some (PartialTransferError ''/a/b'' ''/c'' (PathNotFoundError ''/a/b'' driverName)))
    \<and> mem_file_at ds' [''c''] = Some ''x''"
proof -
  have ok: "mem_ok [''a'', ''b'']" "mem_ok [''c'']" by code_simp+
  note inv = sample_mem_inv
  have f: "mem_file_at sample_mem [''a'', ''b''] = Some ''x''" by code_simp
  have "abs_path [''a'', ''b''] = ''/a/b''" "abs_path [''c''] = ''/c''" by (simp_all add: abs_path_def)
  then show ?thesis
    using transfer_reports_failure [OF inv mem_inv_New ok f can_put_New, of 0]
    by (simp add: mem_entry_kind kind_at_New del: kind_at_simps)
qed

end
