(* ===== verification/InMemory_Defects.thy ===== *)
theory InMemory_Defects
  imports InMemory_Laws
begin

text \<open>
  What the in-memory driver does outside its contract: paths that repeat a component, a directory
  that is moved, and a deletion below a file. Each defect is stated for every store with consistent
  paths and every path of the form that shows it.
\<close>

section \<open>Storing a file under a repeated name\<close>

text \<open>
  A file named \<open>x\<close> in the directory \<open>cs\<close>, where \<open>x\<close> may be one of the components of \<open>cs\<close>: the file
  itself is stored where it belongs.
\<close>

definition entry_name_ok :: "string \<Rightarrow> bool" where
  "entry_name_ok x \<longleftrightarrow> mem_ok [x]"

lemma entry_name_in: "mem_ok cs \<Longrightarrow> x \<in> set cs \<Longrightarrow> entry_name_ok x"
  by (auto simp: entry_name_ok_def mem_ok_def comps_ok_def)

lemma entry_name_plain: "entry_name_ok x \<Longrightarrow> plain x"
  using mem_ok_plain [of "[x]"] by (simp add: entry_name_ok_def)

lemma put_regexp: "mem_ok cs \<Longrightarrow> entry_name_ok x \<Longrightarrow> match_string PathRegexp (abs_path (cs @ [x]))"
  by (rule PathRegexp_abs) (auto simp: entry_name_ok_def mem_ok_def comps_ok_def)

lemma repeated_absent:
  assumes "mem_inv s" "x \<in> set cs"
  shows "kind_at (m_root s) (cs @ [x]) = None"
proof (rule ccontr)
  assume "kind_at (m_root s) (cs @ [x]) \<noteq> None"
  then obtain k where "kind_at (m_root s) (cs @ [x]) = Some k" by blast
  from mem_invD(3) [OF assms(1) this] assms(2) show False by (auto simp: mem_ok_def)
qed

lemma PutContent_repeated:
  assumes inv: "mem_inv s" and ok: "mem_ok cs" and x: "entry_name_ok x"
    and nofile: "\<And>k. k \<le> length cs \<Longrightarrow> mem_file_at s (take k cs) = None"
    and new: "kind_at (m_root s) (cs @ [x]) = None"
  shows "\<exists>s' s1 i. PutContent inmemory_Driver s (abs_path (cs @ [x])) b = (s', None) \<and> mem_inv s1
    \<and> (\<forall>ds. kind_at (m_root s1) ds =
         (if \<exists>j \<le> length cs. ds = take j cs then Some (KDir (abs_path ds)) else kind_at (m_root s) ds))
    \<and> (\<forall>ds. kind_at (m_root s') ds = (if ds = cs @ [x] then Some (KFile i) else kind_at (m_root s1) ds))
    \<and> isdir (m_root s') \<and> m_files s' i = \<lparr>f_p = abs_path (cs @ [x]), f_mod = m_now s, f_data = b\<rparr>"
proof -
  have pl: "\<forall>c \<in> set cs. plain c" "plain x" "\<forall>c \<in> set (cs @ [x]). plain c"
    using mem_ok_plain [OF ok] entry_name_plain [OF x] by auto
  have ne: "cs \<noteq> []" using ok by (auto simp: mem_ok_def comps_ok_def)
  have gone: "lookup (m_root s) (cs @ [x]) = None" using new by (simp add: kind_at_def)
  have "lookup (m_root s) ((cs @ [x]) @ [last (cs @ [x])]) = None"
    using gone by (subst lookup_append) simp
  from find_join [OF pl(3) trim_abs_path [OF pl(3)] mem_invD(2) [OF inv] disjI1 [OF this]] gone
  obtain k n where f: "k < length (cs @ [x])" "find_from (m_root s) (abs_path (cs @ [x])) = (take k (cs @ [x]), n)"
    "lookup (m_root s) (take k (cs @ [x])) = Some n" by blast
  have "node_path s n = abs_path (take k (cs @ [x]))" by (rule lookup_path(1) [OF inv f(3)])
  moreover have "take k (cs @ [x]) \<noteq> cs @ [x]" using f(1) take_proper by blast
  ultimately have other: "node_path s (snd (find_from (m_root s) (abs_path (cs @ [x])))) \<noteq> abs_path (cs @ [x])"
    using f(2) abs_path_eq_iff [OF take_plain [OF pl(3)] pl(3)] by simp
  have nd: "normalize (dir_str cs) = abs_path cs" by (rule normalize_dir_str [OF pl(1)])
  have nf: "kind_at (m_root s) (take k cs) \<noteq> Some (KFile j)" if "k \<le> length cs" for k j
    using nofile [OF that] by (simp add: no_file_kind)
  obtain s1 d where m: "mkdirs s (dir_str cs) = (s1, Inr (cs, d))" "mem_inv s1" "lookup (m_root s1) cs = Some d"
    "isdir d" "m_files s1 = m_files s" "m_next s1 = m_next s" "m_now s1 = m_now s"
    and k1: "\<And>ds. kind_at (m_root s1) ds =
       (if \<exists>j \<le> length cs. ds = take j cs then Some (KDir (abs_path ds)) else kind_at (m_root s) ds)"
    using mkdirs_spec [OF inv disjI2 [OF ok] nd nf] by blast
  have dp: "node_path s1 d = abs_path cs" by (rule lookup_path(1) [OF m(2,3)])
  have join: "path_join [abs_path cs, x] = abs_path (cs @ [x])" by (rule path_join_abs [OF pl(1,2)])
  let ?i = "m_next s"
  let ?r = "update_at (dir_add (m_now s1) x (NFile ?i)) cs (m_root s1)"
  let ?s = "s1\<lparr>m_root := ?r, m_files := (m_files s1)(?i := \<lparr>f_p = abs_path (cs @ [x]), f_mod = m_now s1, f_data = []\<rparr>),
    m_next := Suc ?i\<rparr>"
  let ?s' = "WriteAt (truncate_file ?s ?i) ?i b 0"
  have mk: "mkfile s (abs_path (cs @ [x])) = (?s, Inr ?i)"
    using other m(1,6) dp join path_split_abs [OF pl(2), of cs] common_name_abs [OF pl(2), of cs]
    by (simp add: mkfile_def Let_def)
  have put: "PutContent inmemory_Driver s (abs_path (cs @ [x])) b = (?s', None)"
    using put_regexp [OF ok x] normalize_abs_path [OF pl(3)] mk by (simp add: base_defs mem_PutContent_def)
  have "cs @ [x] \<noteq> take j cs" for j
    by (auto dest: arg_cong [of _ _ length])
  then have new1: "kind_at (m_root s1) (cs @ [x]) = None" using k1 [of "cs @ [x]"] new by auto
  have k2: "kind_at (m_root ?s') ds = (if ds = cs @ [x] then Some (KFile ?i) else kind_at (m_root s1) ds)" for ds
    using kind_add_leaf [OF m(3,4) new1, of "NFile ?i" "m_now s1" ds] by (simp add: WriteAt_def truncate_file_def)
  have "isdir (m_root ?s')"
    using k2 [of "[]"] mem_invD(2) [OF m(2)] by (auto simp: isdir_kind)
  then have "PutContent inmemory_Driver s (abs_path (cs @ [x])) b = (?s', None) \<and> mem_inv s1
    \<and> (\<forall>ds. kind_at (m_root s1) ds =
         (if \<exists>j \<le> length cs. ds = take j cs then Some (KDir (abs_path ds)) else kind_at (m_root s) ds))
    \<and> (\<forall>ds. kind_at (m_root ?s') ds = (if ds = cs @ [x] then Some (KFile ?i) else kind_at (m_root s1) ds))
    \<and> isdir (m_root ?s') \<and> m_files ?s' ?i = \<lparr>f_p = abs_path (cs @ [x]), f_mod = m_now s, f_data = b\<rparr>"
    using put m(2,7) k1 k2 by (intro conjI allI) (simp_all add: WriteAt_def truncate_file_def)
  then show ?thesis by blast
qed

section \<open>What \<open>find\<close> returns\<close>

text \<open>A node on the way that carries another path makes the driver miss the file.\<close>

lemma find_missing:
  assumes pl: "\<forall>c \<in> set cs. plain c" and d: "isdir (m_root s)" and last: "kind_at (m_root s) (cs @ [last cs]) = None"
    and path: "\<And>k t. k \<le> length cs \<Longrightarrow> kind_at (m_root s) (take k cs) = Some t \<Longrightarrow> kind_path s t \<noteq> abs_path cs"
  shows "node_path s (snd (find_from (m_root s) (abs_path cs))) \<noteq> abs_path cs"
proof -
  have "lookup (m_root s) (cs @ [last cs]) = None" using last by (simp add: kind_at_def)
  note f = find_join [OF pl trim_abs_path [OF pl] d disjI1 [OF this]]
  obtain k n where "k \<le> length cs" "find_from (m_root s) (abs_path cs) = (take k cs, n)"
    "lookup (m_root s) (take k cs) = Some n"
  proof (cases "lookup (m_root s) cs")
    case None
    then show ?thesis using f that by (meson less_imp_le)
  next
    case (Some n)
    then show ?thesis using f that [of "length cs" n] by simp
  qed
  then show ?thesis using path [of k "kind n"] by (simp add: kind_at_def node_path_kind)
qed

lemma get_missing:
  assumes "comps_ok cs" "\<forall>c \<in> set cs. plain c"
    and "node_path s (snd (find_from (m_root s) (abs_path cs))) \<noteq> abs_path cs"
  shows "GetContent inmemory_Driver s (abs_path cs) = Inl (PathNotFoundError (abs_path cs) driverName)"
  using assms(3) PathRegexp_abs [OF assms(1)] normalize_abs_path [OF assms(2)]
  by (simp add: base_defs mem_GetContent_def mem_Reader_def)

text \<open>The last component is looked up once more in the directory that was found.\<close>

lemma find_own_name:
  assumes "\<forall>c \<in> set cs. plain c" "cs \<noteq> []" "trim slash q = join_with slash cs"
    and "lookup n (cs @ [last cs]) = Some (NFile i)"
  shows "find_from n q = (cs @ [last cs], NFile i)"
  using assms
proof (induction cs arbitrary: n q)
  case (Cons c cs)
  obtain p m ch where n: "n = NDir p m ch" using Cons.prems(4) by (cases n) auto
  have pl: "plain c" "\<forall>c \<in> set cs. plain c" using Cons.prems(1) by auto
  have ne: "join_with slash (c # cs) \<noteq> []" using join_ends(1) [OF Cons.prems(1)] by simp
  have fc: "first_comp (join_with slash (c # cs)) = (c, if cs = [] then c else join_with slash cs)"
    by (rule first_comp_join [OF pl(1)])
  obtain child where child: "map_of ch c = Some child" using Cons.prems(4) n by (auto split: option.splits)
  have look: "lookup child ((if cs = [] then [] else cs) @ [last (c # cs)]) = Some (NFile i)"
    using Cons.prems(4) n child by (cases cs) auto
  then have dir: "isdir child" by (cases child; cases cs) auto
  have step: "find_from n q =
      (case find_from child (if cs = [] then c else join_with slash cs) of (l, m) \<Rightarrow> (c # l, m))"
    unfolding n find_from.simps(2) Let_def Cons.prems(3) fc using ne child dir by simp
  show ?case
  proof (cases "cs = []")
    case True
    have "trim slash c = c" using trim_join(1) [of "[c]"] pl by simp
    moreover have "c \<noteq> []" "first_comp c = (c, c)"
      using pl first_comp_join [OF pl(1), of "[]"] by (auto simp: plain_def)
    moreover have "map_of (children child) c = Some (NFile i)" using look True by (auto split: option.splits)
    ultimately have "find_from child c = ([c], NFile i)" using dir by (cases child) (auto simp: Let_def)
    then show ?thesis using step True by simp
  next
    case False
    then show ?thesis using step look Cons.IH [OF pl(2) False trim_join(1) [OF pl(2)], of child] by simp
  qed
qed simp

lemma kind_file_lookup: "kind_at n cs = Some (KFile i) \<Longrightarrow> lookup n cs = Some (NFile i)"
  by (auto simp: kind_at_def elim: kind.elims)

section \<open>Directories with an entry of their own name\<close>

text \<open>Once the directory \<open>ds @ [c]\<close> holds a file \<open>c\<close>, every search for the directory ends at that file.\<close>

lemma own_name_found:
  assumes inv: "mem_inv s" and ok: "mem_ok (ds @ [c])" and y: "mem_ok (ds @ [c, y])"
    and nofile: "\<And>k. k \<le> Suc (length ds) \<Longrightarrow> mem_file_at s (take k (ds @ [c])) = None"
    and new: "\<not> mem_entry_at s (ds @ [c, y])"
  shows "\<exists>s' i. PutContent inmemory_Driver s (abs_path (ds @ [c, c])) b = (s', None)
    \<and> mem_file_at s' (ds @ [c, c]) = Some b \<and> f_p (m_files s' i) = abs_path (ds @ [c, c])
    \<and> (\<forall>q. trim slash q = join_with slash (ds @ [c]) \<longrightarrow> find_from (m_root s') q = (ds @ [c, c], NFile i))
    \<and> node_path s' (snd (find_from (m_root s') (abs_path (ds @ [c, y])))) \<noteq> abs_path (ds @ [c, y])"
proof -
  let ?cs = "ds @ [c]"
  have pl: "\<forall>c \<in> set ?cs. plain c" "\<forall>c \<in> set (ds @ [c, y]). plain c" by (rule mem_ok_plain, fact)+
  have cy: "c \<noteq> y" using y by (auto simp: mem_ok_def)
  have nc: "entry_name_ok c" using entry_name_in [OF ok] by simp
  have nf: "mem_file_at s (take k ?cs) = None" if "k \<le> length ?cs" for k using nofile [of k] that by simp
  have new1: "kind_at (m_root s) (?cs @ [c]) = None"
    by (rule repeated_absent [OF inv]) simp
  obtain s' s1 i where put: "PutContent inmemory_Driver s (abs_path (?cs @ [c])) b = (s', None)" and inv1: "mem_inv s1"
    and k1: "\<And>ds'. kind_at (m_root s1) ds' =
       (if \<exists>j \<le> length ?cs. ds' = take j ?cs then Some (KDir (abs_path ds')) else kind_at (m_root s) ds')"
    and k2: "\<And>ds'. kind_at (m_root s') ds' = (if ds' = ?cs @ [c] then Some (KFile i) else kind_at (m_root s1) ds')"
    and d: "isdir (m_root s')" and f: "m_files s' i = \<lparr>f_p = abs_path (?cs @ [c]), f_mod = m_now s, f_data = b\<rparr>"
    using PutContent_repeated [OF inv ok nc nf new1, of b] by blast
  have here: "kind_at (m_root s') (?cs @ [c]) = Some (KFile i)" by (simp add: k2)
  have none: "kind_at (m_root s') (ds @ c # y # es) = None" for es
  proof -
    have "kind_at (m_root s) (ds @ [c, y]) = None" using new by (simp add: mem_entry_kind)
    then have "kind_at (m_root s) (ds @ c # y # es) = None"
      using kind_at_None_append [of "m_root s" "ds @ [c, y]" es] by simp
    moreover have "ds @ c # y # es \<noteq> take j ?cs" for j by (auto dest: arg_cong [of _ _ length])
    ultimately show ?thesis using cy k1 [of "ds @ c # y # es"] by (simp add: k2)
  qed
  have "node_path s' (snd (find_from (m_root s') (abs_path (ds @ [c, y])))) \<noteq> abs_path (ds @ [c, y])"
  proof (rule find_missing [OF pl(2) d])
    show "kind_at (m_root s') ((ds @ [c, y]) @ [last (ds @ [c, y])]) = None" using none [of "[y]"] by simp
    fix k t assume k: "k \<le> length (ds @ [c, y])" "kind_at (m_root s') (take k (ds @ [c, y])) = Some t"
    then have "k \<noteq> length (ds @ [c, y])" using none [of "[]"] by auto
    then have lt: "k < length (ds @ [c, y])" using k(1) by simp
    then have "take k (ds @ [c, y]) = take k ?cs" by (cases "k - length ds") auto
    then have "take k (ds @ [c, y]) \<noteq> ?cs @ [c]" by (auto dest: arg_cong [of _ _ length])
    moreover have "\<exists>j \<le> length ?cs. take k (ds @ [c, y]) = take j ?cs"
      using \<open>take k (ds @ [c, y]) = take k ?cs\<close> lt by (intro exI [of _ k] conjI) simp_all
    ultimately have "t = KDir (abs_path (take k (ds @ [c, y])))" using k(2) unfolding k2 k1 by simp
    then show "kind_path s' t \<noteq> abs_path (ds @ [c, y])"
      using abs_path_eq_iff [OF take_plain [OF pl(2)] pl(2), of k] take_proper [OF lt] by simp
  qed
  moreover have "find_from (m_root s') q = (ds @ [c, c], NFile i)" if "trim slash q = join_with slash ?cs" for q
    using find_own_name [OF pl(1) _ that] kind_file_lookup [OF here] by simp
  moreover have "mem_file_at s' (ds @ [c, c]) = Some b" using here f by (simp add: file_kind)
  ultimately show ?thesis using put f by (intro exI [of _ s'] exI [of _ i]) simp
qed

section \<open>Moving a directory\<close>

text \<open>
  The tree after \<open>move\<close> of a directory: the nodes below it are now under \<open>dst\<close>, and only the
  directory itself has the new path.
\<close>

definition moved_dir :: "mem \<Rightarrow> mem \<Rightarrow> string list \<Rightarrow> string list \<Rightarrow> bool" where
  "moved_dir s1 s' src dst \<longleftrightarrow> mem_inv s1 \<and> m_files s' = m_files s1 \<and> isdir (m_root s')
    \<and> kind_at (m_root s') dst = Some (KDir (abs_path dst))
    \<and> (\<forall>e es. kind_at (m_root s') (dst @ e # es) = kind_at (m_root s1) (src @ e # es))
    \<and> (\<forall>es. take (length dst) es \<noteq> dst \<longrightarrow> kind_at (m_root s') es =
         (if take (length src) es = src then None else kind_at (m_root s1) es))"

lemma apart_prefix:
  assumes "take (length src) dst \<noteq> src" "take (length dst) src \<noteq> dst"
  shows "take (length dst) (src @ rs) \<noteq> dst"
proof (cases "length dst \<le> length src")
  case True
  then show ?thesis using assms(2) by simp
next
  case False
  show ?thesis
  proof
    assume e: "take (length dst) (src @ rs) = dst"
    have "take (length src) (take (length dst) (src @ rs)) = src" using False by (simp add: min_def)
    then show False using assms(1) unfolding e by simp
  qed
qed

lemma Move_directory:
  assumes inv: "mem_inv s" and oks: "mem_ok src" and okd: "mem_ok dst" and dir: "mem_dir_at s src"
    and nofile: "\<And>k. k < length dst \<Longrightarrow> mem_file_at s (take k dst) = None"
    and apart: "take (length src) dst \<noteq> src" "take (length dst) src \<noteq> dst"
  shows "\<exists>s' s1. Move inmemory_Driver s (abs_path src) (abs_path dst) = (s', None) \<and> moved_dir s1 s' src dst"
proof -
  obtain sd sc where src: "src = sd @ [sc]" using oks by (cases src rule: rev_cases) (auto simp: mem_ok_def comps_ok_def)
  obtain dd dc where dst: "dst = dd @ [dc]" using okd by (cases dst rule: rev_cases) (auto simp: mem_ok_def comps_ok_def)
  have pl: "\<forall>c \<in> set src. plain c" "\<forall>c \<in> set dst. plain c" by (rule mem_ok_plain, fact)+
  have pd: "\<forall>c \<in> set sd. plain c" "plain sc" "\<forall>c \<in> set dd. plain c" "plain dc" using pl src dst by auto
  have okp: "sd = [] \<or> mem_ok sd" "dd = [] \<or> mem_ok dd" using oks okd src dst mem_ok_prefix by blast+
  have nf: "kind_at (m_root s) (take k dd) \<noteq> Some (KFile j)" if "k \<le> length dd" for k j
    using nofile [of k] that dst by (simp add: no_file_kind)
  from mkdirs_spec [OF inv okp(2) normalize_dir_str [OF pd(3)] nf]
  obtain s1 d where m: "mkdirs s (dir_str dd) = (s1, Inr (dd, d))" "mem_inv s1" "lookup (m_root s1) dd = Some d" "isdir d"
      "m_files s1 = m_files s"
    and k1: "\<And>es. kind_at (m_root s1) es =
         (if \<exists>j \<le> length dd. es = take j dd then Some (KDir (abs_path es)) else kind_at (m_root s) es)"
    by blast
  have keep: "kind_at (m_root s1) es = kind_at (m_root s) es" if ex: "kind_at (m_root s) es \<noteq> None" for es
  proof (cases "\<exists>j \<le> length dd. es = take j dd")
    case True
    then obtain t where t: "kind_at (m_root s) es = Some t" "\<And>i. t \<noteq> KFile i" using nf ex by (metis not_None_eq)
    then have "t = KDir (abs_path es)" using mem_invD(4) [OF inv t(1)] by (cases t) auto
    then show ?thesis using t(1) True k1 [of es] by simp
  next
    case False
    then show ?thesis using k1 [of es] by auto
  qed
  obtain p where "kind_at (m_root s) src = Some (KDir p)" using dir by (auto simp: dir_kind)
  then have ksrc: "kind_at (m_root s1) src = Some (KDir p)" using keep by simp
  obtain sp where sp: "lookup (m_root s1) sd = Some sp" "isdir sp"
    using kind_at_parent [of "m_root s1" sd sc] ksrc src by (auto simp: kind_at_def isdir_kind)
  obtain t ch where n: "lookup (m_root s1) src = Some (NDir p t ch)"
    using ksrc by (auto simp: kind_at_def elim: kind.elims)
  have child: "map_of (children sp) sc = Some (NDir p t ch)"
    using n sp(1) src by (auto simp: lookup_append split: option.splits)
  let ?r = "update_at (dir_remove sc) sd (m_root s1)"
  let ?n = "NDir (abs_path dst) t ch"
  let ?s = "s1\<lparr>m_root := update_at (dir_add (m_now s1) dc ?n) dd ?r, m_files := m_files s1\<rparr>"
  have kr: "kind_at ?r es = (if take (length src) es = src then None else kind_at (m_root s1) es)" for es
    using kind_remove [OF sp, of sc es] src by simp
  have "take (length src) dd \<noteq> src"
    using apart(1) dst by (auto dest: arg_cong [of _ _ length])
  then have "kind_at ?r dd = kind_at (m_root s1) dd" using kr by simp
  then obtain d' where d': "lookup ?r dd = Some d'" "isdir d'" using m(3,4) by (auto simp: kind_at_def isdir_kind)
  have k2: "kind_at (m_root ?s) es =
      (if take (length dst) es = dst then kind_at ?n (drop (length dst) es) else kind_at ?r es)" for es
    using kind_add [OF d', of "m_now s1" dc ?n es] dst by simp
  have "path_split (abs_path dst) = (dir_str dd, dc)" "path_split (abs_path src) = (dir_str sd, sc)"
    "common_name (abs_path dst) = dc"
    using path_split_abs common_name_abs pd src dst by simp_all
  then have "mem_Move s (abs_path src) (abs_path dst) = (?s, None)"
    using m(1) find_dir [OF m(2) okp(1) sp(1)] sp(2) child normalize_abs_path [OF pl(1)] normalize_abs_path [OF pl(2)]
    by (simp add: mem_Move_def fs_move_def Let_def)
  then have move: "Move inmemory_Driver s (abs_path src) (abs_path dst) = (?s, None)"
    using mem_ok_regexp [OF oks] mem_ok_regexp [OF okd] by (simp add: inmemory_Driver_def base_Move_def)
  have ne: "dst \<noteq> []" "src \<noteq> []" using src dst by auto
  have "isdir (m_root ?s)"
    using k2 [of "[]"] kr [of "[]"] ne mem_invD(2) [OF m(2)] by (auto simp: isdir_kind)
  moreover have "kind_at (m_root ?s) (dst @ e # es) = kind_at (m_root s1) (src @ e # es)" for e es
    using k2 [of "dst @ e # es"] kind_at_append [OF n, of "e # es"] by simp
  moreover have "kind_at (m_root ?s) dst = Some (KDir (abs_path dst))" using k2 [of dst] by simp
  moreover have "kind_at (m_root ?s) es = (if take (length src) es = src then None else kind_at (m_root s1) es)"
    if "take (length dst) es \<noteq> dst" for es using k2 [of es] kr [of es] that by simp
  ultimately show ?thesis
    using move m(2) unfolding moved_dir_def by (intro exI [of _ ?s] exI [of _ s1] conjI allI impI) simp_all
qed

text \<open>Below the new path every node still has its old path; below the old path there is nothing left.\<close>

lemma moved_same:
  assumes "moved_dir s1 s' src dst" "take (length dst) es \<noteq> dst" "kind_at (m_root s') es = Some t"
  shows "take (length src) es \<noteq> src" "kind_path s' t = abs_path es"
proof -
  have "kind_path s' t = kind_path s1 t" using assms(1) by (cases t) (simp_all add: moved_dir_def)
  then show "take (length src) es \<noteq> src" "kind_path s' t = abs_path es"
    using assms mem_invD(4) [of s1 es t] by (auto simp: moved_dir_def split: if_splits)
qed

lemma moved_new:
  assumes mv: "moved_dir s1 s' src dst" and apart: "take (length src) dst \<noteq> src" "take (length dst) src \<noteq> dst"
    and pl: "\<forall>c \<in> set (dst @ rs). plain c" and ne: "rs \<noteq> []"
  shows "node_path s' (snd (find_from (m_root s') (abs_path (dst @ rs)))) \<noteq> abs_path (dst @ rs)"
proof -
  have inv1: "mem_inv s1" and d: "isdir (m_root s')" and top: "kind_at (m_root s') dst = Some (KDir (abs_path dst))"
    and below: "\<And>e es. kind_at (m_root s') (dst @ e # es) = kind_at (m_root s1) (src @ e # es)"
    using mv by (auto simp: moved_dir_def)
  have kp: "kind_path s' t = kind_path s1 t" for t using mv by (cases t) (simp_all add: moved_dir_def)
  obtain r rs' where rs: "rs = r # rs'" using ne by (cases rs) auto
  have plp: "\<forall>c \<in> set (src @ es). plain c" if "kind_at (m_root s1) (src @ es) \<noteq> None" for es
    using that mem_invD(3) [OF inv1, of "src @ es"] mem_ok_plain by fastforce
  show ?thesis
  proof (rule find_missing [OF pl d])
    show "kind_at (m_root s') ((dst @ rs) @ [last (dst @ rs)]) = None"
      using below [of r "rs' @ [last rs]"] repeated_absent [OF inv1, of "last rs" "src @ rs"] rs by simp
    fix k t assume k: "k \<le> length (dst @ rs)" "kind_at (m_root s') (take k (dst @ rs)) = Some t"
    consider l where "k = Suc (length dst + l)" | "k = length dst" | "k < length dst"
      using less_iff_Suc_add [of "length dst" k] by (metis nat_neq_iff)
    then show "kind_path s' t \<noteq> abs_path (dst @ rs)"
    proof cases
      case 1
      have tk: "take k (dst @ rs) = dst @ r # take l rs'" by (simp add: 1 rs)
      have kt: "kind_at (m_root s1) (src @ r # take l rs') = Some t" using k(2) unfolding tk below .
      then have "kind_path s' t = abs_path (src @ r # take l rs')" using mem_invD(4) [OF inv1 kt] kp by simp
      moreover have "src @ r # take l rs' \<noteq> dst @ rs"
        using apart_prefix [OF apart, of "r # take l rs'"] by (metis append_eq_conv_conj)
      ultimately show ?thesis using abs_path_eq_iff [OF plp [of "r # take l rs'"] pl] kt by simp
    next
      case 2
      then have "t = KDir (abs_path dst)" using k(2) top by simp
      then show ?thesis using abs_path_eq_iff [of dst "dst @ rs"] pl rs by simp
    next
      case 3
      then have tk: "take k (dst @ rs) = take k dst" "take (length dst) (take k dst) \<noteq> dst"
        by (auto dest: arg_cong [of _ _ length])
      then have "kind_path s' t = abs_path (take k dst)" using moved_same(2) [OF mv tk(2)] k(2) by simp
      then show ?thesis
        using abs_path_eq_iff [OF take_plain [OF pl, of k] pl] tk(1) take_proper [of k "dst @ rs"] 3 by simp
    qed
  qed
qed

lemma moved_old:
  assumes mv: "moved_dir s1 s' src dst" and apart: "take (length src) dst \<noteq> src" "take (length dst) src \<noteq> dst"
    and pl: "\<forall>c \<in> set (src @ rs). plain c"
  shows "node_path s' (snd (find_from (m_root s') (abs_path (src @ rs)))) \<noteq> abs_path (src @ rs)"
proof -
  have d: "isdir (m_root s')"
    and other: "\<And>es. take (length dst) es \<noteq> dst \<Longrightarrow>
      kind_at (m_root s') es = (if take (length src) es = src then None else kind_at (m_root s1) es)"
    using mv by (auto simp: moved_dir_def)
  have pre: "take (length dst) (take k (src @ es)) \<noteq> dst" for k es
    using apart_prefix [OF apart, of es] by (metis length_take min.absorb1 min.cobounded2 take_take linorder_le_cases)
  show ?thesis
  proof (rule find_missing [OF pl d])
    show "kind_at (m_root s') ((src @ rs) @ [last (src @ rs)]) = None"
      using other [OF apart_prefix [OF apart, of "rs @ [last (src @ rs)]"]] by simp
    fix k t assume k: "k \<le> length (src @ rs)" "kind_at (m_root s') (take k (src @ rs)) = Some t"
    note st = moved_same [OF mv pre k(2)]
    then have "k < length (src @ rs)" using k(1) by (cases "k = length (src @ rs)") auto
    then show "kind_path s' t \<noteq> abs_path (src @ rs)"
      using st abs_path_eq_iff [OF take_plain [OF pl, of k] pl] take_proper [of k "src @ rs"] by simp
  qed
qed

section \<open>Properties\<close>

text \<open>
  C20. When a file is stored in a directory under the directory's own name, the directory itself is no
  longer found, and no new file can be put into it: \<open>find\<close> looks up the last component of the path once
  more in the directory it has found.
\<close>

theorem own_name_hides_directory:
  assumes "mem_inv s" and "mem_ok (ds @ [c, y])"
    and "\<forall>k \<le> Suc (length ds). mem_file_at s (take k (ds @ [c])) = None"
    and "\<not> mem_entry_at s (ds @ [c, y])"
  shows "\<exists>s'. PutContent inmemory_Driver s (abs_path (ds @ [c, c])) b = (s', None)
    \<and> mem_file_at s' (ds @ [c, c]) = Some b
    \<and> Stat inmemory_Driver s' (abs_path (ds @ [c])) = Inl (PathNotFoundError (abs_path (ds @ [c])) driverName)
    \<and> PutContent inmemory_Driver s' (abs_path (ds @ [c, y])) b' =
        (s', Some (StorageError driverName (Errorf ''not a file'')))"
proof -
  have ok: "mem_ok (ds @ [c])" using mem_ok_prefix [of "ds @ [c]" "[y]"] assms(2) by simp
  have pl: "\<forall>e \<in> set (ds @ [c]). plain e" "\<forall>e \<in> set (ds @ [c, y]). plain e" by (rule mem_ok_plain, fact)+
  obtain s' i where put: "PutContent inmemory_Driver s (abs_path (ds @ [c, c])) b = (s', None)"
    "mem_file_at s' (ds @ [c, c]) = Some b" and p: "f_p (m_files s' i) = abs_path (ds @ [c, c])"
    and f: "\<And>q. trim slash q = join_with slash (ds @ [c]) \<Longrightarrow> find_from (m_root s') q = (ds @ [c, c], NFile i)"
    and y: "node_path s' (snd (find_from (m_root s') (abs_path (ds @ [c, y])))) \<noteq> abs_path (ds @ [c, y])"
    using own_name_found [OF assms(1) ok assms(2) assms(3) [rule_format] assms(4), of b] by blast
  have "abs_path (ds @ [c, c]) \<noteq> abs_path (ds @ [c])"
    using abs_path_eq_iff [of "ds @ [c, c]" "ds @ [c]"] pl(1) by simp
  then have "Stat inmemory_Driver s' (abs_path (ds @ [c])) = Inl (PathNotFoundError (abs_path (ds @ [c])) driverName)"
    using f [OF trim_abs_path [OF pl(1)]] p mem_ok_regexp [OF ok] normalize_abs_path [OF pl(1)]
    by (simp add: base_defs mem_Stat_def)
  moreover have "mkfile s' (abs_path (ds @ [c, y])) = (s', Inl errIsNotDir)"
  proof -
    have "path_split (abs_path (ds @ [c, y])) = (dir_str (ds @ [c]), y)"
      using path_split_abs [of y "ds @ [c]"] pl(2) by simp
    moreover have "find_from (m_root s') (abs_path (ds @ [c])) = (ds @ [c, c], NFile i)"
      by (rule f [OF trim_abs_path [OF pl(1)]])
    ultimately show ?thesis
      using y normalize_dir_str [OF pl(1)] by (simp add: mkfile_def mkdirs_def)
  qed
  then have "PutContent inmemory_Driver s' (abs_path (ds @ [c, y])) b' =
      (s', Some (StorageError driverName (Errorf ''not a file'')))"
    using mem_ok_regexp [OF assms(2)] normalize_abs_path [OF pl(2)] by (simp add: base_defs mem_PutContent_def)
  ultimately show ?thesis using put by blast
qed

theorem own_name_hides_directory_witness:
  "\<exists>s'. PutContent inmemory_Driver (mem_New 0) ''/a/a'' ''1'' = (s', None)
    \<and> mem_file_at s' [''a'', ''a''] = Some ''1''
    \<and> Stat inmemory_Driver s' ''/a'' = Inl (PathNotFoundError ''/a'' driverName)
    \<and> PutContent inmemory_Driver s' ''/a/y'' ''2'' = (s', Some (StorageError driverName (Errorf ''not a file'')))"
proof -
  have ok: "mem_ok ([] @ [''a'', ''y''])" by code_simp
  have none: "\<forall>k \<le> Suc (length []). mem_file_at (mem_New 0) (take k ([] @ [''a''])) = None"
    "\<not> mem_entry_at (mem_New 0) ([] @ [''a'', ''y''])"
    by (auto simp: no_file_kind kind_at_New mem_entry_kind simp del: kind_at_simps)
  show ?thesis
    using own_name_hides_directory [OF mem_inv_New ok none, of "''1''" "''2''"] by (simp add: abs_path_def)
qed



text \<open>
  C22. After a directory has been moved to a path that is neither above nor below its own, and has no
  file on the way to it, the files in it are found under neither the new nor the old path, because only
  the path stored in the moved directory is changed.
\<close>

theorem moved_directory_loses_files:
  assumes "mem_inv s" and "mem_ok src" and "mem_ok (dst @ rs)" and "dst \<noteq> []"
    and "mem_dir_at s src" and "mem_file_at s (src @ rs) = Some b"
    and "\<forall>k < length dst. mem_file_at s (take k dst) = None"
    and "take (length src) dst \<noteq> src" and "take (length dst) src \<noteq> dst"
  shows "\<exists>s'. Move inmemory_Driver s (abs_path src) (abs_path dst) = (s', None)
    \<and> GetContent inmemory_Driver s' (abs_path (dst @ rs)) = Inl (PathNotFoundError (abs_path (dst @ rs)) driverName)
    \<and> GetContent inmemory_Driver s' (abs_path (src @ rs)) = Inl (PathNotFoundError (abs_path (src @ rs)) driverName)"
proof -
  obtain i where i: "kind_at (m_root s) (src @ rs) = Some (KFile i)" using assms(6) by (auto simp: file_kind)
  have okd: "mem_ok dst" by (rule mem_ok_prefix [OF assms(3,4)])
  have oksr: "mem_ok (src @ rs)" using mem_invD(3) [OF assms(1) i] assms(2) by (auto simp: mem_ok_def comps_ok_def)
  have ne: "rs \<noteq> []" using assms(5) i by (auto simp: dir_kind)
  obtain s' s1 where mv: "Move inmemory_Driver s (abs_path src) (abs_path dst) = (s', None)" "moved_dir s1 s' src dst"
    using Move_directory [OF assms(1,2) okd assms(5) assms(7) [rule_format] assms(8,9)] by blast
  have pl: "\<forall>c \<in> set (dst @ rs). plain c" "\<forall>c \<in> set (src @ rs). plain c" by (rule mem_ok_plain, fact)+
  note missed = get_missing [OF _ pl(1) moved_new [OF mv(2) assms(8,9) pl(1) ne]]
    and gone = get_missing [OF _ pl(2) moved_old [OF mv(2) assms(8,9) pl(2)]]
  show ?thesis using mv(1) missed gone assms(3) oksr by (simp add: mem_ok_def)
qed

theorem moved_directory_loses_files_witness:
  "mem_file_at sample_mem [''a'', ''b''] = Some ''x'' \<and>
   (\<exists>s'. Move inmemory_Driver sample_mem ''/a'' ''/c'' = (s', None)
     \<and> GetContent inmemory_Driver s' ''/c/b'' = Inl (PathNotFoundError ''/c/b'' driverName)
     \<and> GetContent inmemory_Driver s' ''/a/b'' = Inl (PathNotFoundError ''/a/b'' driverName))"
proof -
  have ok: "mem_ok [''a'']" "mem_ok ([''c''] @ [''b''])" and dir: "mem_dir_at sample_mem [''a'']"
    and f: "mem_file_at sample_mem ([''a''] @ [''b'']) = Some ''x''" "mem_file_at sample_mem [] = None" by code_simp+
  have nf: "\<forall>k < length [''c'']. mem_file_at sample_mem (take k [''c'']) = None" using f(2) by simp
  show ?thesis
    using moved_directory_loses_files [OF sample_mem_inv ok _ dir f(1) nf] f(1) by (simp add: abs_path_def)
qed

text \<open>
  C23. Deleting a path whose parent is a file panics instead of reporting that the path is not found,
  in every store with consistent paths.
\<close>

theorem delete_below_file_panics:
  assumes "mem_inv s" and "mem_ok (cs @ [c])" and "mem_file_at s cs = Some b"
  shows "Delete inmemory_Driver s (abs_path (cs @ [c])) = (s, Some (GoPanic ''interface conversion''))"
  using mem_Delete_below_file [OF assms(1,2)] assms(3) mem_ok_regexp [OF assms(2)] by (simp add: base_defs)

theorem delete_below_file_panics_witness:
  "mem_file_at sample_mem [''a'', ''b''] = Some ''x'' \<and>
   Delete inmemory_Driver sample_mem ''/a/b/c'' = (sample_mem, Some (GoPanic ''interface conversion''))"
proof -
  have ok: "mem_ok ([''a'', ''b''] @ [''c''])" and f: "mem_file_at sample_mem [''a'', ''b''] = Some ''x''" by code_simp+
  show ?thesis
    using delete_below_file_panics [OF sample_mem_inv ok f] f by (simp add: abs_path_def)
qed

end
