(* ===== verification/Walk_Parallel.thy ===== *)
theory Walk_Parallel
  imports InMemory_Laws "HOL-Library.Multiset"
begin

text \<open>
  The parallel walk of \<open>registry/storage/driver/walk.go\<close>. Every call of \<open>doWalkParallel\<close> and every
  child goroutine is an element of a list of goroutines, at one of the points where it can be
  interrupted; a step moves one of them, or the goroutine that collects the errors. A run is a list
  of steps, so every interleaving is a run. Sends on the error channel, which has no buffer, wait
  until the collector receives; the semaphore channel is the number of slots taken. The walk function
  is called in one step: the walks of the registry pass functions that are safe to call concurrently.
\<close>

section \<open>Goroutines and steps\<close>

datatype goroutine =
    Entering string
  | Looping "string list"
  | Failing driver_error
  | Statting string
  | Calling string file_info
  | Sending driver_error
  | Releasing

text \<open>
  \<open>Entering\<close>, \<open>Looping\<close> and \<open>Failing\<close> are inside \<open>doWalkParallel\<close>: at the select, in the loop over
  the children, and before the send of the error of \<open>List\<close>. The others are in a child goroutine,
  which holds a slot of the semaphore: before \<open>Stat\<close>, before the walk function, before the send of an
  error and before the release. \<open>ws_busy\<close> says that the collector has received its first error and
  not yet closed the channel \<open>quit\<close>.
\<close>

record ('s, 'u) walk_state =
  ws_st :: "'s \<times> 'u"
  ws_gs :: "goroutine list"
  ws_sem :: nat
  ws_errs :: "driver_error list"
  ws_busy :: bool
  ws_quit :: bool

datatype mover = Collector | Goroutine nat

definition remove_nth :: "nat \<Rightarrow> 'a list \<Rightarrow> 'a list" where
  "remove_nth i xs = take i xs @ drop (Suc i) xs"

definition receive_error :: "driver_error \<Rightarrow> ('s, 'u) walk_state \<Rightarrow> ('s, 'u) walk_state" where
  "receive_error e w = w\<lparr>ws_errs := ws_errs w @ [e], ws_busy := \<not> ws_quit w\<rparr>"

text \<open>One step of \<open>doWalkParallel\<close>, of the goroutine at index \<open>i\<close>; \<open>None\<close> when it has to wait.\<close>

definition doWalk_step ::
    "('s, 'w) storage_driver \<Rightarrow> nat \<Rightarrow> nat \<Rightarrow> goroutine \<Rightarrow> ('s, 'u) walk_state \<Rightarrow> ('s, 'u) walk_state option" where
  "doWalk_step D maxConcurrency i g w =
     (case g of
        Entering from \<Rightarrow>
          if ws_quit w then Some (w\<lparr>ws_gs := remove_nth i (ws_gs w)\<rparr>)
          else
            (case ListDir D (fst (ws_st w)) from of
               Inl e \<Rightarrow> Some (w\<lparr>ws_gs := (ws_gs w)[i := Failing e]\<rparr>)
             | Inr cs \<Rightarrow> Some (w\<lparr>ws_gs := (ws_gs w)[i := Looping cs]\<rparr>))
      | Looping [] \<Rightarrow> Some (w\<lparr>ws_gs := remove_nth i (ws_gs w)\<rparr>)
      | Looping (c # cs) \<Rightarrow>
          if ws_sem w < maxConcurrency
          then Some (w\<lparr>ws_sem := Suc (ws_sem w), ws_gs := (ws_gs w)[i := Looping cs] @ [Statting c]\<rparr>)
          else None
      | Failing e \<Rightarrow>
          if ws_busy w then None
          else Some (receive_error e (w\<lparr>ws_gs := remove_nth i (ws_gs w)\<rparr>))
      | _ \<Rightarrow> None)"

text \<open>One step of a child goroutine.\<close>

definition child_step ::
    "('s, 'w) storage_driver \<Rightarrow> ('s, 'u) walk_fn \<Rightarrow> nat \<Rightarrow> goroutine \<Rightarrow> ('s, 'u) walk_state \<Rightarrow> ('s, 'u) walk_state option" where
  "child_step D f i g w =
     (case g of
        Statting c \<Rightarrow>
          (case Stat D (fst (ws_st w)) c of
             Inl (PathNotFoundError _ _) \<Rightarrow> Some (w\<lparr>ws_gs := (ws_gs w)[i := Releasing]\<rparr>)
           | Inl e \<Rightarrow> Some (w\<lparr>ws_gs := (ws_gs w)[i := Sending e]\<rparr>)
           | Inr info \<Rightarrow> Some (w\<lparr>ws_gs := (ws_gs w)[i := Calling c info]\<rparr>))
      | Calling c info \<Rightarrow>
          (case f info (ws_st w) of
             (st', None) \<Rightarrow>
               if fi_isdir info
               then Some (w\<lparr>ws_st := st', ws_sem := ws_sem w - 1, ws_gs := (ws_gs w)[i := Entering c]\<rparr>)
               else Some (w\<lparr>ws_st := st', ws_gs := (ws_gs w)[i := Releasing]\<rparr>)
           | (st', Some e) \<Rightarrow>
               if e = ErrSkipDir \<and> fi_isdir info
               then Some (w\<lparr>ws_st := st', ws_gs := (ws_gs w)[i := Releasing]\<rparr>)
               else Some (w\<lparr>ws_st := st', ws_gs := (ws_gs w)[i := Sending e]\<rparr>))
      | Sending e \<Rightarrow>
          if ws_busy w then None
          else Some (receive_error e (w\<lparr>ws_gs := (ws_gs w)[i := Releasing]\<rparr>))
      | Releasing \<Rightarrow> Some (w\<lparr>ws_sem := ws_sem w - 1, ws_gs := remove_nth i (ws_gs w)\<rparr>)
      | _ \<Rightarrow> None)"

fun holds_slot :: "goroutine \<Rightarrow> bool" where
  "holds_slot (Entering _) = False"
| "holds_slot (Looping _) = False"
| "holds_slot (Failing _) = False"
| "holds_slot _ = True"

definition collector_step :: "('s, 'u) walk_state \<Rightarrow> ('s, 'u) walk_state option" where
  "collector_step w = (if ws_busy w then Some (w\<lparr>ws_busy := False, ws_quit := True\<rparr>) else None)"

definition walk_step ::
    "('s, 'w) storage_driver \<Rightarrow> ('s, 'u) walk_fn \<Rightarrow> nat \<Rightarrow> mover \<Rightarrow> ('s, 'u) walk_state \<Rightarrow> ('s, 'u) walk_state option" where
  "walk_step D f maxConcurrency mv w =
     (case mv of
        Collector \<Rightarrow> collector_step w
      | Goroutine i \<Rightarrow>
          if i < length (ws_gs w)
          then if holds_slot (ws_gs w ! i) then child_step D f i (ws_gs w ! i) w
               else doWalk_step D maxConcurrency i (ws_gs w ! i) w
          else None)"

fun walk_run ::
    "('s, 'w) storage_driver \<Rightarrow> ('s, 'u) walk_fn \<Rightarrow> nat \<Rightarrow> mover list \<Rightarrow> ('s, 'u) walk_state \<Rightarrow> ('s, 'u) walk_state option" where
  "walk_run D f maxConcurrency [] w = Some w"
| "walk_run D f maxConcurrency (mv # mvs) w =
     (case walk_step D f maxConcurrency mv w of
        None \<Rightarrow> None
      | Some w' \<Rightarrow> walk_run D f maxConcurrency mvs w')"

definition walk_start :: "string \<Rightarrow> 's \<times> 'u \<Rightarrow> ('s, 'u) walk_state" where
  "walk_start from st = \<lparr>ws_st = st, ws_gs = [Entering from], ws_sem = 0, ws_errs = [], ws_busy = False, ws_quit = False\<rparr>"

definition walk_over :: "('s, 'u) walk_state \<Rightarrow> bool" where
  "walk_over w \<longleftrightarrow> ws_gs w = [] \<and> \<not> ws_busy w"

text \<open>
  The walk as its caller sees it: the steps of the schedule have to bring it to the end, where the
  state and the errors are returned.
\<close>

definition WalkFallbackParallel ::
    "mover list \<Rightarrow> ('s, 'w) storage_driver \<Rightarrow> nat \<Rightarrow> string \<Rightarrow> ('s, 'u) walk_fn \<Rightarrow> 's \<times> 'u
     \<Rightarrow> (('s \<times> 'u) \<times> driver_error list) option" where
  "WalkFallbackParallel sched D maxConcurrency from f st =
     (case walk_run D f maxConcurrency sched (walk_start from st) of
        None \<Rightarrow> None
      | Some w \<Rightarrow> if walk_over w then Some (ws_st w, ws_errs w) else None)"

text \<open>The walk of the in-memory driver.\<close>

definition maxWalkConcurrency :: nat where
  "maxWalkConcurrency = 25"

definition mem_WalkParallel ::
    "mover list \<Rightarrow> string \<Rightarrow> (mem, 'u) walk_fn \<Rightarrow> mem \<times> 'u \<Rightarrow> ((mem \<times> 'u) \<times> driver_error list) option" where
  "mem_WalkParallel sched path f st = WalkFallbackParallel sched mem_driver maxWalkConcurrency path f st"

section \<open>Slots and progress\<close>

definition walk_inv :: "nat \<Rightarrow> ('s, 'u) walk_state \<Rightarrow> bool" where
  "walk_inv maxConcurrency w \<longleftrightarrow>
     ws_sem w = length (filter holds_slot (ws_gs w)) \<and> ws_sem w \<le> maxConcurrency"

lemma remove_nth_split:
  assumes "i < length xs"
  shows "length (filter Q xs) = length (filter Q (remove_nth i xs)) + (if Q (xs ! i) then 1 else 0)"
proof -
  have "xs = take i xs @ xs ! i # drop (Suc i) xs" using assms by (rule id_take_nth_drop)
  then have "filter Q xs = filter Q (take i xs) @ filter Q (xs ! i # drop (Suc i) xs)" by (metis filter_append)
  then show ?thesis by (simp add: remove_nth_def)
qed

lemma update_filter:
  assumes "i < length xs"
  shows "length (filter Q (xs[i := y])) + (if Q (xs ! i) then 1 else 0) = length (filter Q xs) + (if Q y then 1 else 0)"
proof -
  have a: "xs = take i xs @ xs ! i # drop (Suc i) xs" using assms by (rule id_take_nth_drop)
  have "filter Q xs = filter Q (take i xs) @ filter Q (xs ! i # drop (Suc i) xs)" using a by (metis filter_append)
  moreover have "filter Q (xs[i := y]) = filter Q (take i xs) @ filter Q (y # drop (Suc i) xs)"
    using assms by (simp add: upd_conv_take_nth_drop)
  ultimately show ?thesis by simp
qed

lemmas walk_step_defs = walk_step_def collector_step_def doWalk_step_def child_step_def receive_error_def

lemma walk_run_append:
  "walk_run D f m (mvs @ mvs') w = (case walk_run D f m mvs w of None \<Rightarrow> None | Some w' \<Rightarrow> walk_run D f m mvs' w')"
  by (induction mvs arbitrary: w) (auto split: option.split)

lemma walk_inv_start: "walk_inv m (walk_start from st)"
  by (simp add: walk_inv_def walk_start_def)

lemma walk_step_inv:
  assumes "walk_step D f m mv w = Some w'" "walk_inv m w"
  shows "walk_inv m w'"
proof (cases mv)
  case Collector
  then show ?thesis using assms by (auto simp: walk_step_defs walk_inv_def split: if_splits)
next
  case (Goroutine i)
  then have i: "i < length (ws_gs w)" using assms(1) by (auto simp: walk_step_def split: if_splits)
  note rm = remove_nth_split [OF i, of holds_slot] and up = update_filter [OF i, of holds_slot]
  show ?thesis
    using assms Goroutine i rm up
    by (cases "ws_gs w ! i") (auto simp: walk_step_defs walk_inv_def split: if_splits sum.splits list.splits
        driver_error.splits prod.splits option.splits)
qed

lemma walk_run_inv: "walk_run D f m mvs w = Some w' \<Longrightarrow> walk_inv m w \<Longrightarrow> walk_inv m w'"
  by (induction mvs arbitrary: w) (auto split: option.splits dest: walk_step_inv)

text \<open>
  No interleaving gets stuck: a goroutine that holds a slot can always go on, or the collector can;
  if none holds a slot, one is free for the loops.
\<close>

lemma walk_progress:
  assumes "walk_inv m w" "0 < m" "\<not> walk_over w"
  shows "\<exists>mv w'. walk_step D f m mv w = Some w'"
proof (cases "ws_busy w")
  case True
  then show ?thesis by (intro exI [of _ Collector]) (simp add: walk_step_defs)
next
  case False
  then have ne: "ws_gs w \<noteq> []" using assms(3) by (simp add: walk_over_def)
  obtain i where i: "i < length (ws_gs w)" "ws_sem w = 0 \<or> holds_slot (ws_gs w ! i)"
  proof (cases "filter holds_slot (ws_gs w) = []")
    case True
    then show ?thesis using that [of 0] ne assms(1) by (simp add: walk_inv_def)
  next
    case False
    then obtain g where "g \<in> set (ws_gs w)" "holds_slot g" by (auto simp: filter_empty_conv)
    then show ?thesis using that by (metis in_set_conv_nth)
  qed
  have "\<exists>w'. walk_step D f m (Goroutine i) w = Some w'"
    using i False assms(2)
    by (cases "ws_gs w ! i") (auto simp: walk_step_defs split: sum.splits list.splits driver_error.splits
        prod.splits option.splits)
  then show ?thesis by blast
qed

section \<open>What a run calls\<close>

definition called :: "mover \<Rightarrow> ('s, 'u) walk_state \<Rightarrow> file_info list" where
  "called mv w =
     (case mv of
        Goroutine i \<Rightarrow>
          if i < length (ws_gs w) then (case ws_gs w ! i of Calling c info \<Rightarrow> [info] | _ \<Rightarrow> []) else []
      | Collector \<Rightarrow> [])"

lemma called_cases:
  "called mv w = [] \<or>
     (\<exists>i c info. i < length (ws_gs w) \<and> ws_gs w ! i = Calling c info \<and> called mv w = [info])"
  by (cases mv) (auto simp: called_def split: goroutine.split)

lemma in_calledE:
  assumes "info \<in> set (called mv w)"
  obtains i c where "i < length (ws_gs w)" "ws_gs w ! i = Calling c info"
  using called_cases [of mv w] assms by auto

fun walk_calls ::
    "('s, 'w) storage_driver \<Rightarrow> ('s, 'u) walk_fn \<Rightarrow> nat \<Rightarrow> mover list \<Rightarrow> ('s, 'u) walk_state \<Rightarrow> file_info list" where
  "walk_calls D f m [] w = []"
| "walk_calls D f m (mv # mvs) w =
     called mv w @ (case walk_step D f m mv w of None \<Rightarrow> [] | Some w' \<Rightarrow> walk_calls D f m mvs w')"

lemma walk_step_effect:
  assumes "walk_step D f m mv w = Some w'"
  shows "ws_st w' = fold (\<lambda>info st. fst (f info st)) (called mv w) (ws_st w)"
proof (cases mv)
  case Collector
  then show ?thesis using assms by (auto simp: walk_step_defs called_def split: if_splits)
next
  case (Goroutine i)
  then show ?thesis
    using assms by (cases "ws_gs w ! i") (auto simp: walk_step_defs called_def split: if_splits sum.splits list.splits
        driver_error.splits prod.splits option.splits)
qed

lemma walk_run_effect:
  "walk_run D f m mvs w = Some w' \<Longrightarrow>
     ws_st w' = fold (\<lambda>info st. fst (f info st)) (walk_calls D f m mvs w) (ws_st w)"
proof (induction mvs arbitrary: w)
  case (Cons mv mvs)
  then obtain w1 where w1: "walk_step D f m mv w = Some w1" by (auto split: option.splits)
  with Cons show ?case using walk_step_effect [OF w1] by simp
qed simp

text \<open>
  Two walk functions that agree on the states a walk can be in give the same walk.
\<close>

lemma walk_step_cong:
  assumes "\<And>info st. I st \<Longrightarrow> f info st = f' info st" "\<And>info st. I st \<Longrightarrow> I (fst (f info st))" "I (ws_st w)"
  shows "walk_step D f m mv w = walk_step D f' m mv w"
    and "walk_step D f m mv w = Some w' \<Longrightarrow> I (ws_st w')"
proof -
  show "walk_step D f m mv w = walk_step D f' m mv w"
    using assms(1) [OF assms(3)] by (auto simp: walk_step_def child_step_def split: mover.split goroutine.split)
  have "I (fold (\<lambda>info st. fst (f info st)) infos st)" if "I st" for infos st
    using that assms(2) by (induction infos arbitrary: st) simp_all
  then show "I (ws_st w')" if "walk_step D f m mv w = Some w'"
    using walk_step_effect [OF that] assms(3) by simp
qed

lemma walk_cong:
  assumes "\<And>info st. I st \<Longrightarrow> f info st = f' info st" "\<And>info st. I st \<Longrightarrow> I (fst (f info st))" "I st"
  shows "WalkFallbackParallel sched D m from f st = WalkFallbackParallel sched D m from f' st"
proof -
  have "walk_run D f m sched w = walk_run D f' m sched w" if "I (ws_st w)" for w
    using that
  proof (induction sched arbitrary: w)
    case (Cons mv mvs)
    have eq: "walk_step D f m mv w = walk_step D f' m mv w"
      by (rule walk_step_cong(1) [where I = I], fact assms(1), fact assms(2), fact Cons.prems)
    have "I (ws_st w')" if "walk_step D f m mv w = Some w'" for w'
      by (rule walk_step_cong(2) [where I = I and f = f and f' = f', OF _ _ _ that], fact assms(1), fact assms(2), fact Cons.prems)
    then show ?case using eq Cons.IH by (simp split: option.split)
  qed simp
  from this [of "walk_start from st"] show ?thesis
    using assms(3) by (simp add: WalkFallbackParallel_def walk_start_def)
qed

text \<open>A walk whose start cannot be listed reports that and nothing else.\<close>

lemma walk_unlisted:
  assumes "ListDir D (fst st) from = Inl e" and "WalkFallbackParallel sched D m from f st = Some (st', errs)"
  shows "st' = st \<and> errs = [e]"
proof -
  let ?I = "\<lambda>w. ws_st w = st \<and> (ws_gs w = [Entering from] \<and> ws_errs w = [] \<and> \<not> ws_quit w \<and> \<not> ws_busy w \<or>
      ws_gs w = [Failing e] \<and> ws_errs w = [] \<or> ws_gs w = [] \<and> ws_errs w = [e])"
  have step: "?I w'" if "?I w" "walk_step D f m mv w = Some w'" for w w' mv
    using that assms(1)
    by (cases mv) (auto simp: walk_step_defs remove_nth_def split: if_splits)
  have "?I w'" if "?I w" "walk_run D f m sched w = Some w'" for w w'
    using that
  proof (induction sched arbitrary: w)
    case (Cons mv mvs)
    then obtain w1 where "walk_step D f m mv w = Some w1" "walk_run D f m mvs w1 = Some w'"
      by (auto split: option.splits)
    with Cons.IH step [OF Cons.prems(1)] show ?case by blast
  qed simp
  from this [of "walk_start from st"] show ?thesis
    using assms(2) by (auto simp: WalkFallbackParallel_def walk_start_def walk_over_def split: option.splits if_splits)
qed

section \<open>The tree below a path\<close>

lemma sum_list_update_at:
  assumes "i < length xs"
  shows "(\<Sum>x\<leftarrow>xs[i := y]. (h :: 'a \<Rightarrow> 'c :: comm_monoid_add) x) + h (xs ! i) = (\<Sum>x\<leftarrow>xs. h x) + h y"
proof -
  have "xs = take i xs @ xs ! i # drop (Suc i) xs" using assms by (rule id_take_nth_drop)
  then have "(\<Sum>x\<leftarrow>xs. h x) = (\<Sum>x\<leftarrow>take i xs. h x) + (h (xs ! i) + (\<Sum>x\<leftarrow>drop (Suc i) xs. h x))"
    by (metis list.simps(9) map_append sum_list.Cons sum_list_append)
  then show ?thesis
    using assms by (simp add: upd_conv_take_nth_drop ac_simps)
qed

lemma sum_list_remove_nth:
  assumes "i < length xs"
  shows "(\<Sum>x\<leftarrow>remove_nth i xs. (h :: 'a \<Rightarrow> 'c :: comm_monoid_add) x) + h (xs ! i) = (\<Sum>x\<leftarrow>xs. h x)"
proof -
  have "xs = take i xs @ xs ! i # drop (Suc i) xs" using assms by (rule id_take_nth_drop)
  then have "(\<Sum>x\<leftarrow>xs. h x) = (\<Sum>x\<leftarrow>take i xs. h x) + (h (xs ! i) + (\<Sum>x\<leftarrow>drop (Suc i) xs. h x))"
    by (metis list.simps(9) map_append sum_list.Cons sum_list_append)
  then show ?thesis by (simp add: remove_nth_def ac_simps)
qed

text \<open>
  The entries a walk from \<open>cs\<close> comes to when it enters the directories that satisfy \<open>desc\<close>.
\<close>

definition visited :: "(string list \<Rightarrow> bool) \<Rightarrow> (string list \<Rightarrow> bool) \<Rightarrow> string list \<Rightarrow> string list set" where
  "visited entry desc cs = {cs @ c # r |c r. entry (cs @ c # r) \<and> (\<forall>k < length r. desc (cs @ c # take k r))}"

definition subtree :: "(string list \<Rightarrow> bool) \<Rightarrow> (string list \<Rightarrow> bool) \<Rightarrow> string list \<Rightarrow> string list multiset" where
  "subtree entry desc cs = {#cs#} + (if desc cs then mset_set (visited entry desc cs) else {#})"

lemma visited_children:
  assumes "\<And>cs c. entry (cs @ [c]) \<Longrightarrow> cs \<noteq> [] \<Longrightarrow> entry cs"
  shows "visited entry desc cs =
    (\<Union>c \<in> {c. entry (cs @ [c])}. insert (cs @ [c]) (if desc (cs @ [c]) then visited entry desc (cs @ [c]) else {}))"
proof -
  have up: "entry (cs @ c # take k r)" if "entry (cs @ c # r)" for c r k
    using that
  proof (induction "length r" arbitrary: r)
    case (Suc n)
    then obtain x r' where r: "r = r' @ [x]" by (cases r rule: rev_cases) auto
    show ?case
    proof (cases "k < length r")
      case True
      have "entry (cs @ c # r')" using assms [of "cs @ c # r'" x] Suc.prems r by simp
      from Suc.hyps(1) [OF _ this] Suc.hyps(2) r True show ?thesis by simp
    next
      case False
      then show ?thesis using Suc.prems by simp
    qed
  qed simp
  show ?thesis
  proof (intro set_eqI iffI)
    fix ds assume "ds \<in> visited entry desc cs"
    then obtain c r where ds: "ds = cs @ c # r" "entry (cs @ c # r)" "\<forall>k < length r. desc (cs @ c # take k r)"
      by (auto simp: visited_def)
    have c: "entry (cs @ [c])" using up [OF ds(2), of 0] by simp
    show "ds \<in> (\<Union>c \<in> {c. entry (cs @ [c])}. insert (cs @ [c]) (if desc (cs @ [c]) then visited entry desc (cs @ [c]) else {}))"
    proof (cases r)
      case Nil
      then show ?thesis using c ds(1) by auto
    next
      case (Cons x r')
      then have "desc (cs @ [c])" using ds(3) by (metis length_greater_0_conv list.distinct(1) take0)
      moreover have "\<forall>k < length r'. desc ((cs @ [c]) @ x # take k r')"
      proof (intro allI impI)
        fix k assume "k < length r'"
        then have "desc (cs @ c # take (Suc k) r)" using ds(3) Cons by auto
        then show "desc ((cs @ [c]) @ x # take k r')" using Cons by simp
      qed
      then have "ds \<in> visited entry desc (cs @ [c])"
        using ds(1,2) Cons unfolding visited_def by (intro CollectI exI [of _ x] exI [of _ r']) simp
      ultimately show ?thesis using c by auto
    qed
  next
    fix ds assume "ds \<in> (\<Union>c \<in> {c. entry (cs @ [c])}. insert (cs @ [c]) (if desc (cs @ [c]) then visited entry desc (cs @ [c]) else {}))"
    then obtain c where c: "entry (cs @ [c])" "ds = cs @ [c] \<or> desc (cs @ [c]) \<and> ds \<in> visited entry desc (cs @ [c])"
      by (auto split: if_splits)
    from c(2) show "ds \<in> visited entry desc cs"
    proof
      assume "ds = cs @ [c]"
      then show ?thesis using c(1) unfolding visited_def by (intro CollectI exI [of _ c] exI [of _ "[]"]) simp
    next
      assume d: "desc (cs @ [c]) \<and> ds \<in> visited entry desc (cs @ [c])"
      then obtain x r where r: "ds = (cs @ [c]) @ x # r" "entry ((cs @ [c]) @ x # r)"
        "\<forall>k < length r. desc ((cs @ [c]) @ x # take k r)"
        unfolding visited_def by blast
      have "desc (cs @ c # take k (x # r))" if "k < length (x # r)" for k
        using that d r(3) by (cases k) auto
      then show ?thesis
        using r unfolding visited_def by (intro CollectI exI [of _ c] exI [of _ "x # r"]) simp
    qed
  qed
qed

lemma mset_set_UNION_disjoint:
  assumes "finite C" "\<And>c. c \<in> C \<Longrightarrow> finite (X c)" "\<And>c d. c \<in> C \<Longrightarrow> d \<in> C \<Longrightarrow> c \<noteq> d \<Longrightarrow> X c \<inter> X d = {}"
  shows "mset_set (\<Union>c\<in>C. X c) = (\<Sum>c\<in>C. mset_set (X c))"
  using assms
proof (induction C rule: finite_induct)
  case (insert c C)
  then have "X c \<inter> (\<Union>d\<in>C. X d) = {}" by blast
  with insert show ?case by (simp add: mset_set_Union)
qed simp

lemma mset_eq_mset_set:
  assumes "mset xs = mset_set A" "finite A"
  shows "distinct xs" "set xs = A"
proof -
  show A: "set xs = A" using arg_cong [OF assms(1), of set_mset] assms(2) by simp
  show "distinct xs" unfolding distinct_count_atmost_1 using assms A by simp
qed

lemma visited_longer: "ds \<in> visited entry desc cs \<Longrightarrow> \<exists>c r. ds = cs @ c # r"
  by (auto simp: visited_def)

fun todo :: "(string list \<Rightarrow> bool) \<Rightarrow> (string list \<Rightarrow> bool) \<Rightarrow> goroutine \<Rightarrow> string list multiset" where
  "todo entry desc (Entering p) = mset_set (visited entry desc (path_comps p))"
| "todo entry desc (Looping ps) = (\<Sum>p\<leftarrow>ps. subtree entry desc (path_comps p))"
| "todo entry desc (Statting p) = subtree entry desc (path_comps p)"
| "todo entry desc (Calling p _) = subtree entry desc (path_comps p)"
| "todo entry desc _ = {#}"

fun weight :: "(string list \<Rightarrow> bool) \<Rightarrow> goroutine \<Rightarrow> nat" where
  "weight entry (Entering p) = 8 * size (todo entry (\<lambda>_. True) (Entering p)) + 3"
| "weight entry (Looping ps) = 8 * size (todo entry (\<lambda>_. True) (Looping ps)) + 2"
| "weight entry (Statting p) = 8 * size (todo entry (\<lambda>_. True) (Statting p)) - 1"
| "weight entry (Calling p i) = 8 * size (todo entry (\<lambda>_. True) (Calling p i)) - 2"
| "weight entry (Failing e) = 2"
| "weight entry (Sending e) = 3"
| "weight entry Releasing = 1"

definition walk_weight :: "(string list \<Rightarrow> bool) \<Rightarrow> ('s, 'u) walk_state \<Rightarrow> nat" where
  "walk_weight entry w = (\<Sum>g\<leftarrow>ws_gs w. weight entry g) + (if ws_busy w then 1 else 0)"

lemma size_subtree: "size (subtree entry (\<lambda>_. True) cs) = Suc (size (mset_set (visited entry (\<lambda>_. True) cs)))"
  by (simp add: subtree_def)

text \<open>A walk function that leaves the storage alone, and one whose answer depends on the entry only.\<close>

definition read_only :: "('s, 'u) walk_fn \<Rightarrow> 's \<Rightarrow> bool" where
  "read_only f s \<longleftrightarrow> (\<forall>info u. fst (fst (f info (s, u))) = s)"

definition decides :: "('s, 'u) walk_fn \<Rightarrow> 's \<Rightarrow> (file_info \<Rightarrow> driver_error option) \<Rightarrow> bool" where
  "decides f s decide \<longleftrightarrow> (\<forall>info u. snd (f info (s, u)) = decide info)"

text \<open>The directories a walk goes into.\<close>

definition enters :: "('s, 'w) storage_driver \<Rightarrow> (file_info \<Rightarrow> driver_error option) \<Rightarrow> 's \<Rightarrow> string list \<Rightarrow> bool" where
  "enters D decide s cs \<longleftrightarrow>
     (case Stat D s (abs_path cs) of Inl _ \<Rightarrow> False | Inr info \<Rightarrow> fi_isdir info \<and> decide info = None)"

text \<open>The errors a walk has still to report or has reported. No call of its function that fails is lost.\<close>

fun reports :: "goroutine \<Rightarrow> bool" where
  "reports (Sending _) = True"
| "reports (Failing _) = True"
| "reports _ = False"

definition pending :: "('s, 'u) walk_state \<Rightarrow> nat" where
  "pending w = length (filter reports (ws_gs w)) + length (ws_errs w)"

definition failed :: "(file_info \<Rightarrow> driver_error option) \<Rightarrow> file_info \<Rightarrow> bool" where
  "failed decide info \<longleftrightarrow> decide info \<noteq> None \<and> \<not> (decide info = Some ErrSkipDir \<and> fi_isdir info)"

lemma walk_step_pending:
  assumes "walk_step D f m mv w = Some w'" "read_only f s" "decides f s decide" "fst (ws_st w) = s"
  shows "pending w + length (filter (failed decide) (called mv w)) \<le> pending w' \<and> fst (ws_st w') = s"
proof -
  have dec: "snd (f info (ws_st w)) = decide info" "fst (fst (f info (ws_st w))) = s" for info
    using assms(2-4) unfolding decides_def read_only_def by (metis prod.collapse)+
  show ?thesis
  proof (cases mv)
    case Collector
    then show ?thesis using assms(1,4) by (auto simp: walk_step_defs pending_def called_def split: if_splits)
  next
    case (Goroutine i)
    then have i: "i < length (ws_gs w)" using assms(1) by (auto simp: walk_step_def split: if_splits)
    note rm = remove_nth_split [OF i, of reports] and up = update_filter [OF i, of reports]
    show ?thesis
    proof (cases "ws_gs w ! i")
      case (Calling c info)
      obtain st' e where fe: "f info (ws_st w) = (st', e)" by fastforce
      then have de: "e = decide info" "fst st' = s" using dec [of info] by simp_all
      show ?thesis
        using assms(1) Goroutine i up [of "Entering c"] up [of Releasing] up [of "Sending (the e)"] Calling fe de
        by (auto simp: walk_step_defs pending_def called_def failed_def split: option.splits if_splits)
    qed (use assms(1,4) Goroutine i rm up in
      \<open>auto simp: walk_step_defs pending_def called_def split: if_splits sum.splits list.splits driver_error.splits\<close>)
  qed
qed

lemma walk_run_pending:
  assumes "walk_run D f m mvs w = Some w'" "read_only f s" "decides f s decide" "fst (ws_st w) = s"
  shows "pending w + length (filter (failed decide) (walk_calls D f m mvs w)) \<le> pending w'"
  using assms(1,4)
proof (induction mvs arbitrary: w)
  case (Cons mv mvs)
  then obtain w1 where w1: "walk_step D f m mv w = Some w1" "walk_run D f m mvs w1 = Some w'"
    by (auto split: option.splits)
  from walk_step_pending [OF w1(1) assms(2,3) Cons.prems(2)] Cons.IH [OF w1(2)] w1(1) show ?case by simp
qed simp

lemma walk_calls_fine:
  assumes "walk_run D f m mvs w = Some w'" "read_only f s" "decides f s decide" "fst (ws_st w) = s"
    and "ws_gs w' = []" "ws_errs w' = []" "info \<in> set (walk_calls D f m mvs w)"
  shows "\<not> failed decide info"
proof -
  have "filter (failed decide) (walk_calls D f m mvs w) = []"
    using walk_run_pending [OF assms(1-4)] assms(5,6) by (simp add: pending_def)
  then show ?thesis using assms(7) by (simp add: filter_empty_conv)
qed

context readable_driver
begin

abbreviation entries :: "'s \<Rightarrow> string list \<Rightarrow> bool" where
  "entries s \<equiv> entry_at file_at dir_at s"

definition good_path :: "'s \<Rightarrow> string \<Rightarrow> bool" where
  "good_path s p \<longleftrightarrow> (\<exists>cs. p = abs_path cs \<and> ok cs \<and> entries s cs)"

lemma ok_abs: "ok cs \<Longrightarrow> path_comps (abs_path cs) = cs" "ok cs \<Longrightarrow> cs \<noteq> []"
  using ok_comps [of cs] comp_ok_slash by (auto simp: comps_ok_def intro!: path_comps_abs)

lemma finite_visited: "inv s \<Longrightarrow> finite (visited (entries s) desc cs)"
  by (rule finite_subset [OF _ finite_entries [of s]]) (auto simp: visited_def)

lemma child_ok: "inv s \<Longrightarrow> entries s (cs @ [c]) \<Longrightarrow> ok (cs @ [c])"
  using entry_ok [of s "cs @ [c]"] by auto

lemma list_visited:
  assumes "inv s" "ok cs" "dir_at s cs"
  obtains xs where "ListDir D s (abs_path cs) = Inr xs" "\<forall>p \<in> set xs. good_path s p"
    "mset_set (visited (entries s) desc cs) = (\<Sum>p\<leftarrow>xs. subtree (entries s) desc (path_comps p))"
proof -
  define C where "C = {c. entries s (cs @ [c])}"
  define X where "X c = insert (cs @ [c]) (if desc (cs @ [c]) then visited (entries s) desc (cs @ [c]) else {})" for c
  obtain xs where xs: "ListDir D s (abs_path cs) = Inr xs" "distinct xs"
    "set xs = {abs_path (cs @ [c]) |c. entries s (cs @ [c])}"
    using list_dir [OF assms] by blast
  have good: "\<forall>p \<in> set xs. good_path s p"
    using xs(3) child_ok [OF assms(1)] by (auto simp: good_path_def)
  have pc: "path_comps (abs_path (cs @ [c])) = cs @ [c]" if "c \<in> C" for c
    using that child_ok [OF assms(1)] ok_abs(1) by (simp add: C_def)
  have inj: "inj_on (\<lambda>c. abs_path (cs @ [c])) C"
    by (rule inj_onI) (metis last_snoc pc)
  have setxs: "set xs = (\<lambda>c. abs_path (cs @ [c])) ` C" using xs(3) by (auto simp: C_def)
  have finC: "finite C" using setxs inj by (metis finite_imageD finite_set)
  have "visited (entries s) desc cs = (\<Union>c\<in>C. X c)"
    unfolding C_def X_def
    by (rule visited_children) (metis assms(1) entry_parent entry_at_def)
  also have "mset_set \<dots> = (\<Sum>c\<in>C. mset_set (X c))"
  proof (rule mset_set_UNION_disjoint [OF finC])
    show "finite (X c)" for c using finite_visited [OF assms(1)] by (simp add: X_def)
    have pre: "\<exists>r. ds = cs @ c # r" if "ds \<in> X c" for c ds
      using that visited_longer [of ds "entries s" desc "cs @ [c]"] by (auto simp: X_def split: if_splits)
    show "X c \<inter> X d = {}" if "c \<noteq> d" for c d
    proof (rule equals0I)
      fix ds assume "ds \<in> X c \<inter> X d"
      then obtain r r' where "ds = cs @ c # r" "ds = cs @ d # r'" using pre by blast
      with that show False by simp
    qed
  qed
  also have "\<dots> = (\<Sum>c\<in>C. subtree (entries s) desc (cs @ [c]))"
  proof (rule sum.cong [OF refl])
    fix c assume "c \<in> C"
    have "cs @ [c] \<notin> visited (entries s) desc (cs @ [c])" using visited_longer by fastforce
    then show "mset_set (X c) = subtree (entries s) desc (cs @ [c])"
      using finite_visited [OF assms(1)] by (simp add: X_def subtree_def)
  qed
  also have "\<dots> = (\<Sum>p\<in>set xs. subtree (entries s) desc (path_comps p))"
    unfolding setxs by (subst sum.reindex [OF inj]) (simp add: pc)
  also have "\<dots> = (\<Sum>p\<leftarrow>xs. subtree (entries s) desc (path_comps p))"
    using xs(2) by (rule sum_list_distinct_conv_sum_set [symmetric])
  finally show thesis using that xs(1) good by blast
qed

fun gor_ok :: "'s \<Rightarrow> goroutine \<Rightarrow> bool" where
  "gor_ok s (Entering p) = (\<exists>cs. p = abs_path cs \<and> ok cs \<and> dir_at s cs)"
| "gor_ok s (Looping ps) = (\<forall>p \<in> set ps. good_path s p)"
| "gor_ok s (Statting p) = good_path s p"
| "gor_ok s (Calling p i) = (good_path s p \<and> Stat D s p = Inr i)"
| "gor_ok s _ = True"

lemma stat_good:
  assumes "inv s" "good_path s p"
  obtains i where "Stat D s p = Inr i" "fi_path i = p" "fi_isdir i \<longleftrightarrow> dir_at s (path_comps p)"
    "abs_path (path_comps p) = p" "ok (path_comps p)"
proof -
  obtain cs where cs: "p = abs_path cs" "ok cs" "entries s cs" using assms(2) by (auto simp: good_path_def)
  consider b where "file_at s cs = Some b" | "dir_at s cs" using cs(3) by (auto simp: entry_at_def)
  then show thesis
  proof cases
    case 1
    then show ?thesis
      using stat_file [OF assms(1) cs(2)] file_not_dir [OF assms(1), of cs] that cs(1,2) ok_abs(1) by fastforce
  next
    case 2
    then show ?thesis using stat_dir [OF assms(1) cs(2)] that cs(1,2) ok_abs(1) by fastforce
  qed
qed

lemma gor_ok_update:
  "\<forall>g \<in> set gs. gor_ok s g \<Longrightarrow> gor_ok s y \<Longrightarrow> \<forall>g \<in> set (gs[i := y]). gor_ok s g"
  "\<forall>g \<in> set gs. gor_ok s g \<Longrightarrow> \<forall>g \<in> set (remove_nth i gs). gor_ok s g"
  using set_update_subset_insert [of gs i y]
  by (auto simp: remove_nth_def dest: in_set_takeD in_set_dropD)

text \<open>A step keeps every goroutine at entries of the tree and does what is left of the work.\<close>

lemma goroutine_step:
  assumes inv: "inv s" and st: "fst (ws_st w) = s" and gs: "\<forall>g \<in> set (ws_gs w). gor_ok s g"
    and ro: "read_only f s"
    and step: "walk_step D f m (Goroutine i) w = Some w'"
  shows "fst (ws_st w') = s" "\<forall>g \<in> set (ws_gs w'). gor_ok s g"
    "walk_weight (entries s) w' < walk_weight (entries s) w"
proof -
  have i: "i < length (ws_gs w)" using step by (auto simp: walk_step_def split: if_splits)
  then have gi: "gor_ok s (ws_gs w ! i)" using gs by simp
  have ro': "fst (fst (f info (ws_st w))) = s" for info using ro st unfolding read_only_def by (metis prod.collapse)
  note up = sum_list_update_at [OF i, where h = "weight (entries s)"]
    and rm = sum_list_remove_nth [OF i, where h = "weight (entries s)"]
  note defs = walk_step_defs walk_weight_def
  have "fst (ws_st w') = s \<and> (\<forall>g \<in> set (ws_gs w'). gor_ok s g) \<and>
      walk_weight (entries s) w' < walk_weight (entries s) w"
  proof (cases "ws_gs w ! i")
    case (Entering p)
    then obtain cs where cs: "p = abs_path cs" "ok cs" "dir_at s cs" using gi by auto
    obtain xs where xs: "ListDir D s p = Inr xs" "\<forall>p \<in> set xs. good_path s p"
      "mset_set (visited (entries s) (\<lambda>_. True) cs) = (\<Sum>p\<leftarrow>xs. subtree (entries s) (\<lambda>_. True) (path_comps p))"
      using list_visited [OF inv cs(2,3)] cs(1) by metis
    have eq: "size (todo (entries s) (\<lambda>_. True) (Looping xs)) = size (todo (entries s) (\<lambda>_. True) (Entering p))"
      using xs(3) ok_abs(1) [OF cs(2)] cs(1) by simp
    show ?thesis
    proof (cases "ws_quit w")
      case True
      then have "w' = w\<lparr>ws_gs := remove_nth i (ws_gs w)\<rparr>"
        using step Entering i by (simp add: defs)
      then show ?thesis using rm Entering st gor_ok_update(2) [OF gs] by (simp add: walk_weight_def)
    next
      case False
      then have "w' = w\<lparr>ws_gs := (ws_gs w)[i := Looping xs]\<rparr>"
        using step Entering i xs(1) st by (simp add: defs)
      moreover have "weight (entries s) (Looping xs) < weight (entries s) (Entering p)"
        using eq by (simp del: todo.simps)
      ultimately show ?thesis
        using up [of "Looping xs"] Entering st xs(2) gor_ok_update(1) [OF gs, of "Looping xs" i]
        by (simp add: walk_weight_def del: weight.simps)
    qed
  next
    case (Looping ps)
    show ?thesis
    proof (cases ps)
      case Nil
      then have "w' = w\<lparr>ws_gs := remove_nth i (ws_gs w)\<rparr>" using step Looping i by (simp add: defs)
      then show ?thesis using rm Looping st gor_ok_update(2) [OF gs] by (simp add: walk_weight_def)
    next
      case (Cons c ps')
      then have w': "w' = w\<lparr>ws_sem := Suc (ws_sem w), ws_gs := (ws_gs w)[i := Looping ps'] @ [Statting c]\<rparr>"
        using step Looping i by (auto simp: defs split: if_splits)
      have "weight (entries s) (Looping ps') + weight (entries s) (Statting c) < weight (entries s) (Looping ps)"
        using Cons by (simp add: size_subtree)
      then show ?thesis
        using w' up [of "Looping ps'"] Looping Cons gi st gor_ok_update(1) [OF gs, of "Looping ps'" i]
        by (auto simp: walk_weight_def simp del: weight.simps)
    qed
  next
    case (Failing e)
    then have "w' = receive_error e (w\<lparr>ws_gs := remove_nth i (ws_gs w)\<rparr>)" "\<not> ws_busy w"
      using step i by (auto simp: defs split: if_splits)
    then show ?thesis
      using rm Failing st gor_ok_update(2) [OF gs] by (simp add: walk_weight_def receive_error_def)
  next
    case (Statting c)
    then obtain info where info: "Stat D s c = Inr info" using stat_good [OF inv] gi by (metis gor_ok.simps(3))
    then have "w' = w\<lparr>ws_gs := (ws_gs w)[i := Calling c info]\<rparr>" using step Statting i st by (simp add: defs)
    then show ?thesis
      using up [of "Calling c info"] Statting gi info st gor_ok_update(1) [OF gs, of "Calling c info" i]
      by (simp add: walk_weight_def size_subtree)
  next
    case (Calling c info)
    note gc = gor_ok_update(1) [OF gs]
    obtain st' r where fr: "f info (ws_st w) = (st', r)" by fastforce
    have s': "fst st' = s" using ro' [of info] fr by simp
    consider "r = None" "fi_isdir info"
        "w' = w\<lparr>ws_st := st', ws_sem := ws_sem w - 1, ws_gs := (ws_gs w)[i := Entering c]\<rparr>"
      | y where "y = Releasing \<or> (\<exists>e. y = Sending e)" "w' = w\<lparr>ws_st := st', ws_gs := (ws_gs w)[i := y]\<rparr>"
      using step Calling i fr by (auto simp: defs split: option.splits if_splits)
    then show ?thesis
    proof cases
      case 1
      obtain info' where "Stat D s c = Inr info'" "fi_isdir info' \<longleftrightarrow> dir_at s (path_comps c)"
        "abs_path (path_comps c) = c" "ok (path_comps c)"
        using stat_good [OF inv] gi Calling by (metis gor_ok.simps(4))
      then have "gor_ok s (Entering c)" using gi Calling 1(2) by (auto intro: exI [of _ "path_comps c"])
      then show ?thesis
        using 1(3) up [of "Entering c"] Calling s' gc [of "Entering c" i]
        by (simp add: walk_weight_def size_subtree)
    next
      case 2
      then have "weight (entries s) y \<le> 3" "gor_ok s y" by auto
      then show ?thesis
        using 2(2) up [of y] Calling s' gc [of y i] by (simp add: walk_weight_def size_subtree)
    qed
  next
    case (Sending e)
    then have "w' = receive_error e (w\<lparr>ws_gs := (ws_gs w)[i := Releasing]\<rparr>)" "\<not> ws_busy w"
      using step i by (auto simp: defs split: if_splits)
    then show ?thesis
      using up [of Releasing] Sending st gor_ok_update(1) [OF gs, of Releasing i]
      by (simp add: walk_weight_def receive_error_def)
  next
    case Releasing
    then have "w' = w\<lparr>ws_sem := ws_sem w - 1, ws_gs := remove_nth i (ws_gs w)\<rparr>"
      using step i by (simp add: defs)
    then show ?thesis using rm Releasing st gor_ok_update(2) [OF gs] by (simp add: walk_weight_def)
  qed
  then show "fst (ws_st w') = s" "\<forall>g \<in> set (ws_gs w'). gor_ok s g"
    "walk_weight (entries s) w' < walk_weight (entries s) w" by simp_all
qed

definition walk_ok :: "'s \<Rightarrow> ('s, 'u) walk_state \<Rightarrow> bool" where
  "walk_ok s w \<longleftrightarrow> fst (ws_st w) = s \<and> (\<forall>g \<in> set (ws_gs w). gor_ok s g) \<and>
     (ws_quit w \<or> ws_busy w \<longrightarrow> ws_errs w \<noteq> [])"

lemma walk_ok_start: "ok cs \<Longrightarrow> dir_at s cs \<Longrightarrow> walk_ok s (walk_start (abs_path cs) (s, u))"
  by (auto simp: walk_ok_def walk_start_def)

lemma errs_step:
  assumes "walk_step D f m mv w = Some w'" "ws_quit w \<or> ws_busy w \<longrightarrow> ws_errs w \<noteq> []"
  shows "ws_quit w' \<or> ws_busy w' \<longrightarrow> ws_errs w' \<noteq> []" "ws_errs w \<noteq> [] \<Longrightarrow> ws_errs w' \<noteq> []"
proof -
  have "(ws_quit w' \<or> ws_busy w' \<longrightarrow> ws_errs w' \<noteq> []) \<and> (ws_errs w \<noteq> [] \<longrightarrow> ws_errs w' \<noteq> [])"
  proof (cases mv)
    case Collector
    then show ?thesis using assms by (auto simp: walk_step_defs split: if_splits)
  next
    case (Goroutine i)
    then show ?thesis
      using assms by (cases "ws_gs w ! i") (auto simp: walk_step_defs split: if_splits sum.splits list.splits
          driver_error.splits prod.splits option.splits)
  qed
  then show "ws_quit w' \<or> ws_busy w' \<longrightarrow> ws_errs w' \<noteq> []" "ws_errs w \<noteq> [] \<Longrightarrow> ws_errs w' \<noteq> []"
    by simp_all
qed

lemma walk_step_ok:
  assumes inv: "inv s" and w: "walk_ok s w" and ro: "read_only f s"
    and step: "walk_step D f m mv w = Some w'"
  shows "walk_ok s w'" "walk_weight (entries s) w' < walk_weight (entries s) w"
proof -
  have e: "ws_quit w' \<or> ws_busy w' \<longrightarrow> ws_errs w' \<noteq> []" using errs_step(1) [OF step] w by (simp add: walk_ok_def)
  have "walk_ok s w' \<and> walk_weight (entries s) w' < walk_weight (entries s) w"
  proof (cases mv)
    case Collector
    then have "ws_busy w" "w' = w\<lparr>ws_busy := False, ws_quit := True\<rparr>"
      using step by (auto simp: walk_step_defs split: if_splits)
    then show ?thesis using w e by (simp add: walk_ok_def walk_weight_def)
  next
    case (Goroutine i)
    have h: "fst (ws_st w) = s" "\<forall>g \<in> set (ws_gs w). gor_ok s g" using w by (simp_all add: walk_ok_def)
    show ?thesis
      using goroutine_step [OF inv h ro step [unfolded Goroutine]] e unfolding walk_ok_def by (intro conjI)
  qed
  then show "walk_ok s w'" "walk_weight (entries s) w' < walk_weight (entries s) w" by simp_all
qed

text \<open>Every run is finite: its length is bounded by the number of entries below the start.\<close>

lemma walk_run_bound:
  assumes "inv s" "read_only f s"
    and "walk_ok s w" "walk_run D f m mvs w = Some w'"
  shows "length mvs + walk_weight (entries s) w' \<le> walk_weight (entries s) w"
  using assms(3,4)
proof (induction mvs arbitrary: w)
  case (Cons mv mvs)
  then obtain w1 where w1: "walk_step D f m mv w = Some w1" "walk_run D f m mvs w1 = Some w'"
    by (auto split: option.splits)
  from walk_step_ok [OF assms(1) Cons.prems(1) assms(2) w1(1)] Cons.IH [OF _ w1(2)] show ?case by simp
qed simp

lemma walk_run_ok:
  assumes "inv s" "read_only f s"
  shows "walk_ok s w \<Longrightarrow> walk_run D f m mvs w = Some w' \<Longrightarrow> walk_ok s w'"
proof (induction mvs arbitrary: w)
  case (Cons mv mvs)
  then obtain w1 where w1: "walk_step D f m mv w = Some w1" "walk_run D f m mvs w1 = Some w'"
    by (auto split: option.splits)
  from Cons.IH [OF walk_step_ok(1) [OF assms(1) Cons.prems(1) assms(2) w1(1)] w1(2)] show ?case .
qed simp

lemma walk_weight_start:
  "ok cs \<Longrightarrow> walk_weight (entries s) (walk_start (abs_path cs) st) = 8 * card (visited (entries s) (\<lambda>_. True) cs) + 3"
  by (simp add: walk_weight_def walk_start_def ok_abs(1))

text \<open>A run that has not reached the end can be continued to the end.\<close>

lemma walk_completes:
  assumes "inv s" "read_only f s" "0 < m"
    and "walk_ok s w" "walk_inv m w"
  shows "\<exists>mvs w'. walk_run D f m mvs w = Some w' \<and> walk_over w'"
  using assms(4,5)
proof (induction "walk_weight (entries s) w" arbitrary: w rule: less_induct)
  case less
  show ?case
  proof (cases "walk_over w")
    case True
    then show ?thesis by (intro exI [of _ "[]"]) simp
  next
    case False
    then obtain mv w1 where w1: "walk_step D f m mv w = Some w1"
      using walk_progress [OF less.prems(2) assms(3)] by blast
    obtain mvs w' where "walk_run D f m mvs w1 = Some w'" "walk_over w'"
      using less.hyps [OF walk_step_ok(2,1) [OF assms(1) less.prems(1) assms(2) w1] walk_step_inv [OF w1 less.prems(2)]]
      by blast
    with w1 show ?thesis by (intro exI [of _ "mv # mvs"] exI [of _ w']) simp
  qed
qed

text \<open>
  With a walk function whose answer depends on the entry only, what has been called and what is left
  to do are always the entries the walk has to come to, as long as nothing has been cut short.
\<close>

lemma goroutine_todo:
  assumes inv: "inv s" and w: "walk_ok s w" and nq: "\<not> ws_quit w"
    and ro: "read_only f s" and de: "decides f s decide"
    and step: "walk_step D f m mv w = Some w'"
  shows "mset (map (path_comps \<circ> fi_path) (called mv w)) + (\<Sum>g\<leftarrow>ws_gs w'. todo (entries s) (enters D decide s) g)
    = (\<Sum>g\<leftarrow>ws_gs w. todo (entries s) (enters D decide s) g)"
proof (cases mv)
  case Collector
  then show ?thesis using step by (auto simp: walk_step_defs called_def split: if_splits)
next
  case (Goroutine i)
  then have i: "i < length (ws_gs w)" using step by (auto simp: walk_step_def split: if_splits)
  then have gi: "gor_ok s (ws_gs w ! i)" using w by (simp add: walk_ok_def)
  have st: "fst (ws_st w) = s" using w by (simp add: walk_ok_def)
  let ?t = "todo (entries s) (enters D decide s)"
  note up = sum_list_update_at [OF i, where h = ?t] and rm = sum_list_remove_nth [OF i, where h = ?t]
  have canc: "a + b = c" if "b + x = y" "x = a + z" "y = c + z" for a b c x y z :: "string list multiset"
    using that by (simp add: ac_simps)
  show ?thesis
  proof (cases "ws_gs w ! i")
    case (Entering p)
    then obtain cs where cs: "p = abs_path cs" "ok cs" "dir_at s cs" using gi by auto
    obtain xs where xs: "ListDir D s p = Inr xs"
      "mset_set (visited (entries s) (enters D decide s) cs) = (\<Sum>p\<leftarrow>xs. subtree (entries s) (enters D decide s) (path_comps p))"
      using list_visited [OF inv cs(2,3)] cs(1) by metis
    have "ws_gs w' = (ws_gs w)[i := Looping xs]"
      using step Goroutine Entering i xs(1) st nq by (auto simp: walk_step_defs)
    then show ?thesis
      using up [of "Looping xs"] xs(2) ok_abs(1) [OF cs(2)] Goroutine Entering cs(1) by (simp add: called_def)
  next
    case (Looping ps)
    show ?thesis
    proof (cases ps)
      case Nil
      then have "ws_gs w' = remove_nth i (ws_gs w)" using step Goroutine Looping i by (auto simp: walk_step_defs)
      then show ?thesis using rm Goroutine Looping Nil by (simp add: called_def)
    next
      case (Cons c ps')
      then have "ws_gs w' = (ws_gs w)[i := Looping ps'] @ [Statting c]"
        using step Goroutine Looping i by (auto simp: walk_step_defs split: if_splits)
      then show ?thesis using up [of "Looping ps'"] Goroutine Looping Cons by (simp add: called_def ac_simps)
    qed
  next
    case (Failing e)
    then have "ws_gs w' = remove_nth i (ws_gs w)" using step Goroutine i by (auto simp: walk_step_defs split: if_splits)
    then show ?thesis using rm Goroutine Failing by (simp add: called_def)
  next
    case (Statting c)
    then obtain info where "Stat D s c = Inr info" using stat_good [OF inv] gi by (metis gor_ok.simps(3))
    then have "ws_gs w' = (ws_gs w)[i := Calling c info]" using step Goroutine Statting i st by (auto simp: walk_step_defs)
    then show ?thesis using up [of "Calling c info"] Goroutine Statting by (simp add: called_def)
  next
    case (Calling c info)
    obtain info' where c: "Stat D s c = Inr info'" "fi_path info' = c" "fi_isdir info' \<longleftrightarrow> dir_at s (path_comps c)"
      "abs_path (path_comps c) = c"
      using stat_good [OF inv] gi Calling by (metis gor_ok.simps(4))
    have info: "info' = info" using gi c(1) Calling by simp
    have en: "enters D decide s (path_comps c) \<longleftrightarrow> fi_isdir info \<and> decide info = None"
      using c info by (simp add: enters_def)
    obtain st' where fr: "f info (ws_st w) = (st', decide info)"
      using de st unfolding decides_def by (metis prod.collapse)
    define y where "y = (if fi_isdir info \<and> decide info = None then Entering c
        else case decide info of None \<Rightarrow> Releasing
          | Some e \<Rightarrow> if e = ErrSkipDir \<and> fi_isdir info then Releasing else Sending e)"
    have "ws_gs w' = (ws_gs w)[i := y]"
      using step Goroutine Calling i fr by (auto simp: walk_step_defs y_def split: option.splits if_splits)
    moreover have "?t (Calling c info) = {#path_comps c#} + ?t y"
      using en by (auto simp: y_def subtree_def split: option.split)
    ultimately show ?thesis
      using up [of y] Goroutine Calling c(2) info i by (simp add: called_def del: todo.simps)
  next
    case (Sending e)
    then have "ws_gs w' = (ws_gs w)[i := Releasing]" using step Goroutine i by (auto simp: walk_step_defs split: if_splits)
    then show ?thesis using up [of Releasing] Goroutine Sending by (simp add: called_def)
  next
    case Releasing
    then have "ws_gs w' = remove_nth i (ws_gs w)" using step Goroutine i by (auto simp: walk_step_defs)
    then show ?thesis using rm Goroutine Releasing by (simp add: called_def)
  qed
qed

lemma walk_run_todo:
  assumes inv: "inv s" and ro: "read_only f s" and de: "decides f s decide"
  shows "walk_ok s w \<Longrightarrow> walk_run D f m mvs w = Some w' \<Longrightarrow> ws_errs w' = [] \<Longrightarrow>
    ws_errs w = [] \<and> walk_ok s w' \<and>
    mset (map (path_comps \<circ> fi_path) (walk_calls D f m mvs w)) + (\<Sum>g\<leftarrow>ws_gs w'. todo (entries s) (enters D decide s) g)
      = (\<Sum>g\<leftarrow>ws_gs w. todo (entries s) (enters D decide s) g)"
proof (induction mvs arbitrary: w)
  case (Cons mv mvs)
  then obtain w1 where w1: "walk_step D f m mv w = Some w1" "walk_run D f m mvs w1 = Some w'"
    by (auto split: option.splits)
  have ok1: "walk_ok s w1" by (rule walk_step_ok(1) [OF inv Cons.prems(1) ro w1(1)])
  note IH = Cons.IH [OF ok1 w1(2) Cons.prems(3)]
  have q: "ws_quit w \<or> ws_busy w \<longrightarrow> ws_errs w \<noteq> []" using Cons.prems(1) unfolding walk_ok_def by (elim conjE)
  have e: "ws_errs w = []" using errs_step(2) [OF w1(1) q] IH [THEN conjunct1] by blast
  then have nq: "\<not> ws_quit w" using q by simp
  let ?h = "path_comps \<circ> fi_path" and ?T = "\<lambda>w. \<Sum>g\<leftarrow>ws_gs w. todo (entries s) (enters D decide s) g"
  have "mset (map ?h (walk_calls D f m (mv # mvs) w)) + ?T w'
      = mset (map ?h (called mv w)) + (mset (map ?h (walk_calls D f m mvs w1)) + ?T w')"
    by (simp add: w1(1) add.assoc)
  also have "mset (map ?h (walk_calls D f m mvs w1)) + ?T w' = ?T w1" using IH by (elim conjE)
  also have "mset (map ?h (called mv w)) + ?T w1 = ?T w"
    by (rule goroutine_todo [OF inv Cons.prems(1) nq ro de w1(1)])
  finally have "mset (map ?h (walk_calls D f m (mv # mvs) w)) + ?T w' = ?T w" .
  moreover have "walk_ok s w'" using IH by (elim conjE)
  ultimately show ?case using e by (intro conjI)
qed simp

lemma called_stat:
  assumes "inv s" "walk_ok s w" "info \<in> set (called mv w)"
  shows "\<exists>cs. fi_path info = abs_path cs \<and> ok cs \<and> entries s cs \<and> Stat D s (abs_path cs) = Inr info"
proof -
  obtain i c where i: "i < length (ws_gs w)" and c: "ws_gs w ! i = Calling c info"
    using assms(3) by (rule in_calledE)
  then have g: "gor_ok s (Calling c info)" using assms(2) i c unfolding walk_ok_def by (metis nth_mem)
  obtain info' where "Stat D s c = Inr info'" "fi_path info' = c"
    using stat_good [OF assms(1), of c] g by (metis gor_ok.simps(4))
  then show ?thesis using g by (auto simp: good_path_def)
qed

lemma walk_calls_stat:
  assumes inv: "inv s" and ro: "read_only f s"
  shows "walk_ok s w \<Longrightarrow> info \<in> set (walk_calls D f m mvs w) \<Longrightarrow>
    \<exists>cs. fi_path info = abs_path cs \<and> ok cs \<and> entries s cs \<and> Stat D s (abs_path cs) = Inr info"
proof (induction mvs arbitrary: w)
  case (Cons mv mvs)
  then consider "info \<in> set (called mv w)"
    | w1 where "walk_step D f m mv w = Some w1" "info \<in> set (walk_calls D f m mvs w1)"
    by (cases "walk_step D f m mv w") auto
  then show ?case
  proof cases
    case 1
    then show ?thesis by (rule called_stat [OF inv Cons.prems(1)])
  next
    case 2
    then show ?thesis using Cons.IH walk_step_ok(1) [OF inv Cons.prems(1) ro 2(1)] by blast
  qed
qed simp

lemma parallel_walk:
  assumes inv: "inv s" and cs: "ok cs" "dir_at s cs" and ro: "read_only f s" and de: "decides f s decide"
    and run: "WalkFallbackParallel sched D m (abs_path cs) f (s, u) = Some (st', [])"
  obtains infos where "distinct (map fi_path infos)"
    "set (map fi_path infos) = abs_path ` visited (entries s) (enters D decide s) cs"
    "\<forall>info \<in> set infos. \<exists>ds. fi_path info = abs_path ds \<and> ok ds \<and> entries s ds \<and> Stat D s (abs_path ds) = Inr info"
    "st' = fold (\<lambda>info st. fst (f info st)) infos (s, u)"
    "\<forall>info \<in> set infos. \<not> failed decide info"
proof -
  obtain w where w: "walk_run D f m sched (walk_start (abs_path cs) (s, u)) = Some w" "walk_over w"
    "st' = ws_st w" "ws_errs w = []"
    using run by (auto simp: WalkFallbackParallel_def split: option.splits if_splits)
  note ok0 = walk_ok_start [OF cs, of u]
  let ?V = "visited (entries s) (enters D decide s) cs"
  define infos where "infos = walk_calls D f m sched (walk_start (abs_path cs) (s, u))"
  have "mset (map (path_comps \<circ> fi_path) infos) = mset_set ?V"
    using walk_run_todo [OF inv ro de ok0 w(1,4)] w(2) ok_abs(1) [OF cs(1)]
    by (simp add: walk_over_def walk_start_def infos_def)
  note m = mset_eq_mset_set [OF this finite_visited [OF inv]]
  have st: "\<exists>ds. fi_path info = abs_path ds \<and> ok ds \<and> entries s ds \<and> Stat D s (abs_path ds) = Inr info"
    if "info \<in> set infos" for info
    using walk_calls_stat [OF inv ro ok0] that by (simp add: infos_def)
  then have bk: "abs_path (path_comps (fi_path info)) = fi_path info" if "info \<in> set infos" for info
    using that ok_abs(1) by fastforce
  have "distinct (map path_comps (map fi_path infos))" using m(1) by simp
  then have "distinct (map fi_path infos)" by (rule distinct_map [THEN iffD1, THEN conjunct1])
  moreover have "set (map fi_path infos) = abs_path ` ?V"
  proof -
    have "abs_path ` ?V = (\<lambda>info. abs_path (path_comps (fi_path info))) ` set infos"
      using m(2) by (metis (no_types, lifting) comp_apply image_cong image_image list.set_map)
    also have "\<dots> = fi_path ` set infos" using bk by (rule image_cong [OF refl])
    finally show ?thesis by simp
  qed
  moreover have "st' = fold (\<lambda>info st. fst (f info st)) infos (s, u)"
    using walk_run_effect [OF w(1)] w(3) by (simp add: walk_start_def infos_def)
  moreover have "\<forall>info \<in> set infos. \<not> failed decide info"
    using walk_calls_fine [OF w(1) ro de] w(2,4) by (simp add: walk_over_def walk_start_def infos_def)
  ultimately show thesis using that st by blast
qed

text \<open>A walk whose function fails at no entry reports no error.\<close>

lemma walk_step_quiet:
  assumes inv: "inv s" and w: "walk_ok s w" and ro: "read_only f s" and de: "decides f s decide"
    and fine: "\<And>info. info \<in> set (called mv w) \<Longrightarrow> \<not> failed decide info"
    and step: "walk_step D f m mv w = Some w'" and p: "pending w = 0"
  shows "pending w' = 0"
proof (cases mv)
  case Collector
  then show ?thesis using step p by (auto simp: walk_step_defs pending_def split: if_splits)
next
  case (Goroutine i)
  then have i: "i < length (ws_gs w)" using step by (auto simp: walk_step_def split: if_splits)
  then have gi: "gor_ok s (ws_gs w ! i)" and st: "fst (ws_st w) = s" using w by (simp_all add: walk_ok_def)
  have nr: "\<not> reports (ws_gs w ! i)" and e0: "ws_errs w = []"
    using p i by (auto simp: pending_def filter_empty_conv)
  note rm = remove_nth_split [OF i, of reports] and up = update_filter [OF i, of reports]
  show ?thesis
  proof (cases "ws_gs w ! i")
    case (Entering q)
    then obtain cs where cs: "q = abs_path cs" "ok cs" "dir_at s cs" using gi by auto
    then obtain xs where "ListDir D s q = Inr xs" using list_dir [OF inv cs(2,3)] by blast
    then show ?thesis
      using step p st i Goroutine Entering rm up [of "Looping xs"] by (auto simp: walk_step_defs pending_def split: if_splits)
  next
    case (Looping ps)
    then show ?thesis
      using step p i Goroutine rm up [of "Looping (tl ps)"] by (auto simp: walk_step_defs pending_def split: if_splits list.splits)
  next
    case (Statting c)
    then obtain info where "Stat D s c = Inr info" using stat_good [OF inv] gi by (metis gor_ok.simps(3))
    then show ?thesis
      using step p st i Goroutine Statting up [of "Calling c info"] by (auto simp: walk_step_defs pending_def)
  next
    case (Calling c info)
    then have nf: "\<not> failed decide info" using fine i Goroutine by (simp add: called_def)
    obtain st' where "f info (ws_st w) = (st', decide info)"
      using de st unfolding decides_def by (metis prod.collapse)
    then show ?thesis
      using step p i Goroutine Calling nf up [of "Entering c"] up [of Releasing]
      by (auto simp: walk_step_defs pending_def failed_def split: option.splits if_splits)
  next
    case Releasing
    then show ?thesis using step p i Goroutine rm by (auto simp: walk_step_defs pending_def)
  qed (use nr in simp_all)
qed

lemma walk_quiet:
  assumes inv: "inv s" and cs: "ok cs" "dir_at s cs" and ro: "read_only f s" and de: "decides f s decide"
    and fine: "\<And>ds info. ds \<in> visited (entries s) (enters D decide s) cs \<Longrightarrow> fi_path info = abs_path ds \<Longrightarrow>
      Stat D s (abs_path ds) = Inr info \<Longrightarrow> \<not> failed decide info"
    and run: "WalkFallbackParallel sched D m (abs_path cs) f (s, u) = Some (st', errs)"
  shows "errs = []"
proof -
  let ?w0 = "walk_start (abs_path cs) (s, u)"
  note ok0 = walk_ok_start [OF cs, of u]
  have "pending w = 0" if "walk_run D f m mvs ?w0 = Some w" for mvs w
    using that
  proof (induction mvs arbitrary: w rule: rev_induct)
    case (snoc mv mvs)
    then obtain w1 where w1: "walk_run D f m mvs ?w0 = Some w1" "walk_step D f m mv w1 = Some w"
      by (auto simp: walk_run_append split: option.splits)
    from w1(1) have p: "pending w1 = 0" by (rule snoc.IH)
    then have e: "ws_errs w1 = []" by (simp add: pending_def)
    note t = walk_run_todo [OF inv ro de ok0 w1(1) e]
    have ok1: "walk_ok s w1" using t by blast
    have "\<not> failed decide info" if c: "info \<in> set (called mv w1)" for info
    proof -
      obtain i c' where i: "i < length (ws_gs w1)" "ws_gs w1 ! i = Calling c' info" by (rule in_calledE [OF c])
      then have g: "gor_ok s (Calling c' info)" using ok1 unfolding walk_ok_def by (metis nth_mem)
      obtain ds where ds: "fi_path info = abs_path ds" "ok ds" "Stat D s (abs_path ds) = Inr info" "c' = abs_path ds"
        using called_stat [OF inv ok1 c] g stat_good [OF inv, of c'] by (metis gor_ok.simps(4) sum.inject(2))
      have "path_comps c' \<in># todo (entries s) (enters D decide s) (ws_gs w1 ! i)"
        using i(2) by (simp add: subtree_def)
      then have "path_comps c' \<in># (\<Sum>g\<leftarrow>ws_gs w1. todo (entries s) (enters D decide s) g)"
        using sum_list_remove_nth [OF i(1), of "todo (entries s) (enters D decide s)"] by (metis union_iff)
      moreover have "mset (map (path_comps \<circ> fi_path) (walk_calls D f m mvs ?w0)) +
          (\<Sum>g\<leftarrow>ws_gs w1. todo (entries s) (enters D decide s) g) = mset_set (visited (entries s) (enters D decide s) cs)"
        using t ok_abs(1) [OF cs(1)] by (simp add: walk_start_def)
      ultimately have "path_comps c' \<in># mset_set (visited (entries s) (enters D decide s) cs)"
        by (metis union_iff)
      then show ?thesis
        using fine [of ds info] ds ok_abs(1) [OF ds(2)] finite_visited [OF inv] by simp
    qed
    then show ?case by (rule walk_step_quiet [OF inv ok1 ro de _ w1(2) p])
  qed (simp add: walk_start_def pending_def)
  then show ?thesis
    using run by (auto simp: WalkFallbackParallel_def pending_def split: option.splits if_splits)
qed

end

section \<open>Properties\<close>

text \<open>
  C4. In every state of every run of the parallel walk the semaphore counts the goroutines that hold a
  slot, and there are never more of them than the walk's limit.
\<close>

theorem walk_respects_limit:
  assumes "walk_run D f maxConcurrency mvs (walk_start from st) = Some w"
  shows "ws_sem w = length (filter holds_slot (ws_gs w)) \<and> ws_sem w \<le> maxConcurrency"
  using walk_run_inv [OF assms walk_inv_start] by (simp add: walk_inv_def)

definition visit_log :: "(mem, string list) walk_fn" where
  "visit_log info st = ((fst st, fi_path info # snd st), None)"

definition walk_mem :: mem where
  "walk_mem = mem_with [([''a'', ''b''], ''x'')]"

lemma walk_mem_facts:
  "mem_inv walk_mem" "mem_ok [''a'']" "mem_dir_at walk_mem [''a'']" "read_only visit_log walk_mem"
  "decides visit_log walk_mem (\<lambda>_. None)" "abs_path [''a''] = ''/a''"
proof -
  have ok: "list_all mem_ok (map fst [([''a'', ''b''], ''x'')])" "prefix_free (map fst [([''a'', ''b''], ''x'')])"
    by code_simp+
  note m = mem_with_spec [OF ok, folded walk_mem_def]
  show "mem_inv walk_mem" using m by simp
  show "mem_dir_at walk_mem [''a'']" using m by (auto intro!: exI [of _ 1])
  show "mem_ok [''a'']" by code_simp
  show "read_only visit_log walk_mem" "decides visit_log walk_mem (\<lambda>_. None)" "abs_path [''a''] = ''/a''"
    by (simp_all add: read_only_def decides_def visit_log_def abs_path_def)
qed

definition sample_sched :: "mover list" where
  "sample_sched = [Goroutine 0, Goroutine 0, Goroutine 1, Goroutine 0, Goroutine 0, Goroutine 0]"

theorem walk_respects_limit_witness:
  "\<exists>w. walk_run mem_driver visit_log 25 (take 3 sample_sched) (walk_start ''/a'' (walk_mem, [])) = Some w \<and>
     ws_sem w = length (filter holds_slot (ws_gs w)) \<and> ws_sem w \<le> 25"
proof -
  have "walk_run mem_driver visit_log 25 (take 3 sample_sched) (walk_start ''/a'' (walk_mem, [])) \<noteq> None"
    by code_simp
  then obtain w where w: "walk_run mem_driver visit_log 25 (take 3 sample_sched) (walk_start ''/a'' (walk_mem, [])) = Some w"
    by blast
  with walk_respects_limit [OF w] show ?thesis by blast
qed

text \<open>
  C3. The parallel walk terminates on the in-memory driver: on a store with consistent paths, from a
  directory other than the root with a usable path, and with a function that leaves the storage alone,
  a run has at most eight steps for each entry below the start, and three more, whatever the interleaving.
\<close>

theorem parallel_walk_terminates:
  assumes "mem_inv s" and "mem_ok cs" and "mem_dir_at s cs" and "read_only f s"
    and "walk_run mem_driver f maxWalkConcurrency mvs (walk_start (abs_path cs) (s, u)) = Some w"
  shows "length mvs \<le> 8 * card (visited (mem_entry_at s) (\<lambda>_. True) cs) + 3"
  using raw_mem.walk_run_bound [OF assms(1,4) raw_mem.walk_ok_start [OF assms(2,3)] assms(5)]
    raw_mem.walk_weight_start [OF assms(2), of s "(s, u)"] by simp

theorem parallel_walk_terminates_witness:
  "length sample_sched \<le> 8 * card (visited (mem_entry_at walk_mem) (\<lambda>_. True) [''a'']) + 3"
proof -
  have "walk_run mem_driver visit_log maxWalkConcurrency sample_sched (walk_start ''/a'' (walk_mem, [])) \<noteq> None"
    by code_simp
  then show ?thesis
    using parallel_walk_terminates [OF walk_mem_facts(1-4), of sample_sched "[]"] walk_mem_facts(6) by auto
qed

text \<open>
  C2. The parallel walk cannot get stuck on the in-memory driver: on a store with consistent paths, from a
  directory other than the root with a usable path, and with a function that leaves the storage alone,
  every run, wherever the interleaving has brought it, can be continued until all goroutines are done and
  the result is returned.
\<close>

theorem parallel_walk_completes:
  assumes "mem_inv s" and "mem_ok cs" and "mem_dir_at s cs" and "read_only f s"
    and "walk_run mem_driver f maxWalkConcurrency mvs (walk_start (abs_path cs) (s, u)) = Some w"
  shows "\<exists>mvs'. mem_WalkParallel (mvs @ mvs') (abs_path cs) f (s, u) \<noteq> None"
proof -
  have ok: "raw_mem.walk_ok s w"
    using raw_mem.walk_run_ok [OF assms(1,4) raw_mem.walk_ok_start [OF assms(2,3)] assms(5)] .
  obtain mvs' w' where "walk_run mem_driver f maxWalkConcurrency mvs' w = Some w'" "walk_over w'"
    using raw_mem.walk_completes [OF assms(1,4) _ ok walk_run_inv [OF assms(5) walk_inv_start]]
    by (auto simp: maxWalkConcurrency_def)
  then show ?thesis
    using assms(5) by (intro exI [of _ mvs']) (simp add: mem_WalkParallel_def WalkFallbackParallel_def walk_run_append)
qed

theorem parallel_walk_completes_witness:
  "\<exists>mvs'. mem_WalkParallel (take 3 sample_sched @ mvs') ''/a'' visit_log (walk_mem, []) \<noteq> None"
proof -
  have "walk_run mem_driver visit_log maxWalkConcurrency (take 3 sample_sched) (walk_start ''/a'' (walk_mem, [])) \<noteq> None"
    by code_simp
  then show ?thesis
    using parallel_walk_completes [OF walk_mem_facts(1-4), of "take 3 sample_sched" "[]"] walk_mem_facts(6) by auto
qed



end
