(* ===== verification/Paths.thy ===== *)
theory Paths
  imports Driver Digest_Pkg
begin

text \<open>
  The layout of the storage backend, \<open>registry/storage/paths.go\<close>: the path specifications, the path
  of each (\<open>pathFor\<close>), the breakdown of a digest into path components and the digest read back from
  a blob path. A slice expression that is out of range is the error \<open>PathPanic\<close>.

  The lemmas compute the components of the path of every well-formed specification. From them follow
  that no two specifications share a path, that the paths stay below the root of the layout, and that
  the digest of a blob path is the blob's.
\<close>

section \<open>Path specifications\<close>

definition storagePathVersion :: string where
  "storagePathVersion = ''v2''"

definition storagePathRoot :: string where
  "storagePathRoot = ''/docker/registry/''"

datatype pathSpec =
    manifestRevisionsPathSpec string
  | manifestRevisionPathSpec string digest
  | manifestRevisionLinkPathSpec string digest
  | manifestTagsPathSpec string
  | manifestTagPathSpec string string
  | manifestTagCurrentPathSpec string string
  | manifestTagIndexPathSpec string string
  | manifestTagIndexEntryPathSpec string string digest
  | manifestTagIndexEntryLinkPathSpec string string digest
  | layerLinkPathSpec string digest
  | blobsPathSpec
  | blobPathSpec digest
  | blobDataPathSpec digest
  | uploadDataPathSpec string string
  | uploadStartedAtPathSpec string string
  | uploadHashStatePathSpec string string string int bool
  | repositoriesRootPathSpec
  | repositoryRootPathSpec string

datatype path_error = PathDigest digest_error | PathPanic

definition blobAlgorithmReplacer :: "string \<Rightarrow> string" where
  "blobAlgorithmReplacer s =
     map (\<lambda>c. if c = CHR ''+'' \<or> c = CHR ''.'' \<or> c = CHR '';'' then slash else c) s"

definition digestPathComponents :: "digest_pkg \<Rightarrow> digest \<Rightarrow> bool \<Rightarrow> path_error + string list" where
  "digestPathComponents P dgst multilevel =
     (case dg_validate P dgst of
        Some e \<Rightarrow> Inl (PathDigest e)
      | None \<Rightarrow>
          let algorithm = blobAlgorithmReplacer (dg_algorithm P dgst);
              hex = dg_hex P dgst
          in if multilevel
             then if length hex < 2 then Inl PathPanic else Inr [algorithm, take 2 hex, hex]
             else Inr [algorithm, hex])"

section \<open>Paths\<close>

definition rootPrefix :: "string list" where
  "rootPrefix = [storagePathRoot, storagePathVersion]"

definition repoPrefix :: "string list" where
  "repoPrefix = rootPrefix @ [''repositories'']"

fun spec_rank :: "pathSpec \<Rightarrow> nat" where
  "spec_rank (manifestRevisionLinkPathSpec _ _) = 1"
| "spec_rank (manifestTagPathSpec _ _) = 1"
| "spec_rank (manifestTagCurrentPathSpec _ _) = 2"
| "spec_rank (manifestTagIndexPathSpec _ _) = 2"
| "spec_rank (manifestTagIndexEntryPathSpec _ _ _) = 3"
| "spec_rank (manifestTagIndexEntryLinkPathSpec _ _ _) = 4"
| "spec_rank _ = 0"

function pathFor :: "digest_pkg \<Rightarrow> pathSpec \<Rightarrow> path_error + string" where
  "pathFor P (manifestRevisionsPathSpec name) =
     Inr (path_join (repoPrefix @ [name, ''_manifests'', ''revisions'']))"
| "pathFor P (manifestRevisionPathSpec name revision) =
     (case digestPathComponents P revision False of
        Inl e \<Rightarrow> Inl e
      | Inr components \<Rightarrow>
          Inr (path_join ((repoPrefix @ [name, ''_manifests'', ''revisions'']) @ components)))"
| "pathFor P (manifestRevisionLinkPathSpec name revision) =
     (case pathFor P (manifestRevisionPathSpec name revision) of
        Inl e \<Rightarrow> Inl e
      | Inr root \<Rightarrow> Inr (path_join [root, ''link'']))"
| "pathFor P (manifestTagsPathSpec name) =
     Inr (path_join (repoPrefix @ [name, ''_manifests'', ''tags'']))"
| "pathFor P (manifestTagPathSpec name tag) =
     (case pathFor P (manifestTagsPathSpec name) of
        Inl e \<Rightarrow> Inl e
      | Inr root \<Rightarrow> Inr (path_join [root, tag]))"
| "pathFor P (manifestTagCurrentPathSpec name tag) =
     (case pathFor P (manifestTagPathSpec name tag) of
        Inl e \<Rightarrow> Inl e
      | Inr root \<Rightarrow> Inr (path_join [root, ''current'', ''link'']))"
| "pathFor P (manifestTagIndexPathSpec name tag) =
     (case pathFor P (manifestTagPathSpec name tag) of
        Inl e \<Rightarrow> Inl e
      | Inr root \<Rightarrow> Inr (path_join [root, ''index'']))"
| "pathFor P (manifestTagIndexEntryLinkPathSpec name tag revision) =
     (case pathFor P (manifestTagIndexEntryPathSpec name tag revision) of
        Inl e \<Rightarrow> Inl e
      | Inr root \<Rightarrow> Inr (path_join [root, ''link'']))"
| "pathFor P (manifestTagIndexEntryPathSpec name tag revision) =
     (case pathFor P (manifestTagIndexPathSpec name tag) of
        Inl e \<Rightarrow> Inl e
      | Inr root \<Rightarrow>
          (case digestPathComponents P revision False of
             Inl e \<Rightarrow> Inl e
           | Inr components \<Rightarrow> Inr (path_join [root, path_join components])))"
| "pathFor P (layerLinkPathSpec name dgst) =
     (case digestPathComponents P dgst False of
        Inl e \<Rightarrow> Inl e
      | Inr components \<Rightarrow>
          Inr (path_join [path_join ((repoPrefix @ [name, ''_layers'']) @ components), ''link'']))"
| "pathFor P blobsPathSpec = Inr (path_join (rootPrefix @ [''blobs'']))"
| "pathFor P (blobPathSpec dgst) =
     (case digestPathComponents P dgst True of
        Inl e \<Rightarrow> Inl e
      | Inr components \<Rightarrow> Inr (path_join ((rootPrefix @ [''blobs'']) @ components)))"
| "pathFor P (blobDataPathSpec dgst) =
     (case digestPathComponents P dgst True of
        Inl e \<Rightarrow> Inl e
      | Inr components \<Rightarrow> Inr (path_join ((rootPrefix @ [''blobs'']) @ components @ [''data''])))"
| "pathFor P (uploadDataPathSpec name uid) =
     Inr (path_join (repoPrefix @ [name, ''_uploads'', uid, ''data'']))"
| "pathFor P (uploadStartedAtPathSpec name uid) =
     Inr (path_join (repoPrefix @ [name, ''_uploads'', uid, ''startedat'']))"
| "pathFor P (uploadHashStatePathSpec name uid alg offset list) =
     Inr (path_join (repoPrefix @ [name, ''_uploads'', uid, ''hashstates'', alg,
       (if list then [] else show_int offset)]))"
| "pathFor P repositoriesRootPathSpec = Inr (path_join repoPrefix)"
| "pathFor P (repositoryRootPathSpec name) = Inr (path_join (repoPrefix @ [name]))"
  by pat_completeness auto
termination
  by (relation "measure (\<lambda>(P, spec). spec_rank spec)") auto

definition digestFromPath :: "digest_pkg \<Rightarrow> string \<Rightarrow> path_error + digest" where
  "digestFromPath P digestPath =
     (let digestPath = trim_suffix digestPath ''/data'';
          (dir, hex) = path_split digestPath;
          dir = path_dir dir;
          (dir, next) = path_split dir
      in if length hex < 2 then Inl PathPanic
         else let algo = (if next = take 2 hex then path_base dir else next);
                  dgst = dg_new_from_hex P algo hex
              in case dg_validate P dgst of Some e \<Rightarrow> Inl (PathDigest e) | None \<Rightarrow> Inr dgst)"

section \<open>The elements of a joined path\<close>

definition path_elems :: "string list \<Rightarrow> string list" where
  "path_elems es = filter (\<lambda>e. e \<noteq> []) (concat (map (split_on slash) es))"

lemma path_elems_Nil [simp]: "path_elems [] = []"
  by (simp add: path_elems_def)

lemma path_elems_append [simp]: "path_elems (es @ fs) = path_elems es @ path_elems fs"
  by (simp add: path_elems_def)

lemma path_elems_Cons: "path_elems (e # es) = path_elems [e] @ path_elems es"
  by (simp add: path_elems_def)

lemma path_elems_plain [simp]: "plain e \<Longrightarrow> path_elems (e # es) = e # path_elems es"
  by (simp add: path_elems_def plain_def)

lemma path_elems_empty [simp]: "path_elems ([] # es) = path_elems es"
  by (simp add: path_elems_def)

lemma path_elems_abs [simp]:
  assumes "list_all plain cs"
  shows "path_elems (abs_path cs # es) = cs @ path_elems es"
proof (cases "cs = []")
  case True
  then show ?thesis by (simp add: path_elems_def abs_path_def)
next
  case False
  have "split_on slash (abs_path cs) = [] # cs"
    using assms False by (simp add: abs_path_join split_join plain_def list_all_iff)
  moreover have "filter (\<lambda>e. e \<noteq> []) cs = cs"
    using assms by (simp add: list_all_iff plain_def)
  ultimately show ?thesis by (simp add: path_elems_def)
qed

lemma path_elems_nonempty: "path_elems (filter (\<lambda>e. e \<noteq> []) es) = path_elems es"
  by (induction es) (auto simp: path_elems_def)

lemma path_join_rooted:
  assumes "es = (slash # s) # rest" "list_all plain (path_elems es)"
  shows "path_join es = abs_path (path_elems es)"
proof -
  define nes where "nes = filter (\<lambda>e. e \<noteq> []) es"
  have nes: "nes \<noteq> []" "path_elems nes = path_elems es"
    unfolding nes_def path_elems_nonempty using assms(1) by simp_all
  have hd: "join_with slash nes \<noteq> []" "hd (join_with slash nes) = slash"
    unfolding nes_def using assms(1) by (cases "filter (\<lambda>e. e \<noteq> []) rest"; simp)+
  have split: "split_on slash (join_with slash nes) = concat (map (split_on slash) nes)"
    using nes(1) by (rule split_on_joined)
  have "list_all plain (path_elems nes)"
    using assms(2) nes(2) by simp
  then have "\<forall>e \<in> set (concat (map (split_on slash) nes)). e \<noteq> [] \<longrightarrow> plain e"
    by (auto simp: list_all_iff path_elems_def)
  from clean_plain_or_empty [OF this, of True "[]"]
  have "path_clean (join_with slash nes) = slash # join_with slash (path_elems nes)"
    using hd by (simp add: path_clean_def split path_elems_def)
  then show ?thesis
    using nes by (cases "path_elems es = []")
      (simp_all add: path_join_def nes_def [symmetric] abs_path_join, simp add: abs_path_def)
qed

lemma path_join_comps:
  assumes "list_all plain cs" "cs \<noteq> []" "list_all plain (path_elems es)"
  shows "path_join (abs_path cs # es) = abs_path (cs @ path_elems es)"
proof -
  have "abs_path cs = slash # tl (abs_path cs)"
    using assms(2) by (cases cs) (simp_all add: abs_path_def)
  then show ?thesis
    using assms path_join_rooted [of "abs_path cs # es" "tl (abs_path cs)" es] by simp
qed

lemma root_elems [simp]: "path_elems rootPrefix = [''docker'', ''registry'', ''v2'']"
  by (simp add: path_elems_def rootPrefix_def storagePathRoot_def storagePathVersion_def)

lemma repo_elems [simp]: "path_elems repoPrefix = [''docker'', ''registry'', ''v2'', ''repositories'']"
  by (simp add: path_elems_def repoPrefix_def rootPrefix_def storagePathRoot_def storagePathVersion_def)

lemma plain_literals [simp]:
  "plain ''docker''" "plain ''registry''" "plain ''v2''" "plain ''repositories''" "plain ''blobs''"
  "plain ''_manifests''" "plain ''revisions''" "plain ''tags''" "plain ''current''" "plain ''link''"
  "plain ''index''" "plain ''_layers''" "plain ''data''" "plain ''_uploads''" "plain ''startedat''"
  "plain ''hashstates''"
  by (simp_all add: plain_def)

lemma path_join_root:
  assumes "list_all plain (path_elems es)"
  shows "path_join (rootPrefix @ es) = abs_path ([''docker'', ''registry'', ''v2''] @ path_elems es)"
    and "path_join (repoPrefix @ es)
         = abs_path ([''docker'', ''registry'', ''v2'', ''repositories''] @ path_elems es)"
  using assms
    path_join_rooted [of "rootPrefix @ es" "''docker/registry/''" "storagePathVersion # es"]
    path_join_rooted [of "repoPrefix @ es" "''docker/registry/''"
      "storagePathVersion # ''repositories'' # es"]
  by (simp_all add: rootPrefix_def [symmetric] repoPrefix_def [symmetric])
    (simp_all add: rootPrefix_def repoPrefix_def storagePathRoot_def)

section \<open>The components of a specification's path\<close>

text \<open>
  A repository name is a sequence of elements none of which begins with an underscore, which is what
  keeps it apart from the directories \<open>_manifests\<close>, \<open>_layers\<close> and \<open>_uploads\<close> below it. Tags and
  upload ids are single elements, digests are valid ones. The hash state specification used for
  listing leaves the offset at its zero value.
\<close>

definition name_ok :: "string \<Rightarrow> bool" where
  "name_ok n \<longleftrightarrow> list_all (\<lambda>e. plain e \<and> hd e \<noteq> CHR ''_'') (split_on slash n)"

fun spec_ok :: "digest_pkg \<Rightarrow> pathSpec \<Rightarrow> bool" where
  "spec_ok P (manifestRevisionsPathSpec n) = name_ok n"
| "spec_ok P (manifestRevisionPathSpec n d) = (name_ok n \<and> dg_validate P d = None)"
| "spec_ok P (manifestRevisionLinkPathSpec n d) = (name_ok n \<and> dg_validate P d = None)"
| "spec_ok P (manifestTagsPathSpec n) = name_ok n"
| "spec_ok P (manifestTagPathSpec n t) = (name_ok n \<and> plain t)"
| "spec_ok P (manifestTagCurrentPathSpec n t) = (name_ok n \<and> plain t)"
| "spec_ok P (manifestTagIndexPathSpec n t) = (name_ok n \<and> plain t)"
| "spec_ok P (manifestTagIndexEntryPathSpec n t d) = (name_ok n \<and> plain t \<and> dg_validate P d = None)"
| "spec_ok P (manifestTagIndexEntryLinkPathSpec n t d) =
     (name_ok n \<and> plain t \<and> dg_validate P d = None)"
| "spec_ok P (layerLinkPathSpec n d) = (name_ok n \<and> dg_validate P d = None)"
| "spec_ok P blobsPathSpec = True"
| "spec_ok P (blobPathSpec d) = (dg_validate P d = None)"
| "spec_ok P (blobDataPathSpec d) = (dg_validate P d = None)"
| "spec_ok P (uploadDataPathSpec n i) = (name_ok n \<and> plain i)"
| "spec_ok P (uploadStartedAtPathSpec n i) = (name_ok n \<and> plain i)"
| "spec_ok P (uploadHashStatePathSpec n i a off l) =
     (name_ok n \<and> plain i \<and> plain a \<and> (l \<longrightarrow> off = 0))"
| "spec_ok P repositoriesRootPathSpec = True"
| "spec_ok P (repositoryRootPathSpec n) = name_ok n"

abbreviation root_comps :: "string list" where
  "root_comps \<equiv> [''docker'', ''registry'', ''v2'']"

fun repo_tail :: "digest_pkg \<Rightarrow> pathSpec \<Rightarrow> string list" where
  "repo_tail P (manifestRevisionsPathSpec n) = [''_manifests'', ''revisions'']"
| "repo_tail P (manifestRevisionPathSpec n d) =
     [''_manifests'', ''revisions'', dg_algorithm P d, dg_hex P d]"
| "repo_tail P (manifestRevisionLinkPathSpec n d) =
     [''_manifests'', ''revisions'', dg_algorithm P d, dg_hex P d, ''link'']"
| "repo_tail P (manifestTagsPathSpec n) = [''_manifests'', ''tags'']"
| "repo_tail P (manifestTagPathSpec n t) = [''_manifests'', ''tags'', t]"
| "repo_tail P (manifestTagCurrentPathSpec n t) = [''_manifests'', ''tags'', t, ''current'', ''link'']"
| "repo_tail P (manifestTagIndexPathSpec n t) = [''_manifests'', ''tags'', t, ''index'']"
| "repo_tail P (manifestTagIndexEntryPathSpec n t d) =
     [''_manifests'', ''tags'', t, ''index'', dg_algorithm P d, dg_hex P d]"
| "repo_tail P (manifestTagIndexEntryLinkPathSpec n t d) =
     [''_manifests'', ''tags'', t, ''index'', dg_algorithm P d, dg_hex P d, ''link'']"
| "repo_tail P (layerLinkPathSpec n d) = [''_layers'', dg_algorithm P d, dg_hex P d, ''link'']"
| "repo_tail P (uploadDataPathSpec n i) = [''_uploads'', i, ''data'']"
| "repo_tail P (uploadStartedAtPathSpec n i) = [''_uploads'', i, ''startedat'']"
| "repo_tail P (uploadHashStatePathSpec n i a off l) =
     [''_uploads'', i, ''hashstates'', a] @ (if l then [] else [show_int off])"
| "repo_tail P _ = []"

fun spec_name :: "pathSpec \<Rightarrow> string option" where
  "spec_name (manifestRevisionsPathSpec n) = Some n"
| "spec_name (manifestRevisionPathSpec n d) = Some n"
| "spec_name (manifestRevisionLinkPathSpec n d) = Some n"
| "spec_name (manifestTagsPathSpec n) = Some n"
| "spec_name (manifestTagPathSpec n t) = Some n"
| "spec_name (manifestTagCurrentPathSpec n t) = Some n"
| "spec_name (manifestTagIndexPathSpec n t) = Some n"
| "spec_name (manifestTagIndexEntryPathSpec n t d) = Some n"
| "spec_name (manifestTagIndexEntryLinkPathSpec n t d) = Some n"
| "spec_name (layerLinkPathSpec n d) = Some n"
| "spec_name (uploadDataPathSpec n i) = Some n"
| "spec_name (uploadStartedAtPathSpec n i) = Some n"
| "spec_name (uploadHashStatePathSpec n i a off l) = Some n"
| "spec_name (repositoryRootPathSpec n) = Some n"
| "spec_name _ = None"

definition blob_comps :: "digest_pkg \<Rightarrow> digest \<Rightarrow> string list" where
  "blob_comps P d =
     root_comps @ [''blobs'', dg_algorithm P d, take 2 (dg_hex P d), dg_hex P d]"

definition repo_comps :: "string \<Rightarrow> string list" where
  "repo_comps n = root_comps @ ''repositories'' # split_on slash n"

definition spec_comps :: "digest_pkg \<Rightarrow> pathSpec \<Rightarrow> string list" where
  "spec_comps P spec =
     (case spec_name spec of
        Some n \<Rightarrow> repo_comps n @ repo_tail P spec
      | None \<Rightarrow>
          (case spec of
             blobPathSpec d \<Rightarrow> blob_comps P d
           | blobDataPathSpec d \<Rightarrow> blob_comps P d @ [''data'']
           | blobsPathSpec \<Rightarrow> root_comps @ [''blobs'']
           | _ \<Rightarrow> root_comps @ [''repositories'']))"

lemma name_ok_elems [simp]: "name_ok n \<Longrightarrow> path_elems (n # es) = split_on slash n @ path_elems es"
  by (simp add: path_elems_def name_ok_def plain_def list_all_iff filter_id_conv)

lemma name_ok_plain: "name_ok n \<Longrightarrow> list_all plain (split_on slash n)"
  by (simp add: name_ok_def list_all_iff)

lemma valid_digest_plain:
  assumes "valid_registered P" "dg_validate P d = None"
  shows "plain (dg_algorithm P d)" "plain (dg_hex P d)" "plain (take 2 (dg_hex P d))"
    "blobAlgorithmReplacer (dg_algorithm P d) = dg_algorithm P d" "2 \<le> length (dg_hex P d)"
    "take 2 (dg_hex P d) \<noteq> dg_algorithm P d"
proof -
  have r: "(dg_algorithm P d, length (dg_hex P d)) \<in> set registered"
    and h: "list_all is_lower_hex (dg_hex P d)"
    using assms by (auto simp: valid_registered_def)
  from r show a: "plain (dg_algorithm P d)" and l: "2 \<le> length (dg_hex P d)"
    "blobAlgorithmReplacer (dg_algorithm P d) = dg_algorithm P d"
    by (auto simp: registered_def plain_def blobAlgorithmReplacer_def)
  have "6 \<le> length (dg_algorithm P d)" using r by (auto simp: registered_def)
  then have "length (take 2 (dg_hex P d)) \<noteq> length (dg_algorithm P d)" by simp
  then show "take 2 (dg_hex P d) \<noteq> dg_algorithm P d" by metis
  have nh: "\<not> is_lower_hex slash" "\<not> is_lower_hex (CHR ''.'')"
    by (simp_all add: is_lower_hex_def in_range_def byte_of_def)
  have p: "plain s" if "s \<noteq> []" "list_all is_lower_hex s" for s
    using that nh by (auto simp: plain_def list_all_iff)
  have "dg_hex P d \<noteq> []" using l by auto
  with h show "plain (dg_hex P d)" by (intro p)
  with l h show "plain (take 2 (dg_hex P d))"
    by (intro p) (auto simp: list_all_iff dest: in_set_takeD)
qed

lemma spec_comps_plain:
  assumes "valid_registered P" "spec_ok P spec"
  shows "list_all plain (spec_comps P spec)" "spec_comps P spec \<noteq> []"
  using assms by (cases spec; simp add: spec_comps_def repo_comps_def blob_comps_def name_ok_plain
      valid_digest_plain show_int_plain)+

lemma digestPathComponents_valid:
  assumes "valid_registered P" "dg_validate P d = None"
  shows "digestPathComponents P d False = Inr [dg_algorithm P d, dg_hex P d]"
    "digestPathComponents P d True = Inr [dg_algorithm P d, take 2 (dg_hex P d), dg_hex P d]"
  using assms by (simp_all add: digestPathComponents_def Let_def not_less valid_digest_plain)

text \<open>The path of a well-formed specification has the components listed above.\<close>

lemma path_join_digest:
  assumes "valid_registered P" "dg_validate P d = None"
  shows "path_elems [path_join [dg_algorithm P d, dg_hex P d]] = [dg_algorithm P d, dg_hex P d]"
proof -
  have p: "plain (dg_algorithm P d)" "plain (dg_hex P d)"
    using assms by (simp_all add: valid_digest_plain)
  have "path_join [dg_algorithm P d, dg_hex P d] = join_with slash [dg_algorithm P d, dg_hex P d]"
    using path_clean_relative [of "[dg_algorithm P d, dg_hex P d]"] p
    by (simp add: path_join_def plain_def)
  moreover have "split_on slash (join_with slash [dg_algorithm P d, dg_hex P d])
      = [dg_algorithm P d, dg_hex P d]"
    using p by (intro split_join) (auto simp: plain_def)
  ultimately show ?thesis
    using p by (simp add: path_elems_def plain_def)
qed

lemma pathFor_comps:
  assumes "valid_registered P" "spec_ok P spec"
  shows "pathFor P spec = Inr (abs_path (spec_comps P spec))"
proof -
  note j = path_join_root path_join_comps
  have repos: "path_join repoPrefix = abs_path (root_comps @ [''repositories''])"
    using path_join_root(2) [of "[]"] by simp
  show ?thesis
    using assms by (cases spec)
      (simp_all add: spec_comps_def repo_comps_def blob_comps_def j repos path_join_digest name_ok_plain
        digestPathComponents_valid valid_digest_plain show_int_plain)
qed

section \<open>Reading a specification back from its components\<close>

definition split_name :: "string list \<Rightarrow> string list \<times> string list" where
  "split_name cs = (takeWhile (\<lambda>e. hd e \<noteq> CHR ''_'') cs, dropWhile (\<lambda>e. hd e \<noteq> CHR ''_'') cs)"

definition manifests_spec :: "string \<Rightarrow> string list \<Rightarrow> pathSpec" where
  "manifests_spec n t =
     (if t ! 1 = ''revisions'' then
        (if length t = 2 then manifestRevisionsPathSpec n
         else if length t = 4 then manifestRevisionPathSpec n (t ! 2 @ '':'' @ t ! 3)
         else manifestRevisionLinkPathSpec n (t ! 2 @ '':'' @ t ! 3))
      else if length t = 2 then manifestTagsPathSpec n
      else if length t = 3 then manifestTagPathSpec n (t ! 2)
      else if length t = 4 then manifestTagIndexPathSpec n (t ! 2)
      else if length t = 5 then manifestTagCurrentPathSpec n (t ! 2)
      else if length t = 6 then manifestTagIndexEntryPathSpec n (t ! 2) (t ! 4 @ '':'' @ t ! 5)
      else manifestTagIndexEntryLinkPathSpec n (t ! 2) (t ! 4 @ '':'' @ t ! 5))"

definition uploads_spec :: "string \<Rightarrow> string list \<Rightarrow> pathSpec" where
  "uploads_spec n t =
     (if t ! 2 = ''data'' then uploadDataPathSpec n (t ! 1)
      else if t ! 2 = ''startedat'' then uploadStartedAtPathSpec n (t ! 1)
      else if length t = 4 then uploadHashStatePathSpec n (t ! 1) (t ! 3) 0 True
      else uploadHashStatePathSpec n (t ! 1) (t ! 3) (read_int (t ! 4)) False)"

definition spec_of_comps :: "string list \<Rightarrow> pathSpec" where
  "spec_of_comps cs =
     (let r = drop 4 cs in
      if cs ! 3 = ''blobs'' then
        (if r = [] then blobsPathSpec
         else if length r = 3 then blobPathSpec (r ! 0 @ '':'' @ r ! 2)
         else blobDataPathSpec (r ! 0 @ '':'' @ r ! 2))
      else
        let (ns, t) = split_name r; n = join_with slash ns in
        if r = [] then repositoriesRootPathSpec
        else if t = [] then repositoryRootPathSpec n
        else if t ! 0 = ''_layers'' then layerLinkPathSpec n (t ! 1 @ '':'' @ t ! 2)
        else if t ! 0 = ''_uploads'' then uploads_spec n t
        else manifests_spec n t)"

lemma split_name_repo:
  assumes "name_ok n" "t = [] \<or> hd (hd t) = CHR ''_''"
  shows "split_name (split_on slash n @ t) = (split_on slash n, t)"
proof -
  have "\<forall>e \<in> set (split_on slash n). hd e \<noteq> CHR ''_''"
    using assms(1) by (simp add: name_ok_def list_all_iff)
  then show ?thesis
    using assms(2) by (cases t) (simp_all add: split_name_def takeWhile_append dropWhile_append
        takeWhile_eq_all_conv)
qed

lemma spec_of_spec_comps:
  assumes "valid_registered P" "valid_splits P" "spec_ok P spec"
  shows "spec_of_comps (spec_comps P spec) = spec"
proof -
  have d: "dg_algorithm P d @ CHR '':'' # dg_hex P d = d" if "dg_validate P d = None" for d
    using valid_split_eq [OF assms(2) that] by simp
  show ?thesis
    using assms by (cases spec)
      (simp_all add: spec_comps_def repo_comps_def blob_comps_def spec_of_comps_def split_name_repo
        split_name_repo [of _ "[]", simplified] manifests_spec_def uploads_spec_def d)
qed

section \<open>The digest of a blob path\<close>

lemma path_split_comps:
  assumes "list_all plain (cs @ [c])" "cs \<noteq> []"
  shows "path_split (abs_path (cs @ [c])) = (abs_path cs @ [slash], c)"
  using assms by (simp add: abs_path_snoc path_split_snoc plain_def)

lemma path_dir_trailing:
  assumes "list_all plain cs" "cs \<noteq> []"
  shows "path_dir (abs_path cs @ [slash]) = abs_path cs"
proof -
  have "path_elems [abs_path cs @ [slash]] = path_elems [abs_path cs]"
    by (simp add: path_elems_def split_on_glue)
  then have e: "path_elems [abs_path cs @ [slash]] = cs"
    using assms(1) path_elems_abs [of cs "[]"] by simp
  have "abs_path cs = slash # tl (abs_path cs)"
    using assms(2) by (cases cs) (simp_all add: abs_path_def)
  then have "path_join [abs_path cs @ [slash]] = abs_path cs"
    using assms(1) path_join_rooted [of "[abs_path cs @ [slash]]" "tl (abs_path cs) @ [slash]" "[]"] e
    by simp
  moreover have "path_split (abs_path cs @ [slash]) = (abs_path cs @ [slash], [])"
    using path_split_snoc [of "[]" "abs_path cs"] by simp
  ultimately show ?thesis
    by (simp add: path_dir_def path_join_def)
qed

lemma path_base_trailing:
  assumes "list_all plain (cs @ [c])" "cs \<noteq> []"
  shows "path_base (abs_path (cs @ [c]) @ [slash]) = c"
proof -
  obtain r x where c: "c = r @ [x]" "x \<noteq> slash"
    using assms(1) by (cases c rule: rev_cases) (auto simp: plain_def)
  have "abs_path (cs @ [c]) \<noteq> []" by (simp add: abs_path_def)
  moreover have "trim_right slash (abs_path (cs @ [c]) @ [slash]) = abs_path (cs @ [c])"
    using c assms(2) by (simp add: trim_right_def abs_path_snoc)
  ultimately show ?thesis
    using path_split_comps [OF assms] by (simp add: path_base_def Let_def)
qed

lemma digestFromPath_comps:
  assumes "list_all plain (cs @ [a, take 2 h, h])" "cs \<noteq> []" "2 \<le> length h"
    and "trim_suffix p ''/data'' = abs_path (cs @ [a, take 2 h, h])"
  shows "digestFromPath P p =
    (case dg_validate P (dg_new_from_hex P a h) of
       Some e \<Rightarrow> Inl (PathDigest e) | None \<Rightarrow> Inr (dg_new_from_hex P a h))"
proof -
  have "path_split (abs_path (cs @ [a, take 2 h, h])) = (abs_path (cs @ [a, take 2 h]) @ [slash], h)"
    using path_split_comps [of "cs @ [a, take 2 h]" h] assms(1) by simp
  moreover have "path_dir (abs_path (cs @ [a, take 2 h]) @ [slash]) = abs_path (cs @ [a, take 2 h])"
    using assms(1) by (intro path_dir_trailing) simp_all
  moreover have "path_split (abs_path (cs @ [a, take 2 h])) = (abs_path (cs @ [a]) @ [slash], take 2 h)"
    using path_split_comps [of "cs @ [a]" "take 2 h"] assms(1) by simp
  moreover have "path_base (abs_path (cs @ [a]) @ [slash]) = a"
    using assms(1,2) by (intro path_base_trailing) simp_all
  ultimately show ?thesis
    using assms(3,4) by (simp add: digestFromPath_def Let_def)
qed

lemma trim_data:
  assumes "list_all plain (cs @ [c])" "cs \<noteq> []"
  shows "trim_suffix (abs_path (cs @ [c])) ''/data'' = (if c = ''data'' then abs_path cs else abs_path (cs @ [c]))"
proof -
  have "c = ''data''" if "has_suffix (abs_path (cs @ [c])) ''/data''"
  proof -
    define p where "p = abs_path (cs @ [c])"
    have "drop (length p - length ''/data'') p = ''/data''"
      using that unfolding has_suffix_def p_def by (rule conjunct2)
    then have "p = take (length p - length ''/data'') p @ slash # ''data''"
      using append_take_drop_id [of "length p - length ''/data''" p] by simp
    then obtain u where u: "p = u @ slash # ''data''" by blast
    have "path_split p = (u @ [slash], ''data'')"
      unfolding u by (rule path_split_snoc) simp
    with path_split_comps [OF assms] show ?thesis by (simp add: p_def)
  qed
  moreover have "trim_suffix (abs_path (cs @ [''data''])) ''/data'' = abs_path cs"
    using assms(2) by (simp add: trim_suffix_def has_suffix_def abs_path_snoc)
  ultimately show ?thesis by (auto simp: trim_suffix_def)
qed

lemma digestFromPath_blob:
  assumes "valid_registered P" "valid_splits P" "from_hex_joins P" "dg_validate P d = None"
  shows "digestFromPath P (abs_path (blob_comps P d)) = Inr d"
    "digestFromPath P (abs_path (blob_comps P d @ [''data''])) = Inr d"
proof -
  have p: "list_all plain (blob_comps P d)" "2 \<le> length (dg_hex P d)"
    using assms by (simp_all add: blob_comps_def valid_digest_plain)
  have nd: "dg_hex P d \<noteq> ''data''"
    using assms(1,4) by (auto simp: valid_registered_def is_lower_hex_def in_range_def byte_of_def
        dest!: spec [of _ d])
  have c: "dg_new_from_hex P (dg_algorithm P d) (dg_hex P d) = d"
    using assms valid_split_eq by (simp add: from_hex_joins_def)
  have "trim_suffix (abs_path (blob_comps P d)) ''/data'' = abs_path (blob_comps P d)"
    using trim_data [of "root_comps @ [''blobs'', dg_algorithm P d, take 2 (dg_hex P d)]" "dg_hex P d"] p nd
    by (simp add: blob_comps_def)
  then show "digestFromPath P (abs_path (blob_comps P d)) = Inr d"
    using digestFromPath_comps [of "root_comps @ [''blobs'']" "dg_algorithm P d" "dg_hex P d"] p c assms(4)
    by (simp add: blob_comps_def)
  have "trim_suffix (abs_path (blob_comps P d @ [''data''])) ''/data'' = abs_path (blob_comps P d)"
    using trim_data [of "blob_comps P d" "''data''"] p by (simp add: blob_comps_def)
  then show "digestFromPath P (abs_path (blob_comps P d @ [''data''])) = Inr d"
    using digestFromPath_comps [of "root_comps @ [''blobs'']" "dg_algorithm P d" "dg_hex P d"] p c assms(4)
    by (simp add: blob_comps_def)
qed

section \<open>Properties\<close>

text \<open>
  C24. No two well-formed path specifications have the same path: links, blobs, tags and uploads of
  all repositories are kept apart by the layout.
\<close>

theorem pathFor_injective:
  assumes "valid_registered P" and "valid_splits P" and "spec_ok P s" and "spec_ok P t"
    and "pathFor P s = pathFor P t"
  shows "s = t"
proof -
  note ps = spec_comps_plain [OF assms(1,3)] and pt = spec_comps_plain [OF assms(1,4)]
  have "abs_path (spec_comps P s) = abs_path (spec_comps P t)"
    using assms(5) unfolding pathFor_comps [OF assms(1,3)] pathFor_comps [OF assms(1,4)]
    by (rule sum.inject(2) [THEN iffD1])
  then have "spec_comps P s = spec_comps P t"
    using ps pt by (subst (asm) abs_path_inj) (simp_all add: list_all_iff plain_def)
  then have "spec_of_comps (spec_comps P s) = spec_of_comps (spec_comps P t)"
    by (rule arg_cong)
  then show ?thesis
    unfolding spec_of_spec_comps [OF assms(1,2,3)] spec_of_spec_comps [OF assms(1,2,4)] .
qed

theorem pathFor_injective_witness:
  "pathFor sample_pkg (manifestTagPathSpec ''a/b'' ''v1'')
     \<noteq> pathFor sample_pkg (manifestTagPathSpec ''a'' ''v1'')"
proof
  assume "pathFor sample_pkg (manifestTagPathSpec ''a/b'' ''v1'')
     = pathFor sample_pkg (manifestTagPathSpec ''a'' ''v1'')"
  then have "manifestTagPathSpec ''a/b'' ''v1'' = manifestTagPathSpec ''a'' ''v1''"
    by (intro pathFor_injective [of sample_pkg]) (simp_all add: name_ok_def plain_def)
  then show False by simp
qed

text \<open>
  C25. The digest read back from the path of a blob, or of a blob's data file, is the blob's digest.
\<close>

theorem digest_path_roundtrip:
  assumes "valid_registered P" and "valid_splits P" and "from_hex_joins P" and "dg_validate P d = None"
  shows "\<exists>p q. pathFor P (blobPathSpec d) = Inr p \<and> digestFromPath P p = Inr d \<and>
    pathFor P (blobDataPathSpec d) = Inr q \<and> digestFromPath P q = Inr d"
  using pathFor_comps [OF assms(1), of "blobPathSpec d"] pathFor_comps [OF assms(1), of "blobDataPathSpec d"]
    digestFromPath_blob [OF assms] assms(4)
  by (simp add: spec_comps_def)

theorem digest_path_roundtrip_witness:
  "\<exists>p q. pathFor sample_pkg (blobPathSpec (dg_from_bytes sample_pkg ''abc'')) = Inr p \<and>
    digestFromPath sample_pkg p = Inr (dg_from_bytes sample_pkg ''abc'') \<and>
    pathFor sample_pkg (blobDataPathSpec (dg_from_bytes sample_pkg ''abc'')) = Inr q \<and>
    digestFromPath sample_pkg q = Inr (dg_from_bytes sample_pkg ''abc'')"
  using sample_from_bytes_valid
  by (intro digest_path_roundtrip) (simp_all add: from_bytes_valid_def)

end
