(* ===== verification/Storage_IO.thy ===== *)
theory Storage_IO
  imports InMemory_Laws Paths
begin

text \<open>
  The I/O helpers of \<open>registry/storage\<close>: reading a whole file under a size limit (\<open>io.go\<close>), the
  seekable reader over a driver (\<open>filereader.go\<close>) and the existence check (\<open>util.go\<close>); with them
  the errors of the package and the descriptor (\<open>blobs.go\<close>). A reader that a driver returns is the
  list of bytes it has left, and reports the end of the file once they are used up.
\<close>

section \<open>Errors and descriptors\<close>

text \<open>
  The errors the storage package returns. Errors of the driver and of the digest package are passed
  on; \<open>Panicked\<close> is an index out of range or a nil pointer.
\<close>

datatype store_error =
    DriverErr driver_error
  | DigestErr digest_error
  | ErrBlobUnknown
  | ErrBlobUploadUnknown
  | ErrBlobInvalidLength
  | ErrBlobInvalidDigest digest
  | ErrUnsupported
  | ErrTagUnknown string
  | ErrRepositoryUnknown string
  | ErrReadLimit
  | ErrNegativeSeek
  | ErrClosed
  | EndOfFile
  | ErrTimeFormat
  | ErrResumableDigestNotAvailable
  | OtherError string
  | Panicked

fun is_not_found :: "store_error \<Rightarrow> bool" where
  "is_not_found (DriverErr (PathNotFoundError _ _)) = True"
| "is_not_found _ = False"

fun path_err :: "path_error \<Rightarrow> store_error" where
  "path_err (PathDigest e) = DigestErr e"
| "path_err PathPanic = Panicked"

definition spath :: "digest_pkg \<Rightarrow> pathSpec \<Rightarrow> store_error + string" where
  "spath P spec = map_sum path_err id (pathFor P spec)"

text \<open>The fields \<open>URLs\<close>, \<open>Annotations\<close> and \<open>Platform\<close> are never set by the storage package.\<close>

record descriptor =
  MediaType :: string
  Size :: int
  Digest :: digest

definition octet_stream :: string where
  "octet_stream = ''application/octet-stream''"

section \<open>Reading with a limit\<close>

definition src_read :: "nat \<Rightarrow> bytes \<Rightarrow> bytes \<times> bytes \<times> store_error option" where
  "src_read k b = (if b = [] then ([], [], Some EndOfFile) else (take k b, drop k b, None))"

record limited_reader =
  lr_src :: bytes
  lr_n :: int
  lr_err :: "store_error option"

text \<open>
  \<open>Read\<close> returns the count together with what is in the buffer: after a read past the limit the count is
  the smaller one. The field \<open>n\<close> is an \<open>int64\<close>, so the bound \<open>l.n+1\<close> wraps around at the largest one;
  slicing with a negative bound panics.
\<close>

definition limited_Read ::
    "limited_reader \<Rightarrow> nat \<Rightarrow> limited_reader \<times> int \<times> bytes \<times> store_error option" where
  "limited_Read l len =
     (case lr_err l of
        Some e \<Rightarrow> (l, 0, [], Some e)
      | None \<Rightarrow>
          if len = 0 then (l, 0, [], None)
          else
            let n = wrap64 (lr_n l); bound = wrap64 (n + 1) in
            if int len > bound \<and> bound < 0 then (l, 0, [], Some Panicked)
            else
              let len' = (if int len > bound then nat bound else len);
                  (p, src', e) = src_read len' (lr_src l)
              in if int (length p) \<le> n
                 then (l\<lparr>lr_src := src', lr_n := n - int (length p), lr_err := e\<rparr>, int (length p), p, e)
                 else (l\<lparr>lr_src := src', lr_n := 0, lr_err := Some ErrReadLimit\<rparr>, n, p, Some ErrReadLimit))"

text \<open>
  \<open>ioutil.ReadAll\<close> reads into the free part of its buffer, \<open>Suc (bufsz i)\<close> bytes in the \<open>i\<close>-th
  round, until the reader reports an error; the end of the file is not one. It panics when the reader
  returns a negative count. What was read before an error is returned with the error.
\<close>

lemma limited_Read_progress:
  assumes "limited_Read l (Suc k) = (l', n, p, None)"
  shows "length (lr_src l') < length (lr_src l)"
proof -
  define n where "n = wrap64 (lr_n l)"
  have "wrap64 (n + 1) \<noteq> 0" if "0 \<le> n"
    using that wrap64_int64 [of "lr_n l"] wrap64_id [of "n + 1"] wrap64_over [of "n + 1"]
    by (cases "n + 1 < 2 ^ 63") (auto simp: n_def is_int64_def)
  with assms show ?thesis
    unfolding limited_Read_def n_def [symmetric]
    by (auto simp: src_read_def Let_def split: option.splits if_splits)
qed

function readAll ::
    "(nat \<Rightarrow> nat) \<Rightarrow> nat \<Rightarrow> limited_reader \<Rightarrow> bytes \<Rightarrow> bytes \<times> store_error option" where
  "readAll bufsz i l acc =
     (case limited_Read l (Suc (bufsz i)) of
        (l', n, p, e) \<Rightarrow>
          if n < 0 \<or> e = Some Panicked then (acc, Some Panicked)
          else
            (case e of
               None \<Rightarrow> readAll bufsz (Suc i) l' (acc @ take (nat n) p)
             | Some e \<Rightarrow> (acc @ take (nat n) p, if e = EndOfFile then None else Some e)))"
  by pat_completeness auto
termination
  by (relation "measure (\<lambda>(bufsz, i, l, acc). length (lr_src l))") (auto dest: limited_Read_progress [OF sym])

declare readAll.simps [simp del]

definition readAllLimited :: "(nat \<Rightarrow> nat) \<Rightarrow> bytes \<Rightarrow> int \<Rightarrow> bytes \<times> store_error option" where
  "readAllLimited bufsz r limit = readAll bufsz 0 \<lparr>lr_src = r, lr_n = limit, lr_err = None\<rparr> []"

definition maxBlobGetSize :: int where
  "maxBlobGetSize = 4 * 2 ^ 20"

text \<open>The buffer starts with \<open>bytes.MinRead\<close> bytes; the result does not depend on it.\<close>

definition getContent :: "('s, 'w) storage_driver \<Rightarrow> 's \<Rightarrow> string \<Rightarrow> bytes \<times> store_error option" where
  "getContent D s p =
     (case Reader D s p 0 of
        Inl e \<Rightarrow> ([], Some (DriverErr e))
      | Inr r \<Rightarrow> readAllLimited (\<lambda>_. 511) r maxBlobGetSize)"

definition path_exists :: "('s, 'w) storage_driver \<Rightarrow> 's \<Rightarrow> string \<Rightarrow> store_error + bool" where
  "path_exists D s path =
     (case Stat D s path of
        Inl (PathNotFoundError _ _) \<Rightarrow> Inr False
      | Inl e \<Rightarrow> Inl (DriverErr e)
      | Inr _ \<Rightarrow> Inr True)"

section \<open>The seekable reader\<close>

text \<open>
  The open connection \<open>rc\<close> with the buffered reader on it is the pair of the bytes in the buffer and
  the bytes still to be fetched. \<open>bufio.Reader.Read\<close> fills an empty buffer with one read, or
  bypasses it when the caller asks for at least a buffer.
\<close>

definition fileReaderBufferSize :: nat where
  "fileReaderBufferSize = 4 * 2 ^ 20"

record file_reader =
  fr_path :: string
  fr_size :: int
  fr_rc :: "(bytes \<times> bytes) option"
  fr_offset :: int
  fr_err :: "store_error option"

definition newFileReader :: "string \<Rightarrow> int \<Rightarrow> file_reader" where
  "newFileReader path sz = \<lparr>fr_path = path, fr_size = sz, fr_rc = None, fr_offset = 0, fr_err = None\<rparr>"

definition bufio_Read :: "bytes \<times> bytes \<Rightarrow> nat \<Rightarrow> (bytes \<times> bytes) \<times> bytes \<times> store_error option" where
  "bufio_Read brd len =
     (case brd of (buf, rest) \<Rightarrow>
        if len = 0 then (brd, [], None)
        else if buf \<noteq> [] then ((drop len buf, rest), take len buf, None)
        else if fileReaderBufferSize \<le> len then
          (case src_read len rest of (p, rest', e) \<Rightarrow> (([], rest'), p, e))
        else
          (case src_read fileReaderBufferSize rest of
             (p, rest', Some e) \<Rightarrow> (([], rest'), [], Some e)
           | (p, rest', None) \<Rightarrow> ((drop len p, rest'), take len p, None)))"

definition fr_reader ::
    "('s, 'w) storage_driver \<Rightarrow> 's \<Rightarrow> file_reader \<Rightarrow> file_reader \<times> store_error option" where
  "fr_reader D s fr =
     (case fr_err fr of
        Some e \<Rightarrow> (fr, Some e)
      | None \<Rightarrow>
          (case fr_rc fr of
             Some _ \<Rightarrow> (fr, None)
           | None \<Rightarrow>
               (case Reader D s (fr_path fr) (fr_offset fr) of
                  Inl (PathNotFoundError _ _) \<Rightarrow> (fr, None)
                | Inl e \<Rightarrow> (fr, Some (DriverErr e))
                | Inr rc \<Rightarrow> (fr\<lparr>fr_rc := Some ([], rc)\<rparr>, None))))"

text \<open>
  Without an error and without a connection, \<open>fr_reader\<close> has returned the empty reader that stands
  in for a missing file.
\<close>

definition fr_Read ::
    "('s, 'w) storage_driver \<Rightarrow> 's \<Rightarrow> file_reader \<Rightarrow> nat \<Rightarrow> file_reader \<times> bytes \<times> store_error option" where
  "fr_Read D s fr len =
     (case fr_err fr of
        Some e \<Rightarrow> (fr, [], Some e)
      | None \<Rightarrow>
          (case fr_reader D s fr of
             (fr1, Some e) \<Rightarrow> (fr1, [], Some e)
           | (fr1, None) \<Rightarrow>
               (let (rc', p, e) =
                      (case fr_rc fr1 of
                         Some brd \<Rightarrow>
                           (case bufio_Read brd len of (brd', p, e) \<Rightarrow> (Some brd', p, e))
                       | None \<Rightarrow> (None, [], Some EndOfFile));
                    fr2 = fr1\<lparr>fr_rc := rc', fr_offset := wrap64 (fr_offset fr1 + int (length p))\<rparr>
                in (fr2, p, if e = None \<and> fr_size fr2 \<le> fr_offset fr2 then Some EndOfFile else e))))"

text \<open>The offsets are of type \<open>int64\<close>, so the sums wrap around; another \<open>whence\<close> selects no case of the switch.\<close>

datatype whence = SeekStart | SeekCurrent | SeekEnd | OtherWhence

definition fr_reset :: "file_reader \<Rightarrow> file_reader" where
  "fr_reset fr = (if fr_err fr \<noteq> None then fr else fr\<lparr>fr_rc := None\<rparr>)"

definition fr_Seek :: "file_reader \<Rightarrow> int \<Rightarrow> whence \<Rightarrow> file_reader \<times> int \<times> store_error option" where
  "fr_Seek fr offset w =
     (case fr_err fr of
        Some e \<Rightarrow> (fr, 0, Some e)
      | None \<Rightarrow>
          let newOffset = (case w of
                SeekCurrent \<Rightarrow> wrap64 (fr_offset fr + offset)
              | SeekEnd \<Rightarrow> wrap64 (fr_size fr + offset)
              | SeekStart \<Rightarrow> offset
              | OtherWhence \<Rightarrow> fr_offset fr)
          in if newOffset < 0 then (fr, fr_offset fr, Some ErrNegativeSeek)
             else
               let fr1 = (if fr_offset fr \<noteq> newOffset then fr_reset fr else fr);
                   fr2 = fr1\<lparr>fr_offset := newOffset\<rparr>
               in (fr2, fr_offset fr2, None))"

definition fr_closeWithErr :: "file_reader \<Rightarrow> store_error \<Rightarrow> file_reader \<times> store_error option" where
  "fr_closeWithErr fr err =
     (case fr_err fr of
        Some e \<Rightarrow> (fr, Some e)
      | None \<Rightarrow> (fr\<lparr>fr_err := Some err, fr_rc := None\<rparr>, Some err))"

definition fr_Close :: "file_reader \<Rightarrow> file_reader \<times> store_error option" where
  "fr_Close fr = fr_closeWithErr fr ErrClosed"

section \<open>The limit\<close>

lemma limited_Read_open:
  assumes "lr_err l = None" "0 \<le> lr_n l" "lr_n l < 2 ^ 63 - 1"
  shows "limited_Read l (Suc k) =
    (if lr_src l = [] then (l\<lparr>lr_err := Some EndOfFile\<rparr>, 0, [], Some EndOfFile)
     else
       let m = min (Suc k) (Suc (nat (lr_n l))); p = take m (lr_src l); rest = drop m (lr_src l)
       in if length p \<le> nat (lr_n l)
          then (l\<lparr>lr_src := rest, lr_n := lr_n l - int (length p)\<rparr>, int (length p), p, None)
          else (l\<lparr>lr_src := rest, lr_n := 0, lr_err := Some ErrReadLimit\<rparr>, lr_n l, p, Some ErrReadLimit))"
proof -
  have w: "wrap64 (lr_n l) = lr_n l" "wrap64 (lr_n l + 1) = lr_n l + 1"
    using assms(2,3) by (auto intro!: wrap64_id simp: is_int64_def)
  have len: "(if int (Suc k) > lr_n l + 1 then nat (lr_n l + 1) else Suc k) = min (Suc k) (Suc (nat (lr_n l)))"
    using assms(2) by auto
  show ?thesis
    using assms unfolding limited_Read_def w Let_def w len
    by (cases "lr_src l = []") (auto simp: src_read_def Let_def min_def)
qed

lemma readAll_limit:
  assumes "lr_err l = None" "0 \<le> lr_n l" "lr_n l < 2 ^ 63 - 1"
  shows "readAll bufsz i l acc =
    (if int (length (lr_src l)) \<le> lr_n l then (acc @ lr_src l, None)
     else (acc @ take (nat (lr_n l)) (lr_src l), Some ErrReadLimit))"
  using assms
proof (induction "length (lr_src l)" arbitrary: l i acc rule: less_induct)
  case less
  define m where "m = min (Suc (bufsz i)) (Suc (nat (lr_n l)))"
  note step = limited_Read_open [OF less.prems, of "bufsz i", unfolded Let_def, folded m_def]
  consider "lr_src l = []" | "lr_src l \<noteq> []" "nat (lr_n l) < length (take m (lr_src l))"
    | "lr_src l \<noteq> []" "length (take m (lr_src l)) \<le> nat (lr_n l)" by linarith
  then show ?case
  proof cases
    case 1
    then show ?thesis using less.prems by (subst readAll.simps) (simp add: step)
  next
    case 2
    then have "\<not> int (length (lr_src l)) \<le> lr_n l" using less.prems(2) by auto
    then show ?thesis
      using 2 less.prems(2) by (subst readAll.simps) (simp add: step min_le_iff_disj)
  next
    case 3
    define l' where "l' = l\<lparr>lr_src := drop m (lr_src l), lr_n := lr_n l - int (length (take m (lr_src l)))\<rparr>"
    have m0: "0 < m" by (simp add: m_def)
    have "take (min (length (lr_src l)) m) (lr_src l) = take m (lr_src l)" by (simp add: min_def)
    then have "readAll bufsz i l acc = readAll bufsz (Suc i) l' (acc @ take m (lr_src l))"
      using 3 by (subst readAll.simps) (simp add: step l'_def)
    moreover have "length (lr_src l') < length (lr_src l)" "lr_err l' = None" "0 \<le> lr_n l'" "lr_n l' < 2 ^ 63 - 1"
      using 3 m0 less.prems by (auto simp: l'_def)
    ultimately have "readAll bufsz i l acc =
      (if int (length (lr_src l')) \<le> lr_n l' then ((acc @ take m (lr_src l)) @ lr_src l', None)
       else ((acc @ take m (lr_src l)) @ take (nat (lr_n l')) (lr_src l'), Some ErrReadLimit))"
      using less.hyps by simp
    moreover have "int (length (lr_src l')) \<le> lr_n l' \<longleftrightarrow> int (length (lr_src l)) \<le> lr_n l"
      by (auto simp: l'_def min_def)
    moreover have "take m (lr_src l) @ take (nat (lr_n l')) (lr_src l') = take (nat (lr_n l)) (lr_src l)"
    proof -
      have "nat (lr_n l) = length (take m (lr_src l)) + nat (lr_n l')"
        using 3 by (simp add: l'_def)
      moreover have "take (length a + k) (a @ c) = a @ take k c" for a c :: bytes and k by simp
      moreover have drop_eq: "lr_src l' = drop m (lr_src l)" by (simp add: l'_def)
      ultimately show ?thesis
        by (metis append_take_drop_id drop_eq)
    qed
    ultimately show ?thesis by (simp add: l'_def)
  qed
qed

lemma readAllLimited_iff:
  assumes "0 \<le> limit" "limit < 2 ^ 63 - 1"
  shows "readAllLimited bufsz r limit =
     (take (nat limit) r, if int (length r) \<le> limit then None else Some ErrReadLimit)"
  using assms by (simp add: readAllLimited_def readAll_limit)

lemma getContent_eq:
  "getContent D s p =
     (case Reader D s p 0 of
        Inl e \<Rightarrow> ([], Some (DriverErr e))
      | Inr r \<Rightarrow> (take (nat maxBlobGetSize) r, if int (length r) \<le> maxBlobGetSize then None else Some ErrReadLimit))"
  by (simp add: getContent_def readAllLimited_iff maxBlobGetSize_def split: sum.split)

section \<open>Reading a file in pieces\<close>

text \<open>
  The reader of a file with content \<open>b\<close> is in step with it: what the buffer and the connection
  still hold is the content from the offset on.
\<close>

definition fr_ok :: "string \<Rightarrow> bytes \<Rightarrow> file_reader \<Rightarrow> bool" where
  "fr_ok p b fr \<longleftrightarrow> fr_path fr = p \<and> fr_size fr = int (length b) \<and> fr_err fr = None \<and>
     int (length b) < 2 ^ 63 \<and> 0 \<le> fr_offset fr \<and> fr_offset fr < 2 ^ 63 \<and>
     (\<forall>buf rest. fr_rc fr = Some (buf, rest) \<longrightarrow> buf @ rest = drop (nat (fr_offset fr)) b)"

lemma fr_ok_new: "int (length b) < 2 ^ 63 \<Longrightarrow> fr_ok p b (newFileReader p (int (length b)))"
  by (simp add: fr_ok_def newFileReader_def)

text \<open>
  Where a seek is meant to go. Targets that are not offsets of type \<open>int64\<close> or are negative are refused,
  and the offset stays.
\<close>

fun seek_target :: "int \<Rightarrow> int \<Rightarrow> int \<Rightarrow> whence \<Rightarrow> int" where
  "seek_target sz cur off SeekStart = off"
| "seek_target sz cur off SeekCurrent = cur + off"
| "seek_target sz cur off SeekEnd = sz + off"
| "seek_target sz cur off OtherWhence = cur"

definition seek_ok :: "int \<Rightarrow> bool" where
  "seek_ok t \<longleftrightarrow> 0 \<le> t \<and> t < 2 ^ 63"

lemma wrap64_sum:
  assumes "seek_ok x" "is_int64 y"
  shows "if seek_ok (x + y) then wrap64 (x + y) = x + y else wrap64 (x + y) < 0"
  using assms wrap64_id [of "x + y"] wrap64_over [of "x + y"]
  by (cases "x + y < 2 ^ 63") (auto simp: seek_ok_def is_int64_def)

lemma fr_Seek_spec:
  assumes "fr_ok p b fr" "is_int64 off"
  shows "fr_ok p b (fst (fr_Seek fr off w))"
    "snd (fr_Seek fr off w) =
       (let t = seek_target (int (length b)) (fr_offset fr) off w
        in if seek_ok t then (t, None) else (fr_offset fr, Some ErrNegativeSeek))"
    "fr_offset (fst (fr_Seek fr off w)) = fst (snd (fr_Seek fr off w))"
proof -
  define t where "t = seek_target (int (length b)) (fr_offset fr) off w"
  have r: "fr_err fr = None" "seek_ok (fr_offset fr)" "seek_ok (fr_size fr)" "fr_size fr = int (length b)"
    using assms(1) by (auto simp: fr_ok_def seek_ok_def)
  have st: "fr_Seek fr off w =
      (if seek_ok t then ((if fr_offset fr \<noteq> t then fr_reset fr else fr)\<lparr>fr_offset := t\<rparr>, t, None)
       else (fr, fr_offset fr, Some ErrNegativeSeek))"
    using wrap64_sum [OF r(2) assms(2)] wrap64_sum [OF r(3) assms(2)] r assms(2)
    by (cases w) (auto simp: fr_Seek_def t_def seek_ok_def is_int64_def Let_def split: if_splits)
  show "fr_ok p b (fst (fr_Seek fr off w))"
    using assms(1) unfolding st by (auto simp: fr_ok_def fr_reset_def seek_ok_def)
  show "snd (fr_Seek fr off w) =
       (let t = seek_target (int (length b)) (fr_offset fr) off w
        in if seek_ok t then (t, None) else (fr_offset fr, Some ErrNegativeSeek))"
    unfolding st t_def [symmetric] by (simp add: Let_def)
  show "fr_offset (fst (fr_Seek fr off w)) = fst (snd (fr_Seek fr off w))"
    unfolding st by simp
qed

text \<open>What a read of the buffered reader leaves and returns, together, is what it held.\<close>

lemma fileReaderBufferSize_pos: "0 < fileReaderBufferSize"
  by (simp add: fileReaderBufferSize_def)

lemma take_drop_chunks:
  assumes "k \<le> n"
  shows "take k xs @ drop k (take n xs) @ drop n xs = xs"
proof -
  have "take k xs = take k (take n xs)" using assms by (simp add: min_absorb1)
  then show ?thesis by (metis append_assoc append_take_drop_id)
qed

lemma bufio_Read_spec:
  assumes "bufio_Read (buf, rest) len = ((buf', rest'), p, e)"
  shows "p @ buf' @ rest' = buf @ rest" "length p \<le> len"
    "0 < len \<Longrightarrow> buf @ rest \<noteq> [] \<Longrightarrow> p \<noteq> []"
    "e = None \<or> e = Some EndOfFile" "e \<noteq> None \<Longrightarrow> buf @ rest = []"
  using assms fileReaderBufferSize_pos
  by (auto simp: bufio_Read_def src_read_def take_drop_chunks split: if_splits)

text \<open>A run of reads and seeks with what each returns.\<close>

datatype fr_op = ReadOp nat | SeekOp int whence

datatype fr_result = ReadResult bytes "store_error option" | SeekResult int "store_error option"

fun fr_run ::
    "('s, 'w) storage_driver \<Rightarrow> 's \<Rightarrow> file_reader \<Rightarrow> fr_op list \<Rightarrow> fr_result list" where
  "fr_run D s fr [] = []"
| "fr_run D s fr (SeekOp off w # ops) =
     (case fr_Seek fr off w of (fr', t, e) \<Rightarrow> SeekResult t e # fr_run D s fr' ops)"
| "fr_run D s fr (ReadOp n # ops) =
     (case fr_Read D s fr n of (fr', p, e) \<Rightarrow> ReadResult p e # fr_run D s fr' ops)"

text \<open>
  What the results are meant to be, with the content and the current offset alone: a read may return
  less than was asked for, but the bytes are those at the offset, there is at least one while content is
  left, and the offset goes on by their number.
\<close>

definition read_right :: "bytes \<Rightarrow> int \<Rightarrow> nat \<Rightarrow> bytes \<Rightarrow> store_error option \<Rightarrow> bool" where
  "read_right b off n p e \<longleftrightarrow>
     p = take (length p) (drop (nat off) b) \<and> length p \<le> n \<and>
     (0 < n \<and> off < int (length b) \<longrightarrow> p \<noteq> []) \<and>
     e = (if off + int (length p) < int (length b) then None else Some EndOfFile)"

fun results_right :: "bytes \<Rightarrow> int \<Rightarrow> fr_op list \<Rightarrow> fr_result list \<Rightarrow> bool" where
  "results_right b off [] [] = True"
| "results_right b off (ReadOp n # ops) (ReadResult p e # rs) =
     (read_right b off n p e \<and> results_right b (off + int (length p)) ops rs)"
| "results_right b off (SeekOp d w # ops) (SeekResult t e # rs) =
     (let target = seek_target (int (length b)) off d w in
      if seek_ok target then t = target \<and> e = None \<and> results_right b target ops rs
      else t = off \<and> e = Some ErrNegativeSeek \<and> results_right b off ops rs)"
| "results_right b off _ _ = False"

fun op_int64 :: "fr_op \<Rightarrow> bool" where
  "op_int64 (ReadOp n) = True"
| "op_int64 (SeekOp off w) = is_int64 off"

context lawful_driver
begin

lemma fr_Read_ok:
  assumes "inv s" "ok cs" "file_at s cs = Some b" "fr_ok (abs_path cs) b fr"
    and "fr_Read D s fr n = (fr', p, e)"
  shows "fr_ok (abs_path cs) b fr'" "read_right b (fr_offset fr) n p e"
    "fr_offset fr' = fr_offset fr + int (length p)"
proof -
  have off: "0 \<le> fr_offset fr" "fr_path fr = abs_path cs" "fr_err fr = None"
    "fr_size fr = int (length b)" "int (length b) < 2 ^ 63" "fr_offset fr < 2 ^ 63"
    using assms(4) by (auto simp: fr_ok_def)
  have rd: "Reader D s (abs_path cs) (fr_offset fr) = Inr (drop (nat (fr_offset fr)) b)"
    using reader_file [OF assms(1-3), of "nat (fr_offset fr)"] off(1) by simp
  obtain buf rest fr1 where r: "fr_reader D s fr = (fr1, None)" "fr1 = fr\<lparr>fr_rc := Some (buf, rest)\<rparr>"
    "buf @ rest = drop (nat (fr_offset fr)) b"
  proof (cases "fr_rc fr")
    case None
    then show ?thesis
      using that [of "fr\<lparr>fr_rc := Some ([], drop (nat (fr_offset fr)) b)\<rparr>" "[]" "drop (nat (fr_offset fr)) b"]
        off rd by (simp add: fr_reader_def)
  next
    case (Some br)
    then show ?thesis
      using that [of fr "fst br" "snd br"] off assms(4) by (simp add: fr_reader_def fr_ok_def)
  qed
  obtain buf' rest' p' e' where b: "bufio_Read (buf, rest) n = ((buf', rest'), p', e')"
    by (metis prod_cases3 surj_pair)
  note spec = bufio_Read_spec [OF b]
  have "length p' \<le> length (drop (nat (fr_offset fr)) b)" using arg_cong [OF spec(1), of length] r(3) by simp
  then have lt: "fr_offset fr + int (length p') < 2 ^ 63" using off by (cases "p' = []") auto
  then have w: "wrap64 (fr_offset fr + int (length p')) = fr_offset fr + int (length p')"
    using off(1) by (intro wrap64_id) (simp add: is_int64_def)
  have res: "fr' = fr\<lparr>fr_rc := Some (buf', rest'), fr_offset := fr_offset fr + int (length p)\<rparr>" "p = p'"
    "e = (if e' = None \<and> int (length b) \<le> fr_offset fr + int (length p) then Some EndOfFile else e')"
    using assms(5) off r(1) b w by (auto simp: fr_Read_def r(2) Let_def)
  then show "fr_offset fr' = fr_offset fr + int (length p)" by simp
  have split: "p @ buf' @ rest' = drop (nat (fr_offset fr)) b" using spec(1) r(3) res(2) by simp
  then have tail: "buf' @ rest' = drop (nat (fr_offset fr + int (length p))) b"
    using off(1) by (metis append_eq_conv_conj drop_drop nat_add_distrib nat_int of_nat_0_le_iff add.commute)
  then show "fr_ok (abs_path cs) b fr'" using off res(1,2) lt by (simp add: fr_ok_def)
  have "p = take (length p) (drop (nat (fr_offset fr)) b)" using split by (metis append_eq_conv_conj)
  moreover have "p \<noteq> []" if "0 < n" "fr_offset fr < int (length b)"
    using spec(3) that off(1) r(3) res(2) by (simp add: nat_less_iff)
  moreover have "e = (if fr_offset fr + int (length p) < int (length b) then None else Some EndOfFile)"
    using spec(4,5) r(3) off(1) res(3) by (auto simp: not_less nat_le_iff)
  ultimately show "read_right b (fr_offset fr) n p e"
    using spec(2) res(2) by (simp add: read_right_def)
qed

lemma fr_run_right:
  assumes "inv s" "ok cs" "file_at s cs = Some b" "fr_ok (abs_path cs) b fr" "list_all op_int64 ops"
  shows "results_right b (fr_offset fr) ops (fr_run D s fr ops)"
  using assms(4,5)
proof (induction ops arbitrary: fr)
  case (Cons op ops)
  show ?case
  proof (cases op)
    case (ReadOp n)
    obtain fr' p e where r: "fr_Read D s fr n = (fr', p, e)" by (metis prod_cases3)
    note ok = fr_Read_ok [OF assms(1-3) Cons.prems(1) r]
    show ?thesis using Cons.IH [OF ok(1)] Cons.prems(2) ok(2,3) r ReadOp by simp
  next
    case (SeekOp d w)
    obtain fr' t e where r: "fr_Seek fr d w = (fr', t, e)" by (metis prod_cases3)
    have "is_int64 d" using Cons.prems(2) SeekOp by simp
    note ok = fr_Seek_spec [OF Cons.prems(1) this, of w, unfolded r fst_conv snd_conv]
    show ?thesis using Cons.IH [OF ok(1)] Cons.prems(2) ok(2,3) r SeekOp by (simp add: Let_def split: if_splits)
  qed
qed simp

end

section \<open>Properties\<close>

text \<open>
  C27. For a limit from 0 up to two below \<open>2\<^sup>63\<close>, reading with the limit is exact: the bytes returned are
  the content up to the limit, without an error when that is all of it and with the limit error when the
  content is longer, whatever sizes the buffer offers on the way.
\<close>

theorem read_limit_exact:
  assumes "0 \<le> limit" and "limit < 2 ^ 63 - 1"
  shows "readAllLimited bufsz r limit =
    (take (nat limit) r, if int (length r) \<le> limit then None else Some ErrReadLimit)"
  using assms by (rule readAllLimited_iff)

theorem read_limit_exact_witness:
  "readAllLimited (\<lambda>i. i) ''abcd'' 4 = (''abcd'', None) \<and>
   readAllLimited (\<lambda>i. i) ''abcde'' 4 = (''abcd'', Some ErrReadLimit)"
  using read_limit_exact [of 4 "\<lambda>i. i" "''abcd''"] read_limit_exact [of 4 "\<lambda>i. i" "''abcde''"] by simp

text \<open>
  C26. For a file of a store with consistent paths, smaller than \<open>2\<^sup>63\<close> bytes: in any sequence of reads and
  seeks with \<open>int64\<close> offsets, every seek answers with the offset asked for and the next read starts there,
  or, when that offset is negative or not an \<open>int64\<close>, answers with an error and the offset stays; and every
  read returns the content at the current offset, at least one byte while content is left, and reports the
  end of the file exactly when it has been reached.
\<close>

theorem file_reader_returns_content:
  assumes "mem_inv s" and "mem_ok cs" and "mem_file_at s cs = Some b" and "int (length b) < 2 ^ 63"
    and "list_all op_int64 ops"
  shows "results_right b 0 ops (fr_run inmemory_Driver s (newFileReader (abs_path cs) (int (length b))) ops)"
  using inmem.fr_run_right [OF assms(1-3) fr_ok_new [OF assms(4)] assms(5)] by (simp add: newFileReader_def)

theorem file_reader_returns_content_witness:
  "results_right ''hello'' 0 [ReadOp 2, SeekOp (-1) SeekEnd, SeekOp (-9) SeekCurrent, ReadOp 9]
    (fr_run inmemory_Driver (mem_with [([''a'', ''b''], ''hello'')]) (newFileReader ''/a/b'' 5)
      [ReadOp 2, SeekOp (-1) SeekEnd, SeekOp (-9) SeekCurrent, ReadOp 9])"
proof -
  let ?fs = "[([''a'', ''b''], ''hello'')]"
  let ?ops = "[ReadOp 2, SeekOp (-1) SeekEnd, SeekOp (-9) SeekCurrent, ReadOp 9]"
  have ok: "list_all mem_ok (map fst ?fs)" "prefix_free (map fst ?fs)" by code_simp+
  have "mem_ok [''a'', ''b'']" by code_simp
  moreover have "list_all op_int64 ?ops" by (simp add: is_int64_def)
  ultimately show ?thesis
    using file_reader_returns_content [OF mem_with_inv [OF ok], of "[''a'', ''b'']" "''hello''" ?ops]
    by (simp add: mem_with_files [OF ok] abs_path_def del: fr_run.simps results_right.simps)
qed

end
