(* ===== verification/BlobStore.thy ===== *)
theory BlobStore
  imports Storage_IO
begin

text \<open>
  The stores of \<open>registry/storage\<close>: the global blob store (\<open>blobstore.go\<close>), the blob store of a
  repository, which goes through links (\<open>linkedblobstore.go\<close>), and the tag store (\<open>tagstore.go\<close>). A
  store is a set of functions on the state of the driver \<open>D\<close>; what writes returns the new state. The
  statters are the plain ones, without the optional descriptor cache in front. The enumerations,
  which walk the backend in parallel, are in the theory on enumeration.
\<close>

section \<open>The global blob store\<close>

definition blobStore_path :: "digest_pkg \<Rightarrow> digest \<Rightarrow> store_error + string" where
  "blobStore_path P dgst =
     (case spath P (blobDataPathSpec dgst) of Inl e \<Rightarrow> Inl e | Inr bp \<Rightarrow> Inr bp)"

definition blobStatter_Stat ::
    "digest_pkg \<Rightarrow> ('s, 'w) storage_driver \<Rightarrow> 's \<Rightarrow> digest \<Rightarrow> store_error + descriptor" where
  "blobStatter_Stat P D s dgst =
     (case spath P (blobDataPathSpec dgst) of
        Inl e \<Rightarrow> Inl e
      | Inr path \<Rightarrow>
          (case Stat D s path of
             Inl (PathNotFoundError _ _) \<Rightarrow> Inl ErrBlobUnknown
           | Inl e \<Rightarrow> Inl (DriverErr e)
           | Inr fi \<Rightarrow>
               if fi_isdir fi then Inl ErrBlobUnknown
               else Inr \<lparr>MediaType = octet_stream, Size = int (fi_size fi), Digest = dgst\<rparr>))"

definition blobStatter_Clear :: "digest \<Rightarrow> store_error option" where
  "blobStatter_Clear dgst = Some ErrUnsupported"

definition blobStatter_SetDescriptor :: "digest \<Rightarrow> descriptor \<Rightarrow> store_error option" where
  "blobStatter_SetDescriptor dgst desc = Some ErrUnsupported"

definition blobStore_Get ::
    "digest_pkg \<Rightarrow> ('s, 'w) storage_driver \<Rightarrow> 's \<Rightarrow> digest \<Rightarrow> store_error + bytes" where
  "blobStore_Get P D s dgst =
     (case blobStore_path P dgst of
        Inl e \<Rightarrow> Inl e
      | Inr bp \<Rightarrow>
          (case getContent D s bp of
             (_, Some e) \<Rightarrow> if is_not_found e then Inl ErrBlobUnknown else Inl e
           | (p, None) \<Rightarrow> Inr p))"

definition blobStore_Open ::
    "digest_pkg \<Rightarrow> ('s, 'w) storage_driver \<Rightarrow> 's \<Rightarrow> digest \<Rightarrow> store_error + file_reader" where
  "blobStore_Open P D s dgst =
     (case blobStatter_Stat P D s dgst of
        Inl e \<Rightarrow> Inl e
      | Inr desc \<Rightarrow>
          (case blobStore_path P (Digest desc) of
             Inl e \<Rightarrow> Inl e
           | Inr path \<Rightarrow> Inr (newFileReader path (Size desc))))"

definition blobStore_Put ::
    "digest_pkg \<Rightarrow> ('s, 'w) storage_driver \<Rightarrow> 's \<Rightarrow> bytes \<Rightarrow> 's \<times> (store_error + descriptor)" where
  "blobStore_Put P D s p =
     (let dgst = dg_from_bytes P p in
      case blobStatter_Stat P D s dgst of
        Inr desc \<Rightarrow> (s, Inr desc)
      | Inl e \<Rightarrow>
          if e \<noteq> ErrBlobUnknown then (s, Inl e)
          else
            (case blobStore_path P dgst of
               Inl e \<Rightarrow> (s, Inl e)
             | Inr bp \<Rightarrow>
                 (case PutContent D s bp p of
                    (s', Some e) \<Rightarrow> (s', Inl (DriverErr e))
                  | (s', None) \<Rightarrow>
                      (s', Inr \<lparr>MediaType = octet_stream, Size = int (length p), Digest = dgst\<rparr>))))"

definition blobStore_link ::
    "('s, 'w) storage_driver \<Rightarrow> 's \<Rightarrow> string \<Rightarrow> digest \<Rightarrow> 's \<times> store_error option" where
  "blobStore_link D s path dgst = apsnd (map_option DriverErr) (PutContent D s path dgst)"

definition blobStore_readlink ::
    "digest_pkg \<Rightarrow> ('s, 'w) storage_driver \<Rightarrow> 's \<Rightarrow> string \<Rightarrow> store_error + digest" where
  "blobStore_readlink P D s path =
     (case GetContent D s path of
        Inl e \<Rightarrow> Inl (DriverErr e)
      | Inr content \<Rightarrow>
          (case dg_parse P content of
             (linked, Some e) \<Rightarrow> Inl (DigestErr e)
           | (linked, None) \<Rightarrow> Inr linked))"

definition blobStore_resolve ::
    "digest_pkg \<Rightarrow> ('s, 'w) storage_driver \<Rightarrow> 's \<Rightarrow> string \<Rightarrow> store_error + string" where
  "blobStore_resolve P D s path =
     (case blobStore_readlink P D s path of
        Inl e \<Rightarrow> Inl e
      | Inr dgst \<Rightarrow> blobStore_path P dgst)"

section \<open>The blob store of a repository\<close>

type_synonym linkPathFunc = "string \<Rightarrow> digest \<Rightarrow> store_error + string"

definition blobLinkPath :: "digest_pkg \<Rightarrow> linkPathFunc" where
  "blobLinkPath P name dgst = spath P (layerLinkPathSpec name dgst)"

definition manifestRevisionLinkPath :: "digest_pkg \<Rightarrow> linkPathFunc" where
  "manifestRevisionLinkPath P name dgst = spath P (manifestRevisionLinkPathSpec name dgst)"

record linkedBlobStore =
  lbs_name :: string
  lbs_deleteEnabled :: bool
  lbs_resumableDigestEnabled :: bool
  lbs_mirrorFS :: bool
  lbs_linkPathFns :: "linkPathFunc list"
  lbs_linkDirectoryPathSpec :: "pathSpec option"

text \<open>The stores a repository hands out for layers and for manifests (\<open>registry.go\<close>).\<close>

definition repo_Blobs :: "digest_pkg \<Rightarrow> bool \<Rightarrow> bool \<Rightarrow> bool \<Rightarrow> string \<Rightarrow> linkedBlobStore" where
  "repo_Blobs P deleteEnabled resumable mirrorFS name =
     \<lparr>lbs_name = name, lbs_deleteEnabled = deleteEnabled, lbs_resumableDigestEnabled = resumable,
      lbs_mirrorFS = mirrorFS, lbs_linkPathFns = [blobLinkPath P], lbs_linkDirectoryPathSpec = None\<rparr>"

definition repo_Manifests_blobStore :: "digest_pkg \<Rightarrow> bool \<Rightarrow> string \<Rightarrow> linkedBlobStore" where
  "repo_Manifests_blobStore P deleteEnabled name =
     \<lparr>lbs_name = name, lbs_deleteEnabled = deleteEnabled, lbs_resumableDigestEnabled = False,
      lbs_mirrorFS = False, lbs_linkPathFns = [manifestRevisionLinkPath P, blobLinkPath P],
      lbs_linkDirectoryPathSpec = Some (manifestRevisionsPathSpec name)\<rparr>"

definition resolveWithLinkFunc ::
    "digest_pkg \<Rightarrow> ('s, 'w) storage_driver \<Rightarrow> 's \<Rightarrow> string \<Rightarrow> digest \<Rightarrow> linkPathFunc \<Rightarrow> store_error + digest" where
  "resolveWithLinkFunc P D s name dgst linkPathFn =
     (case linkPathFn name dgst of
        Inl e \<Rightarrow> Inl e
      | Inr p \<Rightarrow> blobStore_readlink P D s p)"

fun find_target ::
    "digest_pkg \<Rightarrow> ('s, 'w) storage_driver \<Rightarrow> 's \<Rightarrow> string \<Rightarrow> digest \<Rightarrow> linkPathFunc list \<Rightarrow> store_error + digest" where
  "find_target P D s name dgst [] = Inl ErrBlobUnknown"
| "find_target P D s name dgst (f # fs) =
     (case resolveWithLinkFunc P D s name dgst f of
        Inr target \<Rightarrow> Inr target
      | Inl e \<Rightarrow> if is_not_found e then find_target P D s name dgst fs else Inl e)"

definition linkedBlobStatter_Stat ::
    "digest_pkg \<Rightarrow> ('s, 'w) storage_driver \<Rightarrow> 's \<Rightarrow> linkedBlobStore \<Rightarrow> digest \<Rightarrow> store_error + descriptor" where
  "linkedBlobStatter_Stat P D s lbs dgst =
     (case find_target P D s (lbs_name lbs) dgst (lbs_linkPathFns lbs) of
        Inl e \<Rightarrow> Inl e
      | Inr target \<Rightarrow> blobStatter_Stat P D s target)"

fun clear_links ::
    "('s, 'w) storage_driver \<Rightarrow> 's \<Rightarrow> string \<Rightarrow> digest \<Rightarrow> linkPathFunc list \<Rightarrow> 's \<times> store_error option" where
  "clear_links D s name dgst [] = (s, None)"
| "clear_links D s name dgst (f # fs) =
     (case f name dgst of
        Inl e \<Rightarrow> (s, Some e)
      | Inr p \<Rightarrow>
          (case Delete D s p of
             (s', None) \<Rightarrow> clear_links D s' name dgst fs
           | (s', Some (PathNotFoundError _ _)) \<Rightarrow> clear_links D s' name dgst fs
           | (s', Some e) \<Rightarrow> (s', Some (DriverErr e))))"

definition linkedBlobStatter_Clear ::
    "('s, 'w) storage_driver \<Rightarrow> 's \<Rightarrow> linkedBlobStore \<Rightarrow> digest \<Rightarrow> 's \<times> store_error option" where
  "linkedBlobStatter_Clear D s lbs dgst = clear_links D s (lbs_name lbs) dgst (lbs_linkPathFns lbs)"

definition linkedBlobStatter_SetDescriptor :: "digest \<Rightarrow> descriptor \<Rightarrow> store_error option" where
  "linkedBlobStatter_SetDescriptor dgst desc = None"

definition lbs_Stat ::
    "digest_pkg \<Rightarrow> ('s, 'w) storage_driver \<Rightarrow> 's \<Rightarrow> linkedBlobStore \<Rightarrow> digest \<Rightarrow> store_error + descriptor" where
  "lbs_Stat P D s lbs dgst = linkedBlobStatter_Stat P D s lbs dgst"

definition lbs_Get ::
    "digest_pkg \<Rightarrow> ('s, 'w) storage_driver \<Rightarrow> 's \<Rightarrow> linkedBlobStore \<Rightarrow> digest \<Rightarrow> store_error + bytes" where
  "lbs_Get P D s lbs dgst =
     (case lbs_Stat P D s lbs dgst of
        Inl e \<Rightarrow> Inl e
      | Inr canonical \<Rightarrow> blobStore_Get P D s (Digest canonical))"

definition lbs_Open ::
    "digest_pkg \<Rightarrow> ('s, 'w) storage_driver \<Rightarrow> 's \<Rightarrow> linkedBlobStore \<Rightarrow> digest \<Rightarrow> store_error + file_reader" where
  "lbs_Open P D s lbs dgst =
     (case lbs_Stat P D s lbs dgst of
        Inl e \<Rightarrow> Inl e
      | Inr canonical \<Rightarrow> blobStore_Open P D s (Digest canonical))"

text \<open>The loop of \<open>linkBlob\<close>, with the digests already seen; \<open>linkPathFns[0]\<close> panics on no functions.\<close>

fun link_digests ::
    "('s, 'w) storage_driver \<Rightarrow> 's \<Rightarrow> string \<Rightarrow> linkPathFunc \<Rightarrow> digest \<Rightarrow> digest set \<Rightarrow> digest list
     \<Rightarrow> 's \<times> store_error option" where
  "link_digests D s name f target seen [] = (s, None)"
| "link_digests D s name f target seen (dgst # dgsts) =
     (if dgst \<in> seen then link_digests D s name f target seen dgsts
      else
        (case f name dgst of
           Inl e \<Rightarrow> (s, Some e)
         | Inr p \<Rightarrow>
             (case blobStore_link D s p target of
                (s', Some e) \<Rightarrow> (s', Some e)
              | (s', None) \<Rightarrow> link_digests D s' name f target (insert dgst seen) dgsts)))"

definition linkBlob ::
    "('s, 'w) storage_driver \<Rightarrow> 's \<Rightarrow> linkedBlobStore \<Rightarrow> descriptor \<Rightarrow> digest list \<Rightarrow> 's \<times> store_error option" where
  "linkBlob D s lbs canonical aliases =
     (case lbs_linkPathFns lbs of
        [] \<Rightarrow> (s, Some Panicked)
      | linkPathFn # _ \<Rightarrow>
          link_digests D s (lbs_name lbs) linkPathFn (Digest canonical) {} (Digest canonical # aliases))"

definition lbs_Put ::
    "digest_pkg \<Rightarrow> ('s, 'w) storage_driver \<Rightarrow> 's \<Rightarrow> linkedBlobStore \<Rightarrow> bytes \<Rightarrow> 's \<times> (store_error + descriptor)" where
  "lbs_Put P D s lbs p =
     (case blobStore_Put P D s p of
        (s', Inl e) \<Rightarrow> (s', Inl e)
      | (s', Inr desc) \<Rightarrow>
          (case linkedBlobStatter_SetDescriptor (dg_from_bytes P p) desc of
             Some e \<Rightarrow> (s', Inl e)
           | None \<Rightarrow>
               (case linkBlob D s' lbs desc [] of
                  (s'', Some e) \<Rightarrow> (s'', Inl e)
                | (s'', None) \<Rightarrow> (s'', Inr desc))))"

definition lbs_Delete ::
    "digest_pkg \<Rightarrow> ('s, 'w) storage_driver \<Rightarrow> 's \<Rightarrow> linkedBlobStore \<Rightarrow> digest \<Rightarrow> 's \<times> store_error option" where
  "lbs_Delete P D s lbs dgst =
     (if \<not> lbs_deleteEnabled lbs then (s, Some ErrUnsupported)
      else
        (case lbs_Stat P D s lbs dgst of
           Inl e \<Rightarrow> (s, Some e)
         | Inr _ \<Rightarrow>
             (case linkedBlobStatter_Clear D s lbs dgst of
                (s', Some e) \<Rightarrow> (s', Some e)
              | (s', None) \<Rightarrow> (s', None))))"

text \<open>
  \<open>mount\<close>: without a descriptor of the source, the blob is looked up in the source repository's
  layer store.
\<close>

definition lbs_mount ::
    "digest_pkg \<Rightarrow> ('s, 'w) storage_driver \<Rightarrow> 's \<Rightarrow> linkedBlobStore \<Rightarrow> linkedBlobStore \<Rightarrow> digest
     \<Rightarrow> descriptor option \<Rightarrow> 's \<times> (store_error + descriptor)" where
  "lbs_mount P D s lbs source dgst sourceStat =
     (case (case sourceStat of None \<Rightarrow> lbs_Stat P D s source dgst | Some st \<Rightarrow> Inr st) of
        Inl e \<Rightarrow> (s, Inl e)
      | Inr stat \<Rightarrow>
          let desc = \<lparr>MediaType = octet_stream, Size = Size stat, Digest = dgst\<rparr> in
          (case linkBlob D s lbs desc [] of
             (s', Some e) \<Rightarrow> (s', Inl e)
           | (s', None) \<Rightarrow> (s', Inr desc)))"

section \<open>The tag store\<close>

definition ts_linkedBlobStore :: "digest_pkg \<Rightarrow> string \<Rightarrow> string \<Rightarrow> linkedBlobStore" where
  "ts_linkedBlobStore P name tag =
     \<lparr>lbs_name = name, lbs_deleteEnabled = False, lbs_resumableDigestEnabled = False, lbs_mirrorFS = False,
      lbs_linkPathFns = [\<lambda>name dgst. spath P (manifestTagIndexEntryLinkPathSpec name tag dgst)],
      lbs_linkDirectoryPathSpec = None\<rparr>"

definition ts_All ::
    "digest_pkg \<Rightarrow> ('s, 'w) storage_driver \<Rightarrow> 's \<Rightarrow> string \<Rightarrow> store_error + string list" where
  "ts_All P D s name =
     (case spath P (manifestTagPathSpec name []) of
        Inl e \<Rightarrow> Inl e
      | Inr p \<Rightarrow>
          (case ListDir D s p of
             Inl (PathNotFoundError _ _) \<Rightarrow> Inl (ErrRepositoryUnknown name)
           | Inl e \<Rightarrow> Inl (DriverErr e)
           | Inr entries \<Rightarrow> Inr (map (\<lambda>entry. snd (path_split entry)) entries)))"

definition ts_exists ::
    "digest_pkg \<Rightarrow> ('s, 'w) storage_driver \<Rightarrow> 's \<Rightarrow> string \<Rightarrow> string \<Rightarrow> store_error + bool" where
  "ts_exists P D s name tag =
     (case spath P (manifestTagCurrentPathSpec name tag) of
        Inl e \<Rightarrow> Inl e
      | Inr tagPath \<Rightarrow> path_exists D s tagPath)"

definition ts_Tag ::
    "digest_pkg \<Rightarrow> ('s, 'w) storage_driver \<Rightarrow> 's \<Rightarrow> string \<Rightarrow> string \<Rightarrow> descriptor \<Rightarrow> 's \<times> store_error option" where
  "ts_Tag P D s name tag desc =
     (case spath P (manifestTagCurrentPathSpec name tag) of
        Inl e \<Rightarrow> (s, Some e)
      | Inr currentPath \<Rightarrow>
          (case linkBlob D s (ts_linkedBlobStore P name tag) desc [] of
             (s', Some e) \<Rightarrow> (s', Some e)
           | (s', None) \<Rightarrow> blobStore_link D s' currentPath (Digest desc)))"

definition ts_Get ::
    "digest_pkg \<Rightarrow> ('s, 'w) storage_driver \<Rightarrow> 's \<Rightarrow> string \<Rightarrow> string \<Rightarrow> store_error + digest" where
  "ts_Get P D s name tag =
     (case spath P (manifestTagCurrentPathSpec name tag) of
        Inl e \<Rightarrow> Inl e
      | Inr currentPath \<Rightarrow>
          (case blobStore_readlink P D s currentPath of
             Inl e \<Rightarrow> if is_not_found e then Inl (ErrTagUnknown tag) else Inl e
           | Inr revision \<Rightarrow> Inr revision))"

definition ts_Untag ::
    "digest_pkg \<Rightarrow> ('s, 'w) storage_driver \<Rightarrow> 's \<Rightarrow> string \<Rightarrow> string \<Rightarrow> 's \<times> store_error option" where
  "ts_Untag P D s name tag =
     (case spath P (repositoryRootPathSpec name) of
        Inl e \<Rightarrow> (s, Some e)
      | Inr repoPath \<Rightarrow>
          (case path_exists D s repoPath of
             Inl e \<Rightarrow> (s, Some e)
           | Inr False \<Rightarrow> (s, Some (ErrRepositoryUnknown name))
           | Inr True \<Rightarrow>
               (case spath P (manifestTagPathSpec name tag) of
                  Inl e \<Rightarrow> (s, Some e)
                | Inr tagPath \<Rightarrow> apsnd (map_option DriverErr) (Delete D s tagPath))))"

text \<open>The loop of \<open>Lookup\<close>. It ignores the error of \<open>pathFor\<close>, whose path is then empty.\<close>

fun lookup_tags ::
    "digest_pkg \<Rightarrow> ('s, 'w) storage_driver \<Rightarrow> 's \<Rightarrow> string \<Rightarrow> digest \<Rightarrow> string list \<Rightarrow> store_error + string list" where
  "lookup_tags P D s name dgst [] = Inr []"
| "lookup_tags P D s name dgst (tag # rest) =
     (let tagLinkPath = (case spath P (manifestTagCurrentPathSpec name tag) of Inl _ \<Rightarrow> [] | Inr p \<Rightarrow> p) in
      case blobStore_readlink P D s tagLinkPath of
        Inl e \<Rightarrow> if is_not_found e then lookup_tags P D s name dgst rest else Inl e
      | Inr tagDigest \<Rightarrow>
          map_sum id (\<lambda>tags. if tagDigest = dgst then tag # tags else tags) (lookup_tags P D s name dgst rest))"

definition ts_Lookup ::
    "digest_pkg \<Rightarrow> ('s, 'w) storage_driver \<Rightarrow> 's \<Rightarrow> string \<Rightarrow> digest \<Rightarrow> store_error + string list" where
  "ts_Lookup P D s name dgst =
     (case ts_All P D s name of
        Inl (ErrRepositoryUnknown _) \<Rightarrow> Inr []
      | Inl e \<Rightarrow> Inl e
      | Inr allTags \<Rightarrow> lookup_tags P D s name dgst allTags)"

end
