(* ===== verification/Layout.thy ===== *)
theory Layout
  imports BlobStore
begin

text \<open>
  What the storage of a registry looks like: every file lies at the path of one of the path
  specifications that name a file, and every directory is on the way to such a path. No file path
  leads through another one, so a file can always be written at its place. In the contract of a
  storage driver these facts turn the driver's operations into updates of a map from specifications
  to contents.
\<close>

section \<open>Specifications that name files\<close>

fun leaf :: "pathSpec \<Rightarrow> bool" where
  "leaf (manifestRevisionLinkPathSpec _ _) = True"
| "leaf (manifestTagCurrentPathSpec _ _) = True"
| "leaf (manifestTagIndexEntryLinkPathSpec _ _ _) = True"
| "leaf (layerLinkPathSpec _ _) = True"
| "leaf (blobDataPathSpec _) = True"
| "leaf (uploadDataPathSpec _ _) = True"
| "leaf (uploadStartedAtPathSpec _ _) = True"
| "leaf (uploadHashStatePathSpec _ _ _ _ list) = (\<not> list)"
| "leaf _ = False"

text \<open>The length of a file path can be read off its beginning.\<close>

definition leaf_len :: "string list \<Rightarrow> nat" where
  "leaf_len cs =
     (if cs ! 3 = ''blobs'' then 8
      else let (ns, t) = split_name (drop 4 cs) in
        4 + length ns +
          (if t ! 0 = ''_layers'' then 4
           else if t ! 0 = ''_uploads'' then if t ! 2 = ''hashstates'' then 5 else 3
           else if t ! 1 = ''revisions'' then 5
           else if t ! 3 = ''current'' then 5 else 7))"

lemma leaf_len_comps:
  assumes "leaf spec" "spec_ok P spec"
  shows "leaf_len (spec_comps P spec @ r) = length (spec_comps P spec)"
  using assms
  by (cases spec) (simp_all add: leaf_len_def spec_comps_def repo_comps_def blob_comps_def split_name_repo)

lemma leaf_prefix:
  assumes "leaf s" "spec_ok P s" "leaf t" "spec_ok P t"
    and "spec_comps P t = spec_comps P s @ r"
  shows "r = []"
  using leaf_len_comps [OF assms(1,2), of r] leaf_len_comps [OF assms(3,4), of "[]"] assms(5) by simp

lemma leaf_comps_inj:
  assumes "valid_registered P" "valid_splits P" "spec_ok P s" "spec_ok P t"
  shows "spec_comps P s = spec_comps P t \<longleftrightarrow> s = t"
  using spec_of_spec_comps [OF assms(1,2,3)] spec_of_spec_comps [OF assms(1,2,4)] by metis

section \<open>The layout\<close>

definition layout_ok ::
    "digest_pkg \<Rightarrow> ('s \<Rightarrow> string list \<Rightarrow> bytes option) \<Rightarrow> ('s \<Rightarrow> string list \<Rightarrow> bool) \<Rightarrow> 's \<Rightarrow> bool" where
  "layout_ok P file_at dir_at s \<longleftrightarrow>
     (\<forall>cs. file_at s cs \<noteq> None \<longrightarrow> (\<exists>spec. leaf spec \<and> spec_ok P spec \<and> cs = spec_comps P spec)) \<and>
     (\<forall>cs. dir_at s cs \<longrightarrow> (\<exists>spec n. leaf spec \<and> spec_ok P spec \<and> n < length (spec_comps P spec) \<and>
        cs = take n (spec_comps P spec)))"

lemma layout_fileE:
  assumes "layout_ok P file_at dir_at s" "file_at s cs \<noteq> None"
  obtains spec where "leaf spec" "spec_ok P spec" "cs = spec_comps P spec"
  using assms by (auto simp: layout_ok_def)

lemma layout_dirE:
  assumes "layout_ok P file_at dir_at s" "dir_at s cs"
  obtains spec n where "leaf spec" "spec_ok P spec" "n < length (spec_comps P spec)"
    "cs = take n (spec_comps P spec)"
  using assms unfolding layout_ok_def by blast

lemma layout_leaf:
  assumes "layout_ok P file_at dir_at s" "leaf spec" "spec_ok P spec"
  shows "\<not> dir_at s (spec_comps P spec)"
    and "n < length (spec_comps P spec) \<Longrightarrow> file_at s (take n (spec_comps P spec)) = None"
proof -
  show "\<not> dir_at s (spec_comps P spec)"
  proof
    assume "dir_at s (spec_comps P spec)"
    then obtain t m where t: "leaf t" "spec_ok P t" "m < length (spec_comps P t)"
      "spec_comps P spec = take m (spec_comps P t)"
      by (rule layout_dirE [OF assms(1)])
    then have "spec_comps P t = spec_comps P spec @ drop m (spec_comps P t)" by simp
    from leaf_prefix [OF assms(2,3) t(1,2) this] t(3) show False by simp
  qed
  show "file_at s (take n (spec_comps P spec)) = None" if n: "n < length (spec_comps P spec)"
  proof (rule ccontr)
    assume "file_at s (take n (spec_comps P spec)) \<noteq> None"
    then obtain t where t: "leaf t" "spec_ok P t" "take n (spec_comps P spec) = spec_comps P t"
      by (rule layout_fileE [OF assms(1)])
    then have "spec_comps P spec = spec_comps P t @ drop n (spec_comps P spec)"
      by (metis append_take_drop_id)
    from leaf_prefix [OF t(1,2) assms(2,3) this] n show False by simp
  qed
qed

lemma layout_below:
  assumes "layout_ok P file_at dir_at s" "leaf spec" "spec_ok P spec"
    and pre: "take (length (spec_comps P spec)) ds = spec_comps P spec"
  shows "file_at s ds \<noteq> None \<Longrightarrow> ds = spec_comps P spec" and "\<not> dir_at s ds"
proof -
  have eq: "ds = spec_comps P spec @ drop (length (spec_comps P spec)) ds"
    using pre by (metis append_take_drop_id)
  show "ds = spec_comps P spec" if h: "file_at s ds \<noteq> None"
  proof -
    obtain t where t: "leaf t" "spec_ok P t" "ds = spec_comps P t" by (rule layout_fileE [OF assms(1) h])
    with leaf_prefix [OF assms(2,3) t(1,2)] eq show ?thesis by (metis append.right_neutral)
  qed
  show "\<not> dir_at s ds"
  proof
    assume "dir_at s ds"
    then obtain t m where t: "leaf t" "spec_ok P t" "m < length (spec_comps P t)" "ds = take m (spec_comps P t)"
      by (rule layout_dirE [OF assms(1)])
    then have "spec_comps P t = spec_comps P spec @ drop (length (spec_comps P spec)) ds @ drop m (spec_comps P t)"
      using eq by (metis append_assoc append_take_drop_id)
    from leaf_prefix [OF assms(2,3) t(1,2) this] t(3) show False by simp
  qed
qed

text \<open>The content stored for a specification.\<close>

abbreviation content_at ::
    "digest_pkg \<Rightarrow> ('s \<Rightarrow> string list \<Rightarrow> bytes option) \<Rightarrow> 's \<Rightarrow> pathSpec \<Rightarrow> bytes option" where
  "content_at P file_at s spec \<equiv> file_at s (spec_comps P spec)"

lemma spath_ok: "valid_registered P \<Longrightarrow> spec_ok P spec \<Longrightarrow> spath P spec = Inr (abs_path (spec_comps P spec))"
  by (simp add: spath_def pathFor_comps)

section \<open>Storing files by their specification\<close>

context lawful_driver
begin

lemma get_leaf:
  assumes "inv s" "layout_ok P file_at dir_at s" "leaf spec" "spec_ok P spec" "ok (spec_comps P spec)"
  shows "GetContent D s (abs_path (spec_comps P spec)) =
    (case content_at P file_at s spec of
       Some b \<Rightarrow> Inr b
     | None \<Rightarrow> Inl (PathNotFoundError (abs_path (spec_comps P spec)) (Name D)))"
  using get_file [OF assms(1,5)] get_absent [OF assms(1,5)] layout_leaf(1) [OF assms(2-4)]
  by (auto simp: entry_at_def split: option.split)

lemma stat_leaf:
  assumes "inv s" "layout_ok P file_at dir_at s" "leaf spec" "spec_ok P spec" "ok (spec_comps P spec)"
  shows "\<exists>m. Stat D s (abs_path (spec_comps P spec)) =
    (case content_at P file_at s spec of
       Some b \<Rightarrow> Inr \<lparr>fi_path = abs_path (spec_comps P spec), fi_size = length b, fi_modtime = m, fi_isdir = False\<rparr>
     | None \<Rightarrow> Inl (PathNotFoundError (abs_path (spec_comps P spec)) (Name D)))"
  using stat_file [OF assms(1,5)] stat_absent [OF assms(1,5)] layout_leaf(1) [OF assms(2-4)]
  by (cases "content_at P file_at s spec") (auto simp: entry_at_def)

lemma read_leaf:
  assumes "inv s" "ok (spec_comps P spec)" "content_at P file_at s spec = Some b"
  shows "getContent D s (abs_path (spec_comps P spec)) =
    (take (nat maxBlobGetSize) b, if int (length b) \<le> maxBlobGetSize then None else Some ErrReadLimit)"
  using reader_file [OF assms, of 0] by (simp add: getContent_eq)

lemma put_leaf:
  assumes "inv s" "layout_ok P file_at dir_at s" "leaf spec" "spec_ok P spec" "ok (spec_comps P spec)"
  shows "\<exists>s'. PutContent D s (abs_path (spec_comps P spec)) b = (s', None) \<and> inv s' \<and>
    layout_ok P file_at dir_at s' \<and> file_at s' = (file_at s)(spec_comps P spec \<mapsto> b) \<and>
    (\<forall>ds. dir_at s' ds \<longleftrightarrow> dir_at s ds \<or> (\<exists>n < length (spec_comps P spec). ds = take n (spec_comps P spec)))"
proof -
  have "can_put file_at dir_at s (spec_comps P spec)"
    using layout_leaf [OF assms(2-4)] by (simp add: can_put_def)
  from put_file [OF assms(1,5) this] obtain s' where
    s': "PutContent D s (abs_path (spec_comps P spec)) b = (s', None)" "inv s'"
      "file_at s' = (file_at s)(spec_comps P spec \<mapsto> b)"
    and d: "\<forall>ds. dir_at s' ds \<longleftrightarrow> dir_at s ds \<or> (\<exists>n < length (spec_comps P spec). ds = take n (spec_comps P spec))"
    by blast
  have "layout_ok P file_at dir_at s'"
    unfolding layout_ok_def
  proof (intro conjI allI impI)
    fix cs assume "file_at s' cs \<noteq> None"
    then have "cs = spec_comps P spec \<or> file_at s cs \<noteq> None" using s'(3) by auto
    then show "\<exists>spec. leaf spec \<and> spec_ok P spec \<and> cs = spec_comps P spec"
      using assms(3,4) layout_fileE [OF assms(2)] by metis
  next
    fix cs assume "dir_at s' cs"
    then consider "dir_at s cs" | n where "n < length (spec_comps P spec)" "cs = take n (spec_comps P spec)"
      using d by blast
    then show "\<exists>spec n. leaf spec \<and> spec_ok P spec \<and> n < length (spec_comps P spec) \<and> cs = take n (spec_comps P spec)"
    proof cases
      case 1
      then show ?thesis by (rule layout_dirE [OF assms(2)]) blast
    next
      case 2
      then show ?thesis using assms(3,4) by blast
    qed
  qed
  with s' d show ?thesis by blast
qed

lemma layout_mono:
  assumes "layout_ok P file_at dir_at s"
    and "\<And>cs. file_at s' cs \<noteq> None \<Longrightarrow> file_at s cs \<noteq> None" "\<And>cs. dir_at s' cs \<Longrightarrow> dir_at s cs"
  shows "layout_ok P file_at dir_at s'"
  using assms unfolding layout_ok_def by blast

lemma delete_leaf:
  assumes "inv s" "layout_ok P file_at dir_at s" "leaf spec" "spec_ok P spec" "ok (spec_comps P spec)"
  shows "\<exists>s'. Delete D s (abs_path (spec_comps P spec)) =
      (s', if content_at P file_at s spec = None
           then Some (PathNotFoundError (abs_path (spec_comps P spec)) (Name D)) else None) \<and>
    inv s' \<and> layout_ok P file_at dir_at s' \<and> file_at s' = (file_at s)(spec_comps P spec := None) \<and>
    dir_at s' = dir_at s"
proof (cases "content_at P file_at s spec")
  case None
  let ?cs = "spec_comps P spec"
  have "?cs \<noteq> []" using ok_comps [OF assms(5)] by (simp add: comps_ok_def)
  then have "file_at s (butlast ?cs) = None"
    using layout_leaf(2) [OF assms(2-4), of "length ?cs - 1"] by (simp add: butlast_conv_take)
  then have "Delete D s (abs_path ?cs) = (s, Some (PathNotFoundError (abs_path ?cs) (Name D)))"
    using delete_absent [OF assms(1,5)] None layout_leaf(1) [OF assms(2-4)] by (simp add: entry_at_def)
  then show ?thesis using None assms(1,2) by (simp add: fun_upd_idem)
next
  case (Some b)
  let ?cs = "spec_comps P spec"
  from delete_entry [OF assms(1,5)] Some obtain s' where s': "Delete D s (abs_path ?cs) = (s', None)" "inv s'"
    and f: "\<And>ds. file_at s' ds = (if take (length ?cs) ds = ?cs then None else file_at s ds)"
    and d: "\<And>ds. dir_at s' ds \<longleftrightarrow> dir_at s ds \<and> take (length ?cs) ds \<noteq> ?cs"
    by (auto simp: entry_at_def)
  note below = layout_below [OF assms(2-4)]
  have "file_at s' = (file_at s)(?cs := None)"
  proof
    fix ds show "file_at s' ds = ((file_at s)(?cs := None)) ds"
      using f [of ds] below(1) [of ds] by (cases "file_at s ds") auto
  qed
  moreover have "dir_at s' = dir_at s" using d below(2) by (auto simp: fun_eq_iff)
  moreover from calculation have "layout_ok P file_at dir_at s'"
    by (intro layout_mono [OF assms(2)]) (auto split: if_splits)
  ultimately show ?thesis using s' Some by auto
qed

end

end
