(* ===== verification/Registry_Store.thy ===== *)
theory Registry_Store
  imports Layout
begin

text \<open>
  The repository stores against an abstract registry. The abstract registry has a global map from
  digests to contents, and per repository the links of its layers and of its manifest revisions and
  its tags, all of them maps to digests. The lemmas compute what each operation of the stores reads
  and writes in a store that keeps the layout; the property is that every sequence of requests gives
  the answers of the abstract registry.
\<close>

section \<open>The abstract registry\<close>

record areg =
  a_blobs :: "digest \<Rightarrow> bytes option"
  a_layers :: "string \<Rightarrow> digest \<Rightarrow> digest option"
  a_revisions :: "string \<Rightarrow> digest \<Rightarrow> digest option"
  a_tags :: "string \<Rightarrow> string \<Rightarrow> digest option"

datatype request =
    PutBlob string bytes
  | GetBlob string digest
  | StatBlob string digest
  | DeleteBlob string digest
  | MountBlob string string digest
  | PutManifest string bytes
  | GetManifest string digest
  | DeleteManifest string digest
  | PutTag string string digest
  | GetTag string string

datatype response =
    Accepted
  | Described digest nat
  | Content bytes
  | Resolved digest
  | TooLarge
  | UnknownBlob
  | UnknownTag
  | Rejected store_error

text \<open>A blob is visible through a link whose target is stored.\<close>

definition visible :: "areg \<Rightarrow> digest option \<Rightarrow> (digest \<times> bytes) option" where
  "visible a l = (case l of None \<Rightarrow> None | Some t \<Rightarrow> map_option (Pair t) (a_blobs a t))"

definition manifest_link :: "areg \<Rightarrow> string \<Rightarrow> digest \<Rightarrow> digest option" where
  "manifest_link a n d = (case a_revisions a n d of Some t \<Rightarrow> Some t | None \<Rightarrow> a_layers a n d)"

definition add_blob :: "areg \<Rightarrow> digest \<Rightarrow> bytes \<Rightarrow> areg" where
  "add_blob a d p = (if a_blobs a d = None then a\<lparr>a_blobs := (a_blobs a)(d \<mapsto> p)\<rparr> else a)"

definition set_link :: "(string \<Rightarrow> digest \<Rightarrow> digest option) \<Rightarrow> string \<Rightarrow> digest \<Rightarrow> digest option \<Rightarrow> (string \<Rightarrow> digest \<Rightarrow> digest option)" where
  "set_link l n d t = l(n := (l n)(d := t))"

definition content_answer :: "(digest \<times> bytes) option \<Rightarrow> response" where
  "content_answer v = (case v of None \<Rightarrow> UnknownBlob
     | Some (t, b) \<Rightarrow> if int (length b) \<le> maxBlobGetSize then Content b else TooLarge)"

fun areg_step :: "digest_pkg \<Rightarrow> request \<Rightarrow> areg \<Rightarrow> areg \<times> response" where
  "areg_step P (PutBlob n p) a =
     (let d = dg_from_bytes P p; a' = add_blob a d p in
      (a'\<lparr>a_layers := set_link (a_layers a') n d (Some d)\<rparr>, Described d (length (the (a_blobs a' d)))))"
| "areg_step P (GetBlob n d) a = (a, content_answer (visible a (a_layers a n d)))"
| "areg_step P (StatBlob n d) a =
     (a, case visible a (a_layers a n d) of None \<Rightarrow> UnknownBlob | Some (t, b) \<Rightarrow> Described t (length b))"
| "areg_step P (DeleteBlob n d) a =
     (case visible a (a_layers a n d) of
        None \<Rightarrow> (a, UnknownBlob)
      | Some _ \<Rightarrow> (a\<lparr>a_layers := set_link (a_layers a) n d None\<rparr>, Accepted))"
| "areg_step P (MountBlob n src d) a =
     (case visible a (a_layers a src d) of
        None \<Rightarrow> (a, UnknownBlob)
      | Some (t, b) \<Rightarrow> (a\<lparr>a_layers := set_link (a_layers a) n d (Some d)\<rparr>, Described d (length b)))"
| "areg_step P (PutManifest n p) a =
     (let d = dg_from_bytes P p; a' = add_blob a d p in
      (a'\<lparr>a_revisions := set_link (a_revisions a') n d (Some d)\<rparr>, Described d (length (the (a_blobs a' d)))))"
| "areg_step P (GetManifest n d) a = (a, content_answer (visible a (manifest_link a n d)))"
| "areg_step P (DeleteManifest n d) a =
     (case visible a (manifest_link a n d) of
        None \<Rightarrow> (a, UnknownBlob)
      | Some _ \<Rightarrow>
          (a\<lparr>a_revisions := set_link (a_revisions a) n d None, a_layers := set_link (a_layers a) n d None\<rparr>, Accepted))"
| "areg_step P (PutTag n t d) a = (a\<lparr>a_tags := set_link (a_tags a) n t (Some d)\<rparr>, Accepted)"
| "areg_step P (GetTag n t) a = (a, case a_tags a n t of None \<Rightarrow> UnknownTag | Some d \<Rightarrow> Resolved d)"

section \<open>The requests on the stores\<close>

fun answer :: "store_error \<Rightarrow> response" where
  "answer ErrBlobUnknown = UnknownBlob"
| "answer ErrReadLimit = TooLarge"
| "answer (ErrTagUnknown _) = UnknownTag"
| "answer e = Rejected e"

definition finished :: "store_error option \<Rightarrow> response" where
  "finished e = (case e of None \<Rightarrow> Accepted | Some e \<Rightarrow> answer e)"

definition described :: "store_error + descriptor \<Rightarrow> response" where
  "described r = (case r of Inl e \<Rightarrow> answer e | Inr desc \<Rightarrow> Described (Digest desc) (nat (Size desc)))"

definition fetched :: "store_error + bytes \<Rightarrow> response" where
  "fetched r = (case r of Inl e \<Rightarrow> answer e | Inr b \<Rightarrow> Content b)"

abbreviation layer_store :: "digest_pkg \<Rightarrow> string \<Rightarrow> linkedBlobStore" where
  "layer_store P n \<equiv> repo_Blobs P True False True n"

abbreviation revision_store :: "digest_pkg \<Rightarrow> string \<Rightarrow> linkedBlobStore" where
  "revision_store P n \<equiv> repo_Manifests_blobStore P True n"

fun reg_step ::
    "digest_pkg \<Rightarrow> ('s, 'w) storage_driver \<Rightarrow> request \<Rightarrow> 's \<Rightarrow> 's \<times> response" where
  "reg_step P D (PutBlob n p) s = apsnd described (lbs_Put P D s (layer_store P n) p)"
| "reg_step P D (GetBlob n d) s = (s, fetched (lbs_Get P D s (layer_store P n) d))"
| "reg_step P D (StatBlob n d) s = (s, described (lbs_Stat P D s (layer_store P n) d))"
| "reg_step P D (DeleteBlob n d) s = apsnd finished (lbs_Delete P D s (layer_store P n) d)"
| "reg_step P D (MountBlob n src d) s =
     apsnd described (lbs_mount P D s (layer_store P n) (layer_store P src) d None)"
| "reg_step P D (PutManifest n p) s = apsnd described (lbs_Put P D s (revision_store P n) p)"
| "reg_step P D (GetManifest n d) s = (s, fetched (lbs_Get P D s (revision_store P n) d))"
| "reg_step P D (DeleteManifest n d) s = apsnd finished (lbs_Delete P D s (revision_store P n) d)"
| "reg_step P D (PutTag n t d) s =
     apsnd finished (ts_Tag P D s n t \<lparr>MediaType = [], Size = 0, Digest = d\<rparr>)"
| "reg_step P D (GetTag n t) s =
     (s, case ts_Get P D s n t of Inl e \<Rightarrow> answer e | Inr d \<Rightarrow> Resolved d)"

text \<open>The specifications a request touches; the blobs it reads through links are not among them.\<close>

fun touched :: "digest_pkg \<Rightarrow> request \<Rightarrow> pathSpec list" where
  "touched P (PutBlob n p) = [layerLinkPathSpec n (dg_from_bytes P p)]"
| "touched P (GetBlob n d) = [layerLinkPathSpec n d]"
| "touched P (StatBlob n d) = [layerLinkPathSpec n d]"
| "touched P (DeleteBlob n d) = [layerLinkPathSpec n d]"
| "touched P (MountBlob n src d) = [layerLinkPathSpec n d, layerLinkPathSpec src d]"
| "touched P (PutManifest n p) = [manifestRevisionLinkPathSpec n (dg_from_bytes P p)]"
| "touched P (GetManifest n d) = [manifestRevisionLinkPathSpec n d, layerLinkPathSpec n d]"
| "touched P (DeleteManifest n d) = [manifestRevisionLinkPathSpec n d, layerLinkPathSpec n d]"
| "touched P (PutTag n t d) = [manifestTagCurrentPathSpec n t, manifestTagIndexEntryLinkPathSpec n t d]"
| "touched P (GetTag n t) = [manifestTagCurrentPathSpec n t]"

definition request_ok :: "digest_pkg \<Rightarrow> (string list \<Rightarrow> bool) \<Rightarrow> request \<Rightarrow> bool" where
  "request_ok P ok r \<longleftrightarrow> list_all (\<lambda>spec. spec_ok P spec \<and> ok (spec_comps P spec)) (touched P r)"

fun is_link :: "pathSpec \<Rightarrow> bool" where
  "is_link (manifestRevisionLinkPathSpec _ _) = True"
| "is_link (manifestTagCurrentPathSpec _ _) = True"
| "is_link (layerLinkPathSpec _ _) = True"
| "is_link _ = False"

definition reg_inv ::
    "digest_pkg \<Rightarrow> ('s \<Rightarrow> bool) \<Rightarrow> ('s \<Rightarrow> string list \<Rightarrow> bytes option) \<Rightarrow> ('s \<Rightarrow> string list \<Rightarrow> bool) \<Rightarrow> 's \<Rightarrow> bool" where
  "reg_inv P iv file_at dir_at s \<longleftrightarrow> iv s \<and> layout_ok P file_at dir_at s \<and>
     (\<forall>spec b. is_link spec \<longrightarrow> spec_ok P spec \<longrightarrow> content_at P file_at s spec = Some b \<longrightarrow> dg_validate P b = None)"

definition reg_abs :: "digest_pkg \<Rightarrow> ('s \<Rightarrow> string list \<Rightarrow> bytes option) \<Rightarrow> 's \<Rightarrow> areg" where
  "reg_abs P file_at s =
     \<lparr>a_blobs = (\<lambda>d. if dg_validate P d = None then content_at P file_at s (blobDataPathSpec d) else None),
      a_layers = (\<lambda>n d. if spec_ok P (layerLinkPathSpec n d)
        then content_at P file_at s (layerLinkPathSpec n d) else None),
      a_revisions = (\<lambda>n d. if spec_ok P (manifestRevisionLinkPathSpec n d)
        then content_at P file_at s (manifestRevisionLinkPathSpec n d) else None),
      a_tags = (\<lambda>n t. if spec_ok P (manifestTagCurrentPathSpec n t)
        then content_at P file_at s (manifestTagCurrentPathSpec n t) else None)\<rparr>"

lemma reg_invD:
  assumes "reg_inv P iv file_at dir_at s"
  shows "iv s" "layout_ok P file_at dir_at s"
    "is_link spec \<Longrightarrow> spec_ok P spec \<Longrightarrow> content_at P file_at s spec = Some b \<Longrightarrow> dg_validate P b = None"
  using assms by (auto simp: reg_inv_def)

section \<open>Updates of single files\<close>

lemma content_upd:
  assumes "digest_laws P" "spec_ok P spec" "spec_ok P spec'"
    and "file_at s' = (file_at s)(spec_comps P spec := v)"
  shows "content_at P file_at s' spec' = (if spec' = spec then v else content_at P file_at s spec')"
  using leaf_comps_inj [OF digest_lawsD(3,2) [OF assms(1)] assms(3,2)] assms(4) by simp

lemma reg_abs_upd:
  assumes L: "digest_laws P" and sp: "spec_ok P spec"
    and f: "file_at s' = (file_at s)(spec_comps P spec := v)"
  shows "reg_abs P file_at s' =
    (case spec of
       blobDataPathSpec d \<Rightarrow> (reg_abs P file_at s)\<lparr>a_blobs := (a_blobs (reg_abs P file_at s))(d := v)\<rparr>
     | layerLinkPathSpec n d \<Rightarrow>
         (reg_abs P file_at s)\<lparr>a_layers := set_link (a_layers (reg_abs P file_at s)) n d v\<rparr>
     | manifestRevisionLinkPathSpec n d \<Rightarrow>
         (reg_abs P file_at s)\<lparr>a_revisions := set_link (a_revisions (reg_abs P file_at s)) n d v\<rparr>
     | manifestTagCurrentPathSpec n t \<Rightarrow>
         (reg_abs P file_at s)\<lparr>a_tags := set_link (a_tags (reg_abs P file_at s)) n t v\<rparr>
     | _ \<Rightarrow> reg_abs P file_at s)"
proof -
  note c = content_upd [where s = s and s' = s' and file_at = file_at, OF L sp _ f]
  have b: "a_blobs (reg_abs P file_at s') d =
      (if dg_validate P d = None then if blobDataPathSpec d = spec then v else content_at P file_at s (blobDataPathSpec d) else None)" for d
    using c [of "blobDataPathSpec d"] by (simp add: reg_abs_def)
  have l: "a_layers (reg_abs P file_at s') n d =
      (if spec_ok P (layerLinkPathSpec n d) then if layerLinkPathSpec n d = spec then v else content_at P file_at s (layerLinkPathSpec n d) else None)" for n d
    using c [of "layerLinkPathSpec n d"] by (simp add: reg_abs_def)
  have r: "a_revisions (reg_abs P file_at s') n d =
      (if spec_ok P (manifestRevisionLinkPathSpec n d) then if manifestRevisionLinkPathSpec n d = spec then v else content_at P file_at s (manifestRevisionLinkPathSpec n d) else None)" for n d
    using c [of "manifestRevisionLinkPathSpec n d"] by (simp add: reg_abs_def)
  have t: "a_tags (reg_abs P file_at s') n d =
      (if spec_ok P (manifestTagCurrentPathSpec n d) then if manifestTagCurrentPathSpec n d = spec then v else content_at P file_at s (manifestTagCurrentPathSpec n d) else None)" for n d
    using c [of "manifestTagCurrentPathSpec n d"] by (simp add: reg_abs_def)
  show ?thesis
    using sp by (cases spec; intro areg.equality)
      (simp_all add: fun_eq_iff b l r t, simp_all add: reg_abs_def set_link_def)
qed

text \<open>Valid digests have blob paths the driver is used on.\<close>

definition blobs_usable :: "digest_pkg \<Rightarrow> (string list \<Rightarrow> bool) \<Rightarrow> bool" where
  "blobs_usable P ok \<longleftrightarrow> (\<forall>d. dg_validate P d = None \<longrightarrow> ok (spec_comps P (blobDataPathSpec d)))"

lemma blobs_usableD: "blobs_usable P ok \<Longrightarrow> dg_validate P d = None \<Longrightarrow> ok (spec_comps P (blobDataPathSpec d))"
  by (simp add: blobs_usable_def)

context lawful_driver
begin

lemma reg_put:
  assumes L: "digest_laws P" and R: "reg_inv P inv file_at dir_at s"
    and sp: "leaf spec" "spec_ok P spec" "ok (spec_comps P spec)" and v: "is_link spec \<Longrightarrow> dg_validate P b = None"
  shows "\<exists>s'. PutContent D s (abs_path (spec_comps P spec)) b = (s', None) \<and> reg_inv P inv file_at dir_at s' \<and>
    file_at s' = (file_at s)(spec_comps P spec \<mapsto> b)"
proof -
  obtain s' where s': "PutContent D s (abs_path (spec_comps P spec)) b = (s', None)" "inv s'"
    "layout_ok P file_at dir_at s'" "file_at s' = (file_at s)(spec_comps P spec \<mapsto> b)"
    using put_leaf [OF reg_invD(1,2) [OF R] sp] by blast
  have "reg_inv P inv file_at dir_at s'"
    unfolding reg_inv_def
  proof (intro conjI allI impI s'(2,3))
    fix spec' c assume a: "is_link spec'" "spec_ok P spec'" "content_at P file_at s' spec' = Some c"
    then have "(if spec' = spec then Some b else content_at P file_at s spec') = Some c"
      using content_upd [OF L sp(2) a(2) s'(4)] by simp
    then show "dg_validate P c = None"
      using a(1,2) v reg_invD(3) [OF R a(1,2)] by (auto split: if_splits)
  qed
  with s' show ?thesis by blast
qed

lemma reg_delete:
  assumes L: "digest_laws P" and R: "reg_inv P inv file_at dir_at s"
    and sp: "leaf spec" "spec_ok P spec" "ok (spec_comps P spec)"
  shows "\<exists>s'. Delete D s (abs_path (spec_comps P spec)) =
      (s', if content_at P file_at s spec = None
           then Some (PathNotFoundError (abs_path (spec_comps P spec)) (Name D)) else None) \<and>
    reg_inv P inv file_at dir_at s' \<and> file_at s' = (file_at s)(spec_comps P spec := None)"
proof -
  obtain s' where s': "Delete D s (abs_path (spec_comps P spec)) =
      (s', if content_at P file_at s spec = None
           then Some (PathNotFoundError (abs_path (spec_comps P spec)) (Name D)) else None)"
    "inv s'" "layout_ok P file_at dir_at s'" "file_at s' = (file_at s)(spec_comps P spec := None)"
    using delete_leaf [OF reg_invD(1,2) [OF R] sp] by blast
  have "reg_inv P inv file_at dir_at s'"
    unfolding reg_inv_def
  proof (intro conjI allI impI s'(2,3))
    fix spec' c assume a: "is_link spec'" "spec_ok P spec'" "content_at P file_at s' spec' = Some c"
    then have "content_at P file_at s spec' = Some c"
      using content_upd [OF L sp(2) a(2) s'(4)] by (simp split: if_splits)
    then show "dg_validate P c = None" using reg_invD(3) [OF R a(1,2)] by simp
  qed
  with s' show ?thesis by blast
qed

lemma readlink_leaf:
  assumes L: "digest_laws P" and R: "reg_inv P inv file_at dir_at s"
    and sp: "is_link spec" "spec_ok P spec" "ok (spec_comps P spec)"
  shows "blobStore_readlink P D s (abs_path (spec_comps P spec)) =
    (case content_at P file_at s spec of
       Some b \<Rightarrow> Inr b
     | None \<Rightarrow> Inl (DriverErr (PathNotFoundError (abs_path (spec_comps P spec)) (Name D))))"
proof -
  have "leaf spec" using sp(1) by (cases spec) simp_all
  from get_leaf [OF reg_invD(1,2) [OF R] this sp(2,3)] show ?thesis
    using reg_invD(3) [OF R sp(1,2)] dg_parse_eq [OF digest_lawsD(1) [OF L]]
    by (simp add: blobStore_readlink_def split: option.split)
qed

lemma link_leaf:
  assumes L: "digest_laws P" and R: "reg_inv P inv file_at dir_at s"
    and sp: "leaf spec" "spec_ok P spec" "ok (spec_comps P spec)" "is_link spec \<Longrightarrow> dg_validate P d = None"
  shows "\<exists>s'. blobStore_link D s (abs_path (spec_comps P spec)) d = (s', None) \<and>
    reg_inv P inv file_at dir_at s' \<and> file_at s' = (file_at s)(spec_comps P spec \<mapsto> d)"
  using reg_put [OF L R sp] by (auto simp: blobStore_link_def)

section \<open>The operations\<close>

lemma blob_Stat_leaf:
  assumes L: "digest_laws P" and R: "reg_inv P inv file_at dir_at s"
    and d: "dg_validate P d = None" "ok (spec_comps P (blobDataPathSpec d))"
  shows "blobStatter_Stat P D s d =
    (case a_blobs (reg_abs P file_at s) d of
       Some b \<Rightarrow> Inr \<lparr>MediaType = octet_stream, Size = int (length b), Digest = d\<rparr>
     | None \<Rightarrow> Inl ErrBlobUnknown)"
proof -
  have sp: "leaf (blobDataPathSpec d)" "spec_ok P (blobDataPathSpec d)" using d(1) by simp_all
  obtain m where "Stat D s (abs_path (spec_comps P (blobDataPathSpec d))) =
    (case content_at P file_at s (blobDataPathSpec d) of
       Some b \<Rightarrow> Inr \<lparr>fi_path = abs_path (spec_comps P (blobDataPathSpec d)), fi_size = length b, fi_modtime = m, fi_isdir = False\<rparr>
     | None \<Rightarrow> Inl (PathNotFoundError (abs_path (spec_comps P (blobDataPathSpec d))) (Name D)))"
    using stat_leaf [OF reg_invD(1,2) [OF R] sp d(2)] by blast
  then show ?thesis
    using spath_ok [OF digest_lawsD(3) [OF L] sp(2)] d(1)
    by (simp add: blobStatter_Stat_def reg_abs_def split: option.split)
qed

lemma blob_Get_leaf:
  assumes L: "digest_laws P" and R: "reg_inv P inv file_at dir_at s"
    and d: "dg_validate P d = None" "ok (spec_comps P (blobDataPathSpec d))"
    and b: "a_blobs (reg_abs P file_at s) d = Some b"
  shows "blobStore_Get P D s d = (if int (length b) \<le> maxBlobGetSize then Inr b else Inl ErrReadLimit)"
  using read_leaf [OF reg_invD(1) [OF R] d(2), of b] b d(1) spath_ok [OF digest_lawsD(3) [OF L], of "blobDataPathSpec d"]
  by (simp add: blobStore_Get_def blobStore_path_def reg_abs_def)

lemma blobStore_Put_leaf:
  assumes L: "digest_laws P" and R: "reg_inv P inv file_at dir_at s"
    and o: "ok (spec_comps P (blobDataPathSpec (dg_from_bytes P p)))"
  shows "\<exists>s'. blobStore_Put P D s p = (s', Inr \<lparr>MediaType = octet_stream,
       Size = int (length (the (a_blobs (reg_abs P file_at s') (dg_from_bytes P p)))), Digest = dg_from_bytes P p\<rparr>) \<and>
     reg_inv P inv file_at dir_at s' \<and>
     reg_abs P file_at s' = add_blob (reg_abs P file_at s) (dg_from_bytes P p) p"
proof (cases "a_blobs (reg_abs P file_at s) (dg_from_bytes P p)")
  case (Some b)
  then show ?thesis
    using blob_Stat_leaf [OF L R digest_lawsD(6) [OF L] o] R by (simp add: blobStore_Put_def Let_def add_blob_def)
next
  case None
  let ?sp = "blobDataPathSpec (dg_from_bytes P p)"
  have sp: "leaf ?sp" "spec_ok P ?sp" using digest_lawsD(6) [OF L] by simp_all
  obtain s' where s': "PutContent D s (abs_path (spec_comps P ?sp)) p = (s', None)"
    "reg_inv P inv file_at dir_at s'" "file_at s' = (file_at s)(spec_comps P ?sp \<mapsto> p)"
    using reg_put [OF L R sp o] by auto
  have "reg_abs P file_at s' = add_blob (reg_abs P file_at s) (dg_from_bytes P p) p"
    using reg_abs_upd [OF L sp(2) s'(3)] None by (simp add: add_blob_def)
  then show ?thesis
    using blob_Stat_leaf [OF L R digest_lawsD(6) [OF L] o] spath_ok [OF digest_lawsD(3) [OF L] sp(2)] None s'
    by (simp add: blobStore_Put_def blobStore_path_def Let_def add_blob_def)
qed

lemma linkBlob_leaf:
  assumes L: "digest_laws P" and R: "reg_inv P inv file_at dir_at s"
    and lbs: "lbs_linkPathFns lbs = f # fs" "f (lbs_name lbs) (Digest desc) = spath P spec"
    and sp: "leaf spec" "spec_ok P spec" "ok (spec_comps P spec)" "is_link spec \<Longrightarrow> dg_validate P (Digest desc) = None"
  shows "\<exists>s'. linkBlob D s lbs desc [] = (s', None) \<and> reg_inv P inv file_at dir_at s' \<and>
    file_at s' = (file_at s)(spec_comps P spec \<mapsto> Digest desc)"
  using link_leaf [OF L R sp] spath_ok [OF digest_lawsD(3) [OF L] sp(2)] lbs
  by (auto simp: linkBlob_def)

text \<open>A lookup through one link function.\<close>

lemma resolve_leaf:
  assumes L: "digest_laws P" and R: "reg_inv P inv file_at dir_at s"
    and sp: "is_link spec" "spec_ok P spec" "ok (spec_comps P spec)" and f: "f n d = spath P spec"
  shows "find_target P D s n d (f # fs) =
    (case content_at P file_at s spec of Some t \<Rightarrow> Inr t | None \<Rightarrow> find_target P D s n d fs)"
  using readlink_leaf [OF L R sp] spath_ok [OF digest_lawsD(3) [OF L] sp(2)] f
  by (simp add: resolveWithLinkFunc_def split: option.split)

lemma layer_target:
  assumes L: "digest_laws P" and R: "reg_inv P inv file_at dir_at s"
    and sp: "spec_ok P (layerLinkPathSpec n d)" "ok (spec_comps P (layerLinkPathSpec n d))"
  shows "find_target P D s n d [blobLinkPath P] =
    (case a_layers (reg_abs P file_at s) n d of Some t \<Rightarrow> Inr t | None \<Rightarrow> Inl ErrBlobUnknown)"
    "a_layers (reg_abs P file_at s) n d = Some t \<Longrightarrow> dg_validate P t = None"
  using resolve_leaf [OF L R _ sp, of "blobLinkPath P" n d] reg_invD(3) [OF R _ sp(1)] sp(1)
  by (simp_all add: blobLinkPath_def reg_abs_def split: option.split if_splits)

lemma revision_target:
  assumes L: "digest_laws P" and R: "reg_inv P inv file_at dir_at s"
    and sp: "spec_ok P (layerLinkPathSpec n d)" "ok (spec_comps P (layerLinkPathSpec n d))"
    and rv: "spec_ok P (manifestRevisionLinkPathSpec n d)" "ok (spec_comps P (manifestRevisionLinkPathSpec n d))"
  shows "find_target P D s n d [manifestRevisionLinkPath P, blobLinkPath P] =
    (case manifest_link (reg_abs P file_at s) n d of Some t \<Rightarrow> Inr t | None \<Rightarrow> Inl ErrBlobUnknown)"
    "manifest_link (reg_abs P file_at s) n d = Some t \<Longrightarrow> dg_validate P t = None"
proof -
  have a: "a_revisions (reg_abs P file_at s) n d = content_at P file_at s (manifestRevisionLinkPathSpec n d)"
    using rv(1) by (simp add: reg_abs_def)
  show "find_target P D s n d [manifestRevisionLinkPath P, blobLinkPath P] =
    (case manifest_link (reg_abs P file_at s) n d of Some t \<Rightarrow> Inr t | None \<Rightarrow> Inl ErrBlobUnknown)"
    using resolve_leaf [OF L R _ rv, of "manifestRevisionLinkPath P" n d "[blobLinkPath P]"]
      layer_target(1) [OF L R sp] a
    by (simp add: manifestRevisionLinkPath_def manifest_link_def split: option.split)
  show "dg_validate P t = None" if "manifest_link (reg_abs P file_at s) n d = Some t"
    using that reg_invD(3) [OF R _ rv(1)] layer_target(2) [OF L R sp] a
    by (auto simp: manifest_link_def split: option.splits)
qed

lemma Stat_through:
  assumes L: "digest_laws P" and R: "reg_inv P inv file_at dir_at s" and U: "blobs_usable P ok"
    and t: "find_target P D s (lbs_name lbs) d (lbs_linkPathFns lbs) =
      (case l of Some t \<Rightarrow> Inr t | None \<Rightarrow> Inl ErrBlobUnknown)"
    and v: "\<And>t. l = Some t \<Longrightarrow> dg_validate P t = None"
  shows "lbs_Stat P D s lbs d =
    (case visible (reg_abs P file_at s) l of
       None \<Rightarrow> Inl ErrBlobUnknown
     | Some (t, b) \<Rightarrow> Inr \<lparr>MediaType = octet_stream, Size = int (length b), Digest = t\<rparr>)"
proof (cases l)
  case None
  then show ?thesis using t by (simp add: lbs_Stat_def linkedBlobStatter_Stat_def visible_def)
next
  case (Some t')
  then show ?thesis
    using t v blob_Stat_leaf [OF L R _ blobs_usableD [OF U]]
    by (simp add: lbs_Stat_def linkedBlobStatter_Stat_def visible_def split: option.split)
qed

lemma Get_through:
  assumes L: "digest_laws P" and R: "reg_inv P inv file_at dir_at s" and U: "blobs_usable P ok"
    and t: "find_target P D s (lbs_name lbs) d (lbs_linkPathFns lbs) =
      (case l of Some t \<Rightarrow> Inr t | None \<Rightarrow> Inl ErrBlobUnknown)"
    and v: "\<And>t. l = Some t \<Longrightarrow> dg_validate P t = None"
  shows "fetched (lbs_Get P D s lbs d) = content_answer (visible (reg_abs P file_at s) l)"
proof (cases "visible (reg_abs P file_at s) l")
  case None
  then show ?thesis
    using Stat_through [OF assms] by (simp add: lbs_Get_def content_answer_def fetched_def)
next
  case (Some tb)
  obtain t b where tb: "tb = (t, b)" by (cases tb)
  then have l: "l = Some t" "a_blobs (reg_abs P file_at s) t = Some b"
    using Some by (auto simp: visible_def split: option.splits)
  have "blobStore_Get P D s t = (if int (length b) \<le> maxBlobGetSize then Inr b else Inl ErrReadLimit)"
    using blob_Get_leaf [OF L R v [OF l(1)] blobs_usableD [OF U v [OF l(1)]] l(2)] .
  then show ?thesis
    using Stat_through [OF assms] Some tb by (simp add: lbs_Get_def content_answer_def fetched_def)
qed

lemma Put_through:
  assumes L: "digest_laws P" and R: "reg_inv P inv file_at dir_at s" and U: "blobs_usable P ok"
    and lbs: "lbs_linkPathFns lbs = f # fs" "f (lbs_name lbs) (dg_from_bytes P p) = spath P spec"
    and sp: "is_link spec" "spec_ok P spec" "ok (spec_comps P spec)"
  shows "\<exists>s' s1. lbs_Put P D s lbs p = (s', Inr \<lparr>MediaType = octet_stream,
       Size = int (length (the (a_blobs (add_blob (reg_abs P file_at s) (dg_from_bytes P p) p) (dg_from_bytes P p)))),
       Digest = dg_from_bytes P p\<rparr>) \<and>
     reg_inv P inv file_at dir_at s' \<and>
     reg_abs P file_at s1 = add_blob (reg_abs P file_at s) (dg_from_bytes P p) p \<and>
     file_at s' = (file_at s1)(spec_comps P spec \<mapsto> dg_from_bytes P p)"
proof -
  have lf: "leaf spec" using sp(1) by (cases spec) simp_all
  obtain s1 where s1: "blobStore_Put P D s p = (s1, Inr \<lparr>MediaType = octet_stream,
       Size = int (length (the (a_blobs (reg_abs P file_at s1) (dg_from_bytes P p)))), Digest = dg_from_bytes P p\<rparr>)"
    "reg_inv P inv file_at dir_at s1"
    "reg_abs P file_at s1 = add_blob (reg_abs P file_at s) (dg_from_bytes P p) p"
    using blobStore_Put_leaf [OF L R blobs_usableD [OF U digest_lawsD(6) [OF L]]] by blast
  let ?desc = "\<lparr>MediaType = octet_stream,
       Size = int (length (the (a_blobs (reg_abs P file_at s1) (dg_from_bytes P p)))), Digest = dg_from_bytes P p\<rparr>"
  obtain s' where s': "linkBlob D s1 lbs ?desc [] = (s', None)" "reg_inv P inv file_at dir_at s'"
    "file_at s' = (file_at s1)(spec_comps P spec \<mapsto> dg_from_bytes P p)"
    using linkBlob_leaf [OF L s1(2) lbs(1), of ?desc spec] lbs(2) lf sp digest_lawsD(6) [OF L] by auto
  show ?thesis
    using s1 s' by (intro exI [of _ s'] exI [of _ s1]) (simp add: lbs_Put_def linkedBlobStatter_SetDescriptor_def)
qed

lemma layer_store_sel:
  "lbs_name (layer_store P n) = n" "lbs_linkPathFns (layer_store P n) = [blobLinkPath P]"
  "lbs_name (revision_store P n) = n"
  "lbs_linkPathFns (revision_store P n) = [manifestRevisionLinkPath P, blobLinkPath P]"
  "lbs_deleteEnabled (layer_store P n)" "lbs_deleteEnabled (revision_store P n)"
  by (simp_all add: repo_Blobs_def repo_Manifests_blobStore_def)

lemma clear_one:
  assumes L: "digest_laws P" and R: "reg_inv P inv file_at dir_at s"
    and sp: "leaf spec" "spec_ok P spec" "ok (spec_comps P spec)" and f: "f n d = spath P spec"
  shows "\<exists>s'. clear_links D s n d (f # fs) = clear_links D s' n d fs \<and> reg_inv P inv file_at dir_at s' \<and>
    file_at s' = (file_at s)(spec_comps P spec := None)"
proof -
  obtain s' where s': "Delete D s (abs_path (spec_comps P spec)) =
      (s', if content_at P file_at s spec = None
           then Some (PathNotFoundError (abs_path (spec_comps P spec)) (Name D)) else None)"
    "reg_inv P inv file_at dir_at s'" "file_at s' = (file_at s)(spec_comps P spec := None)"
    using reg_delete [OF L R sp] by blast
  then show ?thesis
    using spath_ok [OF digest_lawsD(3) [OF L] sp(2)] f by (intro exI [of _ s']) simp
qed

definition refines :: "digest_pkg \<Rightarrow> request \<Rightarrow> 's \<Rightarrow> bool" where
  "refines P r s \<longleftrightarrow>
     (\<exists>s'. reg_step P D r s = (s', snd (areg_step P r (reg_abs P file_at s))) \<and>
       reg_inv P inv file_at dir_at s' \<and> reg_abs P file_at s' = fst (areg_step P r (reg_abs P file_at s)))"

lemma put_refines:
  assumes L: "digest_laws P" and R: "reg_inv P inv file_at dir_at s" and U: "blobs_usable P ok"
  shows "request_ok P ok (PutBlob n p) \<Longrightarrow> refines P (PutBlob n p) s"
    and "request_ok P ok (PutManifest n p) \<Longrightarrow> refines P (PutManifest n p) s"
proof -
  let ?d = "dg_from_bytes P p" and ?a = "add_blob (reg_abs P file_at s) (dg_from_bytes P p) p"
  note P = Put_through [OF L R U, where p = p]
  show "refines P (PutBlob n p) s" if ro: "request_ok P ok (PutBlob n p)"
  proof -
    have sp: "spec_ok P (layerLinkPathSpec n ?d)" "ok (spec_comps P (layerLinkPathSpec n ?d))"
      using ro by (simp_all add: request_ok_def)
    obtain s' s1 where s': "lbs_Put P D s (layer_store P n) p =
        (s', Inr \<lparr>MediaType = octet_stream, Size = int (length (the (a_blobs ?a ?d))), Digest = ?d\<rparr>)"
      "reg_inv P inv file_at dir_at s'" "reg_abs P file_at s1 = ?a"
      "file_at s' = (file_at s1)(spec_comps P (layerLinkPathSpec n ?d) \<mapsto> ?d)"
      using P [where lbs = "layer_store P n" and spec = "layerLinkPathSpec n ?d"] sp
      by (auto simp: layer_store_sel blobLinkPath_def)
    then show ?thesis
      using reg_abs_upd [OF L sp(1) s'(4)] by (simp add: refines_def described_def Let_def)
  qed
  show "refines P (PutManifest n p) s" if ro: "request_ok P ok (PutManifest n p)"
  proof -
    have sp: "spec_ok P (manifestRevisionLinkPathSpec n ?d)" "ok (spec_comps P (manifestRevisionLinkPathSpec n ?d))"
      using ro by (simp_all add: request_ok_def)
    obtain s' s1 where s': "lbs_Put P D s (revision_store P n) p =
        (s', Inr \<lparr>MediaType = octet_stream, Size = int (length (the (a_blobs ?a ?d))), Digest = ?d\<rparr>)"
      "reg_inv P inv file_at dir_at s'" "reg_abs P file_at s1 = ?a"
      "file_at s' = (file_at s1)(spec_comps P (manifestRevisionLinkPathSpec n ?d) \<mapsto> ?d)"
      using P [where lbs = "revision_store P n" and spec = "manifestRevisionLinkPathSpec n ?d"] sp
      by (auto simp: layer_store_sel manifestRevisionLinkPath_def)
    then show ?thesis
      using reg_abs_upd [OF L sp(1) s'(4)] by (simp add: refines_def described_def Let_def)
  qed
qed

lemma read_refines:
  assumes L: "digest_laws P" and R: "reg_inv P inv file_at dir_at s" and U: "blobs_usable P ok"
  shows "request_ok P ok (GetBlob n d) \<Longrightarrow> refines P (GetBlob n d) s"
    and "request_ok P ok (StatBlob n d) \<Longrightarrow> refines P (StatBlob n d) s"
    and "request_ok P ok (GetManifest n d) \<Longrightarrow> refines P (GetManifest n d) s"
    and "request_ok P ok (GetTag n t) \<Longrightarrow> refines P (GetTag n t) s"
proof -
  show "refines P (GetBlob n d) s" if "request_ok P ok (GetBlob n d)"
    using that Get_through [OF L R U, of "layer_store P n" d] layer_target [OF L R, of n d] R
    by (simp add: refines_def layer_store_sel request_ok_def)
  show "refines P (StatBlob n d) s" if "request_ok P ok (StatBlob n d)"
    using that Stat_through [OF L R U, of "layer_store P n" d] layer_target [OF L R, of n d] R
    by (simp add: refines_def layer_store_sel request_ok_def described_def split: option.split)
  show "refines P (GetManifest n d) s" if "request_ok P ok (GetManifest n d)"
    using that Get_through [OF L R U, of "revision_store P n" d] revision_target [OF L R, of n d] R
    by (simp add: refines_def layer_store_sel request_ok_def)
  show "refines P (GetTag n t) s" if "request_ok P ok (GetTag n t)"
    using that readlink_leaf [OF L R, of "manifestTagCurrentPathSpec n t"]
      spath_ok [OF digest_lawsD(3) [OF L], of "manifestTagCurrentPathSpec n t"] R
    by (simp add: refines_def request_ok_def ts_Get_def reg_abs_def split: option.split)
qed

lemma mount_refines:
  assumes L: "digest_laws P" and R: "reg_inv P inv file_at dir_at s" and U: "blobs_usable P ok"
    and ro: "request_ok P ok (MountBlob n src d)"
  shows "refines P (MountBlob n src d) s"
proof -
  have sp: "spec_ok P (layerLinkPathSpec n d)" "ok (spec_comps P (layerLinkPathSpec n d))"
    "spec_ok P (layerLinkPathSpec src d)" "ok (spec_comps P (layerLinkPathSpec src d))"
    using ro by (simp_all add: request_ok_def)
  note st = Stat_through [OF L R U, of "layer_store P src" d "a_layers (reg_abs P file_at s) src d"]
  have stat: "lbs_Stat P D s (layer_store P src) d =
    (case visible (reg_abs P file_at s) (a_layers (reg_abs P file_at s) src d) of
       None \<Rightarrow> Inl ErrBlobUnknown
     | Some (t, b) \<Rightarrow> Inr \<lparr>MediaType = octet_stream, Size = int (length b), Digest = t\<rparr>)"
    using st layer_target [OF L R sp(3,4)] by (simp add: layer_store_sel)
  show ?thesis
  proof (cases "visible (reg_abs P file_at s) (a_layers (reg_abs P file_at s) src d)")
    case None
    then show ?thesis using stat R by (simp add: refines_def lbs_mount_def described_def)
  next
    case (Some tb)
    obtain t b where tb: "tb = (t, b)" by (cases tb)
    let ?desc = "\<lparr>MediaType = octet_stream, Size = int (length b), Digest = d\<rparr>"
    obtain s' where s': "linkBlob D s (layer_store P n) ?desc [] = (s', None)" "reg_inv P inv file_at dir_at s'"
      "file_at s' = (file_at s)(spec_comps P (layerLinkPathSpec n d) \<mapsto> d)"
      using linkBlob_leaf [OF L R, where lbs = "layer_store P n" and desc = ?desc and spec = "layerLinkPathSpec n d"] sp(1,2)
      by (auto simp: layer_store_sel blobLinkPath_def)
    then show ?thesis
      using stat Some tb reg_abs_upd [OF L sp(1) s'(3)]
      by (simp add: refines_def lbs_mount_def described_def Let_def)
  qed
qed

lemma delete_refines:
  assumes L: "digest_laws P" and R: "reg_inv P inv file_at dir_at s" and U: "blobs_usable P ok"
  shows "request_ok P ok (DeleteBlob n d) \<Longrightarrow> refines P (DeleteBlob n d) s"
    and "request_ok P ok (DeleteManifest n d) \<Longrightarrow> refines P (DeleteManifest n d) s"
proof -
  let ?l = "layerLinkPathSpec n d" and ?r = "manifestRevisionLinkPathSpec n d"
  show "refines P (DeleteBlob n d) s" if ro: "request_ok P ok (DeleteBlob n d)"
  proof -
    have sp: "spec_ok P ?l" "ok (spec_comps P ?l)" using ro by (simp_all add: request_ok_def)
    obtain s' where s': "clear_links D s n d [blobLinkPath P] = (s', None)" "reg_inv P inv file_at dir_at s'"
      "file_at s' = (file_at s)(spec_comps P ?l := None)"
      using clear_one [OF L R _ sp, of "blobLinkPath P" n d "[]"] by (auto simp: blobLinkPath_def)
    show ?thesis
      using Stat_through [OF L R U, of "layer_store P n" d] layer_target [OF L R sp] s' R
        reg_abs_upd [OF L sp(1) s'(3)]
      by (simp add: refines_def lbs_Delete_def linkedBlobStatter_Clear_def layer_store_sel finished_def
          split: option.split)
  qed
  show "refines P (DeleteManifest n d) s" if ro: "request_ok P ok (DeleteManifest n d)"
  proof -
    have sp: "spec_ok P ?l" "ok (spec_comps P ?l)" "spec_ok P ?r" "ok (spec_comps P ?r)"
      using ro by (simp_all add: request_ok_def)
    obtain s1 where s1: "clear_links D s n d [manifestRevisionLinkPath P, blobLinkPath P] = clear_links D s1 n d [blobLinkPath P]"
      "reg_inv P inv file_at dir_at s1" "file_at s1 = (file_at s)(spec_comps P ?r := None)"
      using clear_one [OF L R _ sp(3,4), of "manifestRevisionLinkPath P" n d "[blobLinkPath P]"]
      by (auto simp: manifestRevisionLinkPath_def)
    obtain s' where s': "clear_links D s1 n d [blobLinkPath P] = (s', None)" "reg_inv P inv file_at dir_at s'"
      "file_at s' = (file_at s1)(spec_comps P ?l := None)"
      using clear_one [OF L s1(2) _ sp(1,2), of "blobLinkPath P" n d "[]"] by (auto simp: blobLinkPath_def)
    show ?thesis
      using Stat_through [OF L R U, of "revision_store P n" d] revision_target [OF L R sp] s1(1) s' R
        reg_abs_upd [OF L sp(3) s1(3)] reg_abs_upd [OF L sp(1) s'(3)]
      by (simp add: refines_def lbs_Delete_def linkedBlobStatter_Clear_def layer_store_sel finished_def
          split: option.split)
  qed
qed

lemma tag_refines:
  assumes L: "digest_laws P" and R: "reg_inv P inv file_at dir_at s"
    and ro: "request_ok P ok (PutTag n t d)"
  shows "refines P (PutTag n t d) s"
proof -
  let ?c = "manifestTagCurrentPathSpec n t" and ?i = "manifestTagIndexEntryLinkPathSpec n t d"
  let ?desc = "\<lparr>MediaType = [], Size = 0, Digest = d\<rparr> :: descriptor"
  have sp: "spec_ok P ?c" "ok (spec_comps P ?c)" "spec_ok P ?i" "ok (spec_comps P ?i)"
    using ro by (simp_all add: request_ok_def)
  obtain s1 where s1: "linkBlob D s (ts_linkedBlobStore P n t) ?desc [] = (s1, None)" "reg_inv P inv file_at dir_at s1"
    "file_at s1 = (file_at s)(spec_comps P ?i \<mapsto> d)"
    using linkBlob_leaf [OF L R, where lbs = "ts_linkedBlobStore P n t" and desc = ?desc and spec = ?i] sp
    by (auto simp: ts_linkedBlobStore_def)
  obtain s' where s': "blobStore_link D s1 (abs_path (spec_comps P ?c)) d = (s', None)" "reg_inv P inv file_at dir_at s'"
    "file_at s' = (file_at s1)(spec_comps P ?c \<mapsto> d)"
    using link_leaf [OF L s1(2) _ sp(1,2)] sp(3) by auto
  show ?thesis
    using s1(1) s' spath_ok [OF digest_lawsD(3) [OF L] sp(1)] reg_abs_upd [OF L sp(3) s1(3)] reg_abs_upd [OF L sp(1) s'(3)]
    by (simp add: refines_def ts_Tag_def finished_def)
qed

lemma reg_step_refines:
  assumes "digest_laws P" "reg_inv P inv file_at dir_at s" "blobs_usable P ok" "request_ok P ok r"
  shows "refines P r s"
  using assms(4) put_refines [OF assms(1-3)] read_refines [OF assms(1-3)] mount_refines [OF assms(1-3)]
    delete_refines [OF assms(1-3)] tag_refines [OF assms(1,2)]
  by (cases r) simp_all

lemma reg_run_refines:
  assumes "digest_laws P" "blobs_usable P ok" "list_all (request_ok P ok) rs" "reg_inv P inv file_at dir_at s"
  shows "run_steps (areg_step P) rs (reg_abs P file_at s) =
      (reg_abs P file_at (fst (run_steps (reg_step P D) rs s)), snd (run_steps (reg_step P D) rs s)) \<and>
    reg_inv P inv file_at dir_at (fst (run_steps (reg_step P D) rs s))"
  using assms(3,4)
proof (induction rs arbitrary: s)
  case (Cons r rs)
  then have "refines P r s" by (intro reg_step_refines [OF assms(1) _ assms(2)]) simp_all
  then obtain s' where s': "reg_step P D r s = (s', snd (areg_step P r (reg_abs P file_at s)))"
    "reg_inv P inv file_at dir_at s'" "reg_abs P file_at s' = fst (areg_step P r (reg_abs P file_at s))"
    by (auto simp: refines_def)
  then show ?case
    using Cons.IH [OF _ s'(2)] Cons.prems by (simp add: split_beta)
qed simp

end

section \<open>The stores on the in-memory driver\<close>

lemma hex_path_char: "is_lower_hex c \<Longrightarrow> path_char c"
  by (auto simp: is_lower_hex_def path_char_def in_range_def byte_of_def)

lemma digest_comps:
  assumes "digest_laws P" "dg_validate P d = None"
  shows "comp_ok (dg_hex P d)" "64 \<le> length (dg_hex P d)" "comp_ok (dg_algorithm P d)"
    "dg_algorithm P d \<in> {''sha256'', ''sha384'', ''sha512''}"
proof -
  have r: "(dg_algorithm P d, length (dg_hex P d)) \<in> set registered" and h: "list_all is_lower_hex (dg_hex P d)"
    using digest_lawsD(3) [OF assms(1)] assms(2) by (auto simp: valid_registered_def)
  show len: "64 \<le> length (dg_hex P d)" and a: "dg_algorithm P d \<in> {''sha256'', ''sha384'', ''sha512''}"
    using r by (auto simp: registered_def)
  show "comp_ok (dg_hex P d)" using h len by (auto simp: comp_ok_def list_all_iff hex_path_char)
  show "comp_ok (dg_algorithm P d)"
    using a by (auto simp: comp_ok_def path_char_def in_range_def byte_of_def)
qed

text \<open>The link paths of two sample repositories are usable.\<close>

lemma sample_links_usable:
  assumes "digest_laws P" "dg_validate P d = None" "n = ''lib'' \<or> n = ''app''"
  shows "spec_ok P (layerLinkPathSpec n d)" "mem_ok (spec_comps P (layerLinkPathSpec n d))"
    "spec_ok P (manifestTagIndexEntryLinkPathSpec n ''v1'' d)"
    "mem_ok (spec_comps P (manifestTagIndexEntryLinkPathSpec n ''v1'' d))"
    "spec_ok P (manifestTagCurrentPathSpec n ''v1'')"
    "mem_ok (spec_comps P (manifestTagCurrentPathSpec n ''v1''))"
    "spec_ok P (manifestRevisionLinkPathSpec n d)" "mem_ok (spec_comps P (manifestRevisionLinkPathSpec n d))"
proof -
  note c = digest_comps [OF assms(1,2)]
  have ne: "dg_hex P d \<noteq> x" "x \<noteq> dg_hex P d" if "length x < 64" for x using that c(2) by auto
  have lit: "list_all comp_ok [''docker'', ''registry'', ''v2'', ''repositories'', ''lib'', ''app'', ''_layers'',
      ''_manifests'', ''tags'', ''v1'', ''current'', ''index'', ''link'', ''revisions'']"
    by code_simp
  have alg: "dg_algorithm P d \<noteq> x" "x \<noteq> dg_algorithm P d" if "length x \<noteq> 6 \<or> hd x \<noteq> CHR ''s''" for x
    using that c(4) by auto
  have n: "split_on slash n = [n]" "comp_ok n" "length n = 3" "plain n" "hd n \<noteq> CHR ''_''"
    using assms(3) lit by (auto simp: plain_def)
  have nn: "n \<noteq> x" "x \<noteq> n" if "length x \<noteq> 3" for x using that n(3) by auto
  show "spec_ok P (layerLinkPathSpec n d)" "spec_ok P (manifestTagIndexEntryLinkPathSpec n ''v1'' d)"
    "spec_ok P (manifestTagCurrentPathSpec n ''v1'')" "spec_ok P (manifestRevisionLinkPathSpec n d)"
    using assms(2) n by (simp_all add: name_ok_def, simp_all add: plain_def)
  have "length (dg_algorithm P d) = 6" using c(4) by auto
  then have mix: "n \<noteq> dg_algorithm P d" "n \<noteq> dg_hex P d" "dg_algorithm P d \<noteq> dg_hex P d"
    using n(3) c(2) by auto
  note defs = spec_comps_def repo_comps_def mem_ok_def comps_ok_def
  show "mem_ok (spec_comps P (layerLinkPathSpec n d))"
    using lit c(1,3) n(1,2) by (simp add: defs ne alg nn mix)
  show "mem_ok (spec_comps P (manifestTagIndexEntryLinkPathSpec n ''v1'' d))"
    using lit c(1,3) n(1,2) by (simp add: defs ne alg nn mix)
  show "mem_ok (spec_comps P (manifestTagCurrentPathSpec n ''v1''))"
    using lit n(1,2) by (simp add: defs nn)
  show "mem_ok (spec_comps P (manifestRevisionLinkPathSpec n d))"
    using lit c(1,3) n(1,2) by (simp add: defs ne alg nn mix)
qed

lemma mem_blobs_usable:
  assumes "digest_laws P"
  shows "blobs_usable P mem_ok"
  unfolding blobs_usable_def
proof (intro allI impI)
  fix d assume d: "dg_validate P d = None"
  have r: "(dg_algorithm P d, length (dg_hex P d)) \<in> set registered" and h: "list_all is_lower_hex (dg_hex P d)"
    using digest_lawsD(3) [OF assms] d by (auto simp: valid_registered_def)
  have len: "64 \<le> length (dg_hex P d)" using r by (auto simp: registered_def)
  have t: "length (take 2 (dg_hex P d)) = 2" "take 2 (dg_hex P d) \<noteq> dg_hex P d" "dg_hex P d \<noteq> []"
    using len by (auto simp: take_all_iff)
  have c: "comp_ok (dg_hex P d)" "comp_ok (take 2 (dg_hex P d))"
    using h t by (auto simp: comp_ok_def list_all_iff hex_path_char dest: in_set_takeD)
  have alg: "comp_ok (dg_algorithm P d)" "length (dg_algorithm P d) = 6" "hd (dg_algorithm P d) = CHR ''s''"
    using r by (auto simp: registered_def comp_ok_def path_char_def in_range_def byte_of_def)
  have hd: "hd (take 2 (dg_hex P d)) \<noteq> CHR ''v''"
    using h t(3) len by (cases "dg_hex P d") (auto simp: is_lower_hex_def in_range_def byte_of_def)
  have ne: "take 2 (dg_hex P d) \<noteq> ''v2''" using hd by (metis list.sel(1))
  have lit: "comp_ok ''docker''" "comp_ok ''registry''" "comp_ok ''v2''" "comp_ok ''blobs''" "comp_ok ''data''"
    by code_simp+
  have short: "dg_hex P d \<noteq> x" if "length x < 64" for x using that len by auto
  have two: "take 2 (dg_hex P d) \<noteq> x" if "length x \<noteq> 2" for x using that t(1) by metis
  have six: "dg_algorithm P d \<noteq> x" if "length x \<noteq> 6 \<or> hd x \<noteq> CHR ''s''" for x using that alg(2,3) by metis
  note pl = valid_digest_plain [OF digest_lawsD(3) [OF assms] d]
  show "mem_ok (spec_comps P (blobDataPathSpec d))"
    using c alg(1) lit pl(1-3) len unfolding mem_ok_def comps_ok_def
    by (auto simp: spec_comps_def blob_comps_def plain_def short short [THEN not_sym] two two [THEN not_sym]
        six six [THEN not_sym] ne ne [THEN not_sym] alg(2) t(2))
qed

definition areg_New :: areg where
  "areg_New = \<lparr>a_blobs = (\<lambda>_. None), a_layers = (\<lambda>_ _. None), a_revisions = (\<lambda>_ _. None), a_tags = (\<lambda>_ _. None)\<rparr>"

lemma mem_New_at: "mem_file_at (mem_New now) cs = None" "mem_dir_at (mem_New now) cs \<longleftrightarrow> cs = []"
  by (simp_all add: mem_file_at_def mem_dir_at_def kind_at_New)

lemma reg_abs_New: "reg_abs P mem_file_at (mem_New now) = areg_New"
  by (simp add: reg_abs_def areg_New_def mem_New_at fun_eq_iff)

lemma reg_inv_New: "reg_inv P mem_inv mem_file_at mem_dir_at (mem_New now)"
proof -
  have "leaf (uploadDataPathSpec ''a'' ''b'')" "spec_ok P (uploadDataPathSpec ''a'' ''b'')"
    "0 < length (spec_comps P (uploadDataPathSpec ''a'' ''b''))"
    by (simp_all add: name_ok_def plain_def spec_comps_def repo_comps_def)
  then have "layout_ok P mem_file_at mem_dir_at (mem_New now)"
    unfolding layout_ok_def mem_New_at by (metis take0)
  then show ?thesis using mem_inv_New by (simp add: reg_inv_def mem_New_at)
qed

lemmas mem_reg_run = inmem.reg_run_refines [OF _ mem_blobs_usable _ reg_inv_New, unfolded reg_abs_New]

text \<open>The abstract registry keeps contents under their own digests.\<close>

definition addressed :: "digest_pkg \<Rightarrow> (digest \<Rightarrow> bytes option) \<Rightarrow> bool" where
  "addressed P bl \<longleftrightarrow> (\<forall>d b. bl d = Some b \<longrightarrow> dg_from_bytes P b = d)"

lemma add_blob_addressed:
  "addressed P (a_blobs a) \<Longrightarrow> addressed P (a_blobs (add_blob a (dg_from_bytes P p) p))"
  by (auto simp: add_blob_def addressed_def)

lemma areg_step_blobs:
  "a_blobs (fst (areg_step P r a)) =
     (case r of
        PutBlob n p \<Rightarrow> a_blobs (add_blob a (dg_from_bytes P p) p)
      | PutManifest n p \<Rightarrow> a_blobs (add_blob a (dg_from_bytes P p) p)
      | _ \<Rightarrow> a_blobs a)"
  by (cases r) (auto simp: Let_def split: option.split)

lemma areg_step_addressed: "addressed P (a_blobs a) \<Longrightarrow> addressed P (a_blobs (fst (areg_step P r a)))"
  by (simp add: areg_step_blobs add_blob_addressed split: request.split)

lemma areg_run_addressed:
  "addressed P (a_blobs a) \<Longrightarrow> addressed P (a_blobs (fst (run_steps (areg_step P) rs a)))"
proof (induction rs arbitrary: a)
  case (Cons r rs)
  then show ?case using areg_step_addressed [OF Cons.prems, of r] by (simp add: split_beta)
qed simp

section \<open>Properties\<close>


definition sample_session :: "request list" where
  "sample_session =
    [PutBlob ''lib'' ''abc'', GetBlob ''lib'' (sample_from_bytes ''abc''), GetBlob ''app'' (sample_from_bytes ''abc''),
     MountBlob ''app'' ''lib'' (sample_from_bytes ''abc''), DeleteBlob ''lib'' (sample_from_bytes ''abc''),
     GetBlob ''lib'' (sample_from_bytes ''abc''), GetBlob ''app'' (sample_from_bytes ''abc''),
     PutTag ''app'' ''v1'' (sample_from_bytes ''abc''), GetTag ''app'' ''v1'', GetTag ''lib'' ''v1'']"

lemma sample_abc:
  "dg_from_bytes sample_pkg ''abc'' = sample_from_bytes ''abc''"
  "dg_validate sample_pkg (sample_from_bytes ''abc'') = None"
  using sample_from_bytes_valid by (simp_all add: sample_pkg_def from_bytes_valid_def)

lemma sample_session_ok: "list_all (request_ok sample_pkg mem_ok) sample_session"
  using sample_links_usable [OF sample_digest_laws sample_abc(2)]
  by (simp add: sample_session_def request_ok_def sample_abc(1) del: spec_ok.simps)

lemma sample_session_run:
  "snd (run_steps (areg_step sample_pkg) sample_session areg_New) =
     [Described (sample_from_bytes ''abc'') 3, Content ''abc'', UnknownBlob,
      Described (sample_from_bytes ''abc'') 3, Accepted, UnknownBlob, Content ''abc'',
      Accepted, Resolved (sample_from_bytes ''abc''), UnknownTag]"
  "a_blobs (fst (run_steps (areg_step sample_pkg) sample_session areg_New)) (sample_from_bytes ''abc'') = Some ''abc''"
  by (simp_all add: sample_session_def Let_def areg_New_def add_blob_def set_link_def visible_def content_answer_def
        maxBlobGetSize_def) (simp_all add: sample_pkg_def)


text \<open>
  C6. Whatever requests were served, every stored blob hashes to the digest it is stored under.
\<close>

theorem blobs_are_content_addressed:
  assumes "digest_laws P" and "list_all (request_ok P mem_ok) rs" and "dg_validate P d = None"
    and "mem_file_at (fst (run_steps (reg_step P inmemory_Driver) rs (mem_New now)))
      (spec_comps P (blobDataPathSpec d)) = Some b"
  shows "dg_from_bytes P b = d"
proof -
  let ?s = "fst (run_steps (reg_step P inmemory_Driver) rs (mem_New now))"
  have "fst (run_steps (areg_step P) rs areg_New) = reg_abs P mem_file_at ?s"
    using mem_reg_run [OF assms(1,1,2), of now, THEN conjunct1, THEN arg_cong [of _ _ fst]] by simp
  then have "a_blobs (fst (run_steps (areg_step P) rs areg_New)) d = Some b"
    using assms(3,4) by (simp add: reg_abs_def)
  then show ?thesis using areg_run_addressed [of P areg_New rs] by (simp add: areg_New_def addressed_def)
qed

theorem blobs_are_content_addressed_witness:
  "mem_file_at (fst (run_steps (reg_step sample_pkg inmemory_Driver) sample_session (mem_New 0)))
     (spec_comps sample_pkg (blobDataPathSpec (sample_from_bytes ''abc''))) = Some ''abc'' \<and>
   dg_from_bytes sample_pkg ''abc'' = sample_from_bytes ''abc''"
proof -
  let ?d = "sample_from_bytes ''abc''"
  have v: "dg_validate sample_pkg ?d = None" by code_simp
  have "a_blobs (reg_abs sample_pkg mem_file_at
      (fst (run_steps (reg_step sample_pkg inmemory_Driver) sample_session (mem_New 0)))) ?d = Some ''abc''"
    using mem_reg_run [OF sample_digest_laws sample_digest_laws sample_session_ok, of 0, THEN conjunct1,
        THEN arg_cong [of _ _ fst]] sample_session_run(2) by simp
  then have "mem_file_at (fst (run_steps (reg_step sample_pkg inmemory_Driver) sample_session (mem_New 0)))
     (spec_comps sample_pkg (blobDataPathSpec ?d)) = Some ''abc''"
    using v by (simp add: reg_abs_def)
  with blobs_are_content_addressed [OF sample_digest_laws sample_session_ok v this] show ?thesis by simp
qed

text \<open>
  C28. Mounting a blob by a digest that is only an alias of its canonical digest (a commit under
  another algorithm leaves such a link) reports success and leaves a link to a blob that does not
  exist: the new link holds the requested digest and not the one the source link leads to.
\<close>

theorem mount_by_alias_dangles:
  assumes "digest_laws P" and "reg_inv P mem_inv mem_file_at mem_dir_at s"
    and "request_ok P mem_ok (MountBlob n src d)"
    and "visible (reg_abs P mem_file_at s) (a_layers (reg_abs P mem_file_at s) src d) = Some (t, b)"
    and "a_blobs (reg_abs P mem_file_at s) d = None"
  shows "\<exists>s' desc. lbs_mount P inmemory_Driver s (layer_store P n) (layer_store P src) d None = (s', Inr desc) \<and>
    lbs_Stat P inmemory_Driver s' (layer_store P n) d = Inl ErrBlobUnknown"
proof -
  note U = mem_blobs_usable [OF assms(1)]
  have "inmem.refines P (MountBlob n src d) s"
    using inmem.reg_step_refines [OF assms(1,2) U assms(3)] .
  then obtain s' where s': "apsnd described (lbs_mount P inmemory_Driver s (layer_store P n) (layer_store P src) d None)
      = (s', Described d (length b))" "reg_inv P mem_inv mem_file_at mem_dir_at s'"
    "reg_abs P mem_file_at s' = (reg_abs P mem_file_at s)\<lparr>a_layers := set_link (a_layers (reg_abs P mem_file_at s)) n d (Some d)\<rparr>"
    using assms(4) by (auto simp: inmem.refines_def)
  have sp: "spec_ok P (layerLinkPathSpec n d)" "mem_ok (spec_comps P (layerLinkPathSpec n d))"
    using assms(3) by (simp_all add: request_ok_def)
  have "lbs_Stat P inmemory_Driver s' (layer_store P n) d = Inl ErrBlobUnknown"
    using inmem.Stat_through [OF assms(1) s'(2) U, of "layer_store P n" d "Some d"] sp(1) assms(5)
      inmem.layer_target(1) [OF assms(1) s'(2) sp] s'(3)
    by (simp add: repo_Blobs_def set_link_def visible_def)
  moreover have "\<exists>desc. lbs_mount P inmemory_Driver s (layer_store P n) (layer_store P src) d None = (s', Inr desc)"
  proof (cases "lbs_mount P inmemory_Driver s (layer_store P n) (layer_store P src) d None")
    case (Pair s2 r)
    moreover have "answer e \<noteq> Described d (length b)" for e by (cases e) simp_all
    ultimately show ?thesis using s'(1) by (cases r) (auto simp: described_def)
  qed
  ultimately show ?thesis by blast
qed

definition alias_digest :: digest where
  "alias_digest = ''sha512:'' @ replicate 128 (CHR ''0'')"

definition aliased_store :: mem where
  "aliased_store = fst (blobStore_link inmemory_Driver
     (fst (run_steps (reg_step sample_pkg inmemory_Driver) [PutBlob ''lib'' ''abc''] (mem_New 0)))
     (abs_path (spec_comps sample_pkg (layerLinkPathSpec ''lib'' alias_digest))) (sample_from_bytes ''abc''))"

theorem mount_by_alias_dangles_witness:
  "\<exists>s' desc. lbs_mount sample_pkg inmemory_Driver aliased_store (layer_store sample_pkg ''app'')
      (layer_store sample_pkg ''lib'') alias_digest None = (s', Inr desc) \<and>
    lbs_Stat sample_pkg inmemory_Driver s' (layer_store sample_pkg ''app'') alias_digest = Inl ErrBlobUnknown"
proof -
  let ?P = sample_pkg and ?t = "sample_from_bytes ''abc''" and ?l = "layerLinkPathSpec ''lib'' alias_digest"
  have v: "dg_validate ?P alias_digest = None" "alias_digest \<noteq> ?t"
    by (simp_all add: alias_digest_def sample_pkg_def sample_validate_def sample_algorithm_def sample_hex_def
        registered_def list_all_iff is_lower_hex_def in_range_def byte_of_def sample_from_bytes_def)
  note u = sample_links_usable [OF sample_digest_laws v(1)]
  define s0 where "s0 = fst (run_steps (reg_step ?P inmemory_Driver) [PutBlob ''lib'' ''abc''] (mem_New 0))"
  have "list_all (request_ok ?P mem_ok) [PutBlob ''lib'' ''abc'']"
    using sample_links_usable(1,2) [OF sample_digest_laws sample_abc(2)] by (simp add: request_ok_def sample_abc(1) del: spec_ok.simps)
  note run = mem_reg_run [OF sample_digest_laws sample_digest_laws this, of 0, folded s0_def]
  have R0: "reg_inv ?P mem_inv mem_file_at mem_dir_at s0" using run by (rule conjunct2)
  have b0: "a_blobs (reg_abs ?P mem_file_at s0) = [?t \<mapsto> ''abc'']"
    using run [THEN conjunct1, THEN arg_cong [of _ _ fst]]
    by (simp add: Let_def add_blob_def areg_New_def sample_abc(1) set_link_def) (metis areg.select_convs(1))
  obtain s1 where s1: "blobStore_link inmemory_Driver s0 (abs_path (spec_comps ?P ?l)) ?t = (s1, None)"
    "reg_inv ?P mem_inv mem_file_at mem_dir_at s1" "mem_file_at s1 = (mem_file_at s0)(spec_comps ?P ?l \<mapsto> ?t)"
    using inmem.link_leaf [OF sample_digest_laws R0 _ u(1,2)] sample_abc(2) by auto
  have eq: "aliased_store = s1" using s1(1) by (simp add: aliased_store_def s0_def)
  have abs: "reg_abs ?P mem_file_at s1 =
      (reg_abs ?P mem_file_at s0)\<lparr>a_layers := set_link (a_layers (reg_abs ?P mem_file_at s0)) ''lib'' alias_digest (Some ?t)\<rparr>"
    using reg_abs_upd [OF sample_digest_laws u(1) s1(3)] by simp
  show ?thesis
    unfolding eq using abs b0 u v(2)
    by (intro mount_by_alias_dangles [OF sample_digest_laws s1(2), where t = ?t and b = "''abc''"])
      (simp_all add: request_ok_def visible_def set_link_def del: spec_ok.simps)
qed

end
