(* ===== verification/Spec2Isabelle.thy ===== *)
theory Spec2Isabelle
  imports Prelude Digest_Pkg Digestset Go_Regexp Reference Driver InMemory InMemory_Tree InMemory_Laws InMemory_Defects
    Walk_Parallel Paths Storage_IO
    BlobStore Layout Registry_Store
begin

text \<open>
  A verification development for the container registry (a fork of Docker Distribution). The program
  stores container images: blobs addressed by the digest of their content, manifests, and tags that
  point to manifests, in repositories. An image reference is parsed (\<^verbatim>\<open>src/reference\<close>), the stores of a
  repository (\<^verbatim>\<open>src/registry/storage\<close>) turn requests into files of a fixed layout (\<^verbatim>\<open>paths.go\<close>), and a
  storage driver (\<^verbatim>\<open>src/registry/storage/driver\<close>) keeps those files.

  \<^bold>\<open>Conventions.\<close> Bytes are characters and strings are lists of characters. Go's \<^verbatim>\<open>int64\<close> offsets and sizes
  are \<^typ>\<open>int\<close>; where a caller chooses a summand, as in \<^verbatim>\<open>Seek\<close> and in the limit of a read, the sum is wrapped
  to 64 bits by \<open>wrap64\<close>, and the theorems name the range they hold for. Other sums are bounded by lengths
  of stored content and cannot leave the range. A failing operation returns a value of an error
  datatype; a panic is such a value too. Operations that write take and return the state of the driver,
  also when they fail. The digest package is third-party code: it is the record \<^typ>\<open>digest_pkg\<close>, a
  parameter, and what the code relies on are the named hypotheses of \<^verbatim>\<open>Digest_Pkg\<close> (validation accepts
  what \<open>Parse\<close> accepts, valid digests have the form algorithm, colon, hex digits, and so on), which a
  concrete package satisfies. Contexts, tracing, logging and metrics have no effect on results and are
  left out.

  \<^bold>\<open>Theories.\<close>
  \<^item> \<^verbatim>\<open>Prelude\<close>: results, Go's \<^verbatim>\<open>strings\<close>, \<^verbatim>\<open>path\<close> and \<^verbatim>\<open>strconv\<close> functions and their laws.
  \<^item> \<^verbatim>\<open>Digest_Pkg\<close>: the digest package as a parameter, with a concrete instance.
  \<^item> \<^verbatim>\<open>Digestset\<close>: \<^verbatim>\<open>src/digestset/set.go\<close>. The sorted slice of entries with binary search refines an
    abstract set; abbreviated lookups and the table of short codes.
  \<^item> \<^verbatim>\<open>Go_Regexp\<close> and \<^verbatim>\<open>Reference\<close>: \<^verbatim>\<open>src/reference\<close>. The grammar of \<^verbatim>\<open>regexp.go\<close> is written with the code's
    own combinators and run by a backtracking matcher with leftmost-first submatches, which is proved
    sound and complete for the language; on top of it the parser, the printer, the Docker normalization
    and the familiar names. Parser and printer are inverse; parsed names are clean paths.
  \<^item> \<^verbatim>\<open>Driver\<close>: the interface \<^verbatim>\<open>StorageDriver\<close> as a record of operations, the wrapper of \<^verbatim>\<open>base/base.go\<close>, the
    sequential walk, and two contracts: \<open>readable_driver\<close> for code that only reads, \<open>lawful_driver\<close> for code
    that writes. All that is proved of the stores is proved inside these locales.
  \<^item> \<^verbatim>\<open>InMemory\<close>, \<^verbatim>\<open>InMemory_Tree\<close>, \<^verbatim>\<open>InMemory_Laws\<close>: the in-memory driver (\<^verbatim>\<open>inmemory/mfs.go\<close>,
    \<^verbatim>\<open>inmemory/driver.go\<close>) with its tree of nodes that carry their own paths, the invariant that these paths
    agree with the places of the nodes (\<open>mem_inv\<close>), and the interpretation of both contracts. The driver only
    keeps the contract in stores with that invariant and on usable paths (\<open>mem_ok\<close>): those that the path
    check accepts and whose components are pairwise different. Every theorem on the stores is about such
    stores and paths.
  \<^item> \<^verbatim>\<open>InMemory_Defects\<close>: what the driver does outside the contract. A directory with a file of its own name
    or of the name of its first component, a directory that is moved, and a deletion below a file.
  \<^item> \<^verbatim>\<open>Walk_Parallel\<close>: the parallel walk of \<^verbatim>\<open>walk.go\<close>: goroutines, the semaphore, the error channel and the
    quit channel as a state, every interleaving as a list of steps. The number of slots is respected,
    every interleaving ends, none gets stuck, and each entry is visited once, for functions that leave
    the storage alone.
  \<^item> \<^verbatim>\<open>Paths\<close>: \<^verbatim>\<open>paths.go\<close>. Different specifications have different paths, and digests are read back.
  \<^item> \<^verbatim>\<open>Storage_IO\<close>: \<^verbatim>\<open>io.go\<close>, \<^verbatim>\<open>filereader.go\<close>, \<^verbatim>\<open>util.go\<close>: limited reads and the seekable buffered reader, whose
    reads and seeks are compared with the content and an offset alone.
  \<^item> \<^verbatim>\<open>BlobStore\<close>, \<^verbatim>\<open>Layout\<close>, \<^verbatim>\<open>Registry_Store\<close>: \<^verbatim>\<open>blobstore.go\<close>, \<^verbatim>\<open>linkedblobstore.go\<close>, \<^verbatim>\<open>tagstore.go\<close>. The files
    of the stores are leaves of the layout; every sequence of requests on the stores is answered as by
    an abstract registry of maps, and every stored blob hashes to its digest.

  \<^bold>\<open>Bounds and fuel.\<close> The sequential walk takes a bound on the depth of the tree; the parallel walk takes a
  schedule, and the theorems on it hold for every schedule. Loops that read through a buffer are
  functions on the remaining content and need no fuel.

  \<^bold>\<open>Not modelled.\<close> HTTP handlers, the notification system, the authentication services, the proxy, the
  metadata database and its garbage collector, the configuration, and the drivers for cloud storage:
  their behaviour lies in third-party services and packages, or they are not yet covered.
\<close>

end
